(* ===== verification/Prelude.thy ===== *)
theory Prelude
  imports Main "HOL-Library.Word"
begin

text \<open>
  What every component of the model shares: bytes, pointers, error numbers, the outcomes of a
  C function, the external calls the program makes, and the little-endian layout of the fields
  of a packed structure.

  A C function is a HOL function from the state to \<open>Ok value state\<close> or, when the C program
  has no defined continuation (a dereference of NULL or of freed memory, a failed assertion, a
  signed overflow, a library call outside its contract, a call that never returns), to \<open>Bad fault state\<close>, the state at that moment.

  The libraries the program calls (libc's allocator and clock, ZeroMQ, the Lustre API) are the
  fields of a record \<open>libs\<close>, an argument of every definition that uses them. Each field is an
  arbitrary function of the history of external calls, so a theorem over every \<open>libs\<close> covers
  every behaviour of these libraries.
\<close>

unbundle bit_operations_syntax

named_theorems field_simps_c \<open>reading a field of a packed structure back\<close>
named_theorems safe_simps \<open>an operation on live memory does not fault\<close>

subsection \<open>Bytes, pointers, error numbers\<close>

type_synonym byte = "8 word"
type_synonym bytes = "byte list"
type_synonym addr = nat
type_synonym ptr = "addr option" \<comment> \<open>\<open>None\<close> is NULL\<close>

abbreviation (input) ENOENT :: int where "ENOENT \<equiv> 2"
abbreviation (input) EINTR :: int where "EINTR \<equiv> 4"
abbreviation (input) EAGAIN :: int where "EAGAIN \<equiv> 11"
abbreviation (input) ENOMEM :: int where "ENOMEM \<equiv> 12"
abbreviation (input) ENODEV :: int where "ENODEV \<equiv> 19"
abbreviation (input) EINVAL :: int where "EINVAL \<equiv> 22"
abbreviation (input) EPROTO :: int where "EPROTO \<equiv> 71"
abbreviation (input) EOVERFLOW :: int where "EOVERFLOW \<equiv> 75"
abbreviation (input) EALREADY :: int where "EALREADY \<equiv> 114"

subsection \<open>Outcomes\<close>

datatype fault =
    Null_deref | Use_after_free | Out_of_bounds | Uninit_read
  | Assert_fail | Signed_overflow | Undefined_call | No_return

datatype ('a, 's) res = Ok 'a 's | Bad fault 's

text \<open>The state in which an operation returned or faulted.\<close>

definition state_of :: "('a, 's) res \<Rightarrow> 's" where
  "state_of m = (case m of Ok x t \<Rightarrow> t | Bad e t \<Rightarrow> t)"

lemma state_of_simps [simp]: "state_of (Ok x t) = t" "state_of (Bad e t) = t"
  by (simp_all add: state_of_def)

primrec bindR :: "('a, 's) res \<Rightarrow> ('a \<Rightarrow> 's \<Rightarrow> ('b, 's) res) \<Rightarrow> ('b, 's) res" where
  "bindR (Ok x s) f = f x s"
| "bindR (Bad e s) f = Bad e s"

lemma bindR_cong [fundef_cong]:
  assumes "m = m'" and "\<And>x s. m' = Ok x s \<Longrightarrow> f x s = g x s"
  shows "bindR m f = bindR m' g"
  using assms by (cases m') auto

primrec res_state :: "('a, 's) res \<Rightarrow> 's" where
  "res_state (Ok x s) = s"
| "res_state (Bad e s) = s"

definition is_Ok :: "('a, 's) res \<Rightarrow> bool" where
  "is_Ok r \<longleftrightarrow> (case r of Ok _ _ \<Rightarrow> True | Bad _ _ \<Rightarrow> False)"

lemma is_Ok_simps [simp]: "is_Ok (Ok x s)" "\<not> is_Ok (Bad e s)"
  by (simp_all add: is_Ok_def)

lemma is_OkE: "is_Ok r \<Longrightarrow> (\<And>x s. r = Ok x s \<Longrightarrow> P) \<Longrightarrow> P"
  by (cases r) simp_all

lemma bindR_eq_Ok:
  "bindR m f = Ok y t \<longleftrightarrow> (\<exists>x s. m = Ok x s \<and> f x s = Ok y t)"
  by (cases m) auto

lemma bindR_OkE:
  assumes "bindR m f = Ok y t"
  obtains x s where "m = Ok x s" "f x s = Ok y t"
  using assms by (auto simp: bindR_eq_Ok)

lemma bindR_eq_Bad:
  "bindR m f = Bad e t \<longleftrightarrow> m = Bad e t \<or> (\<exists>x s. m = Ok x s \<and> f x s = Bad e t)"
  by (cases m) auto

lemma bindR_assoc: "bindR (bindR m f) g = bindR m (\<lambda>x s. bindR (f x s) g)"
  by (cases m) auto

text \<open>Signed 32-bit arithmetic is undefined outside the range of \<^verbatim>\<open>int\<close>.\<close>

definition in_int32 :: "int \<Rightarrow> bool" where
  "in_int32 x \<longleftrightarrow> - (2 ^ 31) \<le> x \<and> x < 2 ^ 31"

text \<open>The conversion of a wider integer to \<^verbatim>\<open>int\<close> takes its low 32 bits.\<close>

definition to_int32 :: "int \<Rightarrow> int" where
  "to_int32 x = (x + 2 ^ 31) mod 2 ^ 32 - 2 ^ 31"

lemma to_int32_same [simp]: "in_int32 x \<Longrightarrow> to_int32 x = x"
  by (simp add: in_int32_def to_int32_def)

lemma to_int32_range: "in_int32 (to_int32 x)"
  by (simp add: in_int32_def to_int32_def)

subsection \<open>External calls\<close>

record timespec =
  tv_sec :: int
  tv_nsec :: int

record timeval =
  tval_sec :: int
  tval_usec :: int

text \<open>One entry per external call, with its arguments and its outcome.\<close>

datatype event =
    Ev_alloc nat bool                       \<comment> \<open>allocation of so many bytes, whether it succeeded\<close>
  | Ev_send bytes bool nat                  \<comment> \<open>\<^verbatim>\<open>zmq_send\<close>: frame, ZMQ_SNDMORE, errno (0 = accepted)\<close>
  | Ev_recv bytes bool                      \<comment> \<open>\<^verbatim>\<open>zmq_msg_recv\<close>: frame, ZMQ_RCVMORE\<close>
  | Ev_recv_err nat                         \<comment> \<open>a receive that failed, with its errno\<close>
  | Ev_clock timespec                       \<comment> \<open>\<^verbatim>\<open>clock_gettime\<close>\<close>
  | Ev_timeofday timeval                    \<comment> \<open>\<^verbatim>\<open>gettimeofday\<close>\<close>
  | Ev_poll int int                         \<comment> \<open>\<^verbatim>\<open>zmq_poll\<close>: timeout, result\<close>
  | Ev_zmq_ctx bool                         \<comment> \<open>\<^verbatim>\<open>zmq_ctx_new\<close>\<close>
  | Ev_zmq_socket bool                      \<comment> \<open>\<^verbatim>\<open>zmq_socket\<close>\<close>
  | Ev_zmq_identity bytes nat               \<comment> \<open>\<^verbatim>\<open>zmq_setsockopt\<close> ZMQ_IDENTITY, errno\<close>
  | Ev_zmq_connect nat                      \<comment> \<open>\<^verbatim>\<open>zmq_connect\<close> or \<^verbatim>\<open>zmq_bind\<close>, errno\<close>
  | Ev_zmq_close                            \<comment> \<open>\<^verbatim>\<open>zmq_close\<close>\<close>
  | Ev_zmq_term                             \<comment> \<open>\<^verbatim>\<open>zmq_ctx_destroy\<close>\<close>
  | Ev_term_sig bool                        \<comment> \<open>a read of the flag \<^verbatim>\<open>TerminateSig\<close>\<close>
  | Ev_zmq_getsockopt nat                   \<comment> \<open>\<^verbatim>\<open>zmq_getsockopt\<close> ZMQ_RCVMORE, errno\<close>
  | Ev_ll_start nat "bytes option" "64 word" int
                                            \<comment> \<open>\<^verbatim>\<open>llapi_changelog_start\<close>: flags, device, start, result\<close>
  | Ev_ll_recv "int + bytes"                \<comment> \<open>\<^verbatim>\<open>llapi_changelog_recv\<close>: return code or record\<close>
  | Ev_ll_fini                              \<comment> \<open>\<^verbatim>\<open>llapi_changelog_fini\<close>\<close>
  | Ev_ll_clear "bytes option" "bytes option" int int
                                            \<comment> \<open>\<^verbatim>\<open>llapi_changelog_clear\<close>: device, reader, record, result\<close>
  | Ev_ll_free "bytes option"               \<comment> \<open>\<^verbatim>\<open>llapi_changelog_free\<close>\<close>
  | Ev_thread_attr nat                      \<comment> \<open>\<^verbatim>\<open>pthread_attr_init\<close> or \<^verbatim>\<open>_setdetachstate\<close>, result\<close>
  | Ev_thread_create nat nat                \<comment> \<open>\<^verbatim>\<open>pthread_create\<close>: argument, result\<close>
  | Ev_sigaction nat nat                    \<comment> \<open>\<^verbatim>\<open>sigaction\<close>: signal, errno\<close>
  | Ev_sleep nat                            \<comment> \<open>\<^verbatim>\<open>sleep\<close> or \<^verbatim>\<open>usleep\<close>, in milliseconds\<close>

type_synonym history = "event list" \<comment> \<open>latest call first\<close>

record libs =
  lib_alloc :: "history \<Rightarrow> nat \<Rightarrow> bool"
  lib_send :: "history \<Rightarrow> bytes \<Rightarrow> bool \<Rightarrow> nat"
  lib_clock :: "history \<Rightarrow> timespec"
  lib_timeofday :: "history \<Rightarrow> timeval"
  lib_poll :: "history \<Rightarrow> int \<Rightarrow> int"
  lib_pollin :: "history \<Rightarrow> bool" \<comment> \<open>ZMQ_POLLIN in the \<^verbatim>\<open>revents\<close> of the item polled\<close>
  lib_ctx_new :: "history \<Rightarrow> nat"
  lib_socket :: "history \<Rightarrow> nat"
  lib_identity :: "history \<Rightarrow> nat"
  lib_connect :: "history \<Rightarrow> nat"
  lib_term_sig :: "history \<Rightarrow> bool"
  lib_getsockopt :: "history \<Rightarrow> nat"
  lib_ll_start :: "history \<Rightarrow> nat \<Rightarrow> bytes option \<Rightarrow> 64 word \<Rightarrow> int"
  lib_ll_fini :: "history \<Rightarrow> int"
  lib_ll_free :: "history \<Rightarrow> int"
  lib_ll_clear :: "history \<Rightarrow> bytes option \<Rightarrow> bytes option \<Rightarrow> int \<Rightarrow> int"
  lib_thread_attr :: "history \<Rightarrow> nat"
  lib_thread_create :: "history \<Rightarrow> nat \<times> nat" \<comment> \<open>result and identifier\<close>
  lib_sigaction :: "history \<Rightarrow> nat \<Rightarrow> nat"
  ZMQ_DONTWAIT :: nat
  CHANGELOG_FLAG_FOLLOW :: nat
  CHANGELOG_FLAG_BLOCK :: nat
  CHANGELOG_FLAG_JOBID :: nat
  sizeof_changelog_rec :: nat
  changelog_rec_size :: "bytes \<Rightarrow> nat"
  changelog_rec_name :: "bytes \<Rightarrow> nat" \<comment> \<open>offset of the name in the record\<close>
  cr_namelen :: "bytes \<Rightarrow> 16 word"
  cr_index :: "bytes \<Rightarrow> 64 word"

text \<open>What a thread's socket still has to deliver.\<close>

datatype in_event = In_frame bytes bool | In_err nat

record world =
  w_log :: history
  w_errno :: nat
  w_in :: "in_event list"

text \<open>Updates of the world commute; the log is kept outermost.\<close>

lemma world_upd_commute [simp]:
  fixes s :: "'a world_scheme"
  shows "s\<lparr>w_log := l, w_in := i\<rparr> = s\<lparr>w_in := i, w_log := l\<rparr>"
    and "s\<lparr>w_log := l, w_errno := e\<rparr> = s\<lparr>w_errno := e, w_log := l\<rparr>"
    and "s\<lparr>w_errno := e, w_in := i\<rparr> = s\<lparr>w_in := i, w_errno := e\<rparr>"
  by simp_all

text \<open>Allocation: a request above PTRDIFF_MAX always fails (malloc(3)).\<close>

definition alloc :: "libs \<Rightarrow> nat \<Rightarrow> 'a world_scheme \<Rightarrow> bool \<times> 'a world_scheme" where
  "alloc L sz s =
     (let ok = (lib_alloc L (w_log s) sz \<and> sz < 2 ^ 63)
      in (ok, s\<lparr>w_log := Ev_alloc sz ok # w_log s\<rparr>))"

definition zmq_send :: "libs \<Rightarrow> bytes \<Rightarrow> bool \<Rightarrow> 'a world_scheme \<Rightarrow> int \<times> 'a world_scheme" where
  "zmq_send L f snd_more s =
     (let e = lib_send L (w_log s) f snd_more;
          s' = s\<lparr>w_log := Ev_send f snd_more e # w_log s\<rparr>
      in if e = 0 then (int (length f), s') else (- 1, s'\<lparr>w_errno := e\<rparr>))"

definition clock_gettime :: "libs \<Rightarrow> 'a world_scheme \<Rightarrow> timespec \<times> 'a world_scheme" where
  "clock_gettime L s =
     (let t = lib_clock L (w_log s) in (t, s\<lparr>w_log := Ev_clock t # w_log s\<rparr>))"

definition gettimeofday :: "libs \<Rightarrow> 'a world_scheme \<Rightarrow> timeval \<times> 'a world_scheme" where
  "gettimeofday L s =
     (let t = lib_timeofday L (w_log s) in (t, s\<lparr>w_log := Ev_timeofday t # w_log s\<rparr>))"

definition read_term_sig :: "libs \<Rightarrow> 'a world_scheme \<Rightarrow> bool \<times> 'a world_scheme" where
  "read_term_sig L s =
     (let b = lib_term_sig L (w_log s) in (b, s\<lparr>w_log := Ev_term_sig b # w_log s\<rparr>))"

text \<open>
  \<^verbatim>\<open>zmq_msg_recv\<close>: the next frame of the socket; with nothing to read it fails with EAGAIN
  when ZMQ_DONTWAIT is among the flags, and blocks otherwise.
\<close>

definition zmq_msg_recv ::
    "libs \<Rightarrow> nat \<Rightarrow> 'a world_scheme \<Rightarrow> (nat + bytes \<times> bool, 'a world_scheme) res" where
  "zmq_msg_recv L flags s =
     (case w_in s of
        In_frame f snd_more # r \<Rightarrow>
          Ok (Inr (f, snd_more)) (s\<lparr>w_in := r, w_log := Ev_recv f snd_more # w_log s\<rparr>)
      | In_err e # r \<Rightarrow>
          Ok (Inl e) (s\<lparr>w_in := r, w_errno := e, w_log := Ev_recv_err e # w_log s\<rparr>)
      | [] \<Rightarrow>
          if flags AND ZMQ_DONTWAIT L = 0 then Bad No_return s
          else Ok (Inl (nat EAGAIN))
                 (s\<lparr>w_errno := nat EAGAIN, w_log := Ev_recv_err (nat EAGAIN) # w_log s\<rparr>))"

text \<open>Frames sent one after the other, up to the first that fails: 0 or a negated errno.\<close>

fun send_frames ::
    "libs \<Rightarrow> (bytes \<times> bool) list \<Rightarrow> 'a world_scheme \<Rightarrow> int \<times> 'a world_scheme" where
  "send_frames L [] s = (0, s)"
| "send_frames L ((f, snd_more) # fs) s =
     (case zmq_send L f snd_more s of
        (rc, s') \<Rightarrow> if rc < 0 then (- int (w_errno s'), s') else send_frames L fs s')"

subsection \<open>Little-endian fields\<close>

primrec le_bytes :: "nat \<Rightarrow> nat \<Rightarrow> bytes" where
  "le_bytes 0 v = []"
| "le_bytes (Suc n) v = of_nat v # le_bytes n (v div 256)"

primrec le_nat :: "bytes \<Rightarrow> nat" where
  "le_nat [] = 0"
| "le_nat (b # bs) = unat b + 256 * le_nat bs"

lemma length_le_bytes [simp]: "length (le_bytes n v) = n"
  by (induction n arbitrary: v) simp_all

lemma le_nat_le_bytes: "le_nat (le_bytes n v) = v mod 256 ^ n"
proof (induction n arbitrary: v)
  case 0
  then show ?case by simp
next
  case (Suc n)
  have "le_nat (le_bytes (Suc n) v) = v mod 256 + 256 * (v div 256 mod 256 ^ n)"
    by (simp add: Suc unat_of_nat)
  also have "\<dots> = v mod (256 * 256 ^ n)"
    using mod_mult2_eq [of v 256 "256 ^ n"] by simp
  finally show ?case by simp
qed

definition put32 :: "32 word \<Rightarrow> bytes" where "put32 w = le_bytes 4 (unat w)"
definition put64 :: "64 word \<Rightarrow> bytes" where "put64 w = le_bytes 8 (unat w)"
definition get32 :: "nat \<Rightarrow> bytes \<Rightarrow> 32 word" where
  "get32 off bs = of_nat (le_nat (take 4 (drop off bs)))"
definition get64 :: "nat \<Rightarrow> bytes \<Rightarrow> 64 word" where
  "get64 off bs = of_nat (le_nat (take 8 (drop off bs)))"

lemma length_put [simp]: "length (put32 w) = 4" "length (put64 x) = 8"
  by (simp_all add: put32_def put64_def)

lemma get32_put32 [simp, field_simps_c]: "get32 0 (put32 w @ r) = w"
proof -
  have "unat w < 256 ^ 4" using unsigned_less [of w] by simp
  then show ?thesis by (simp add: get32_def put32_def le_nat_le_bytes)
qed

lemma get64_put64 [simp, field_simps_c]: "get64 0 (put64 w @ r) = w"
proof -
  have "unat w < 256 ^ 8" using unsigned_less [of w] by simp
  then show ?thesis by (simp add: get64_def put64_def le_nat_le_bytes)
qed

lemma get_skip [field_simps_c]:
  "length xs \<le> off \<Longrightarrow> get32 off (xs @ r) = get32 (off - length xs) r"
  "length xs \<le> off \<Longrightarrow> get64 off (xs @ r) = get64 (off - length xs) r"
  by (simp_all add: get32_def get64_def)

subsection \<open>C strings in a byte array\<close>

text \<open>\<^verbatim>\<open>strlen\<close> of the string that starts an array: up to the first NUL byte.\<close>

definition c_str :: "bytes \<Rightarrow> bytes" where
  "c_str bs = takeWhile (\<lambda>b. b \<noteq> 0) bs"

lemma c_str_append [simp]: "0 \<notin> set n \<Longrightarrow> c_str (n @ 0 # r) = n"
  by (simp add: c_str_def takeWhile_append2 takeWhile_tail cong: takeWhile_cong)
    (metis append.right_neutral takeWhile_eq_all_conv takeWhile_append)

subsection \<open>The log of external calls\<close>

lemma zmq_send_log:
  "zmq_send L f snd_more s = (rc, s') \<Longrightarrow>
     w_log s' = Ev_send f snd_more (lib_send L (w_log s) f snd_more) # w_log s"
  by (auto simp: zmq_send_def Let_def split: if_splits)

text \<open>An external call that sends nothing.\<close>

definition quiet_event :: "event \<Rightarrow> bool" where
  "quiet_event e \<longleftrightarrow> (case e of Ev_send _ _ _ \<Rightarrow> False | _ \<Rightarrow> True)"

lemma quiet_event_simps [simp]:
  "quiet_event (Ev_alloc n b)" "quiet_event (Ev_recv f m)" "quiet_event (Ev_zmq_getsockopt e)"
  by (simp_all add: quiet_event_def)

definition sends_ok :: "libs \<Rightarrow> bool" where
  "sends_ok L \<longleftrightarrow> (\<forall>h f m. lib_send L h f m = 0)"

definition allocs_ok :: "libs \<Rightarrow> bool" where
  "allocs_ok L \<longleftrightarrow> (\<forall>h n. lib_alloc L h n)"

text \<open>zmq_poll(3): an item is counted when a requested event, here ZMQ_POLLIN alone, is signalled for it.\<close>

definition polls_ok :: "libs \<Rightarrow> bool" where
  "polls_ok L \<longleftrightarrow> (\<forall>h t. 0 < lib_poll L h t \<longrightarrow> lib_pollin L (Ev_poll t (lib_poll L h t) # h))"

lemma zmq_send_ok:
  "sends_ok L \<Longrightarrow> zmq_send L f snd_more s = (int (length f), s\<lparr>w_log := Ev_send f snd_more 0 # w_log s\<rparr>)"
  by (simp add: zmq_send_def sends_ok_def)

lemma send_frames_ok:
  "sends_ok L \<Longrightarrow> send_frames L fs s =
     (0, s\<lparr>w_log := rev (map (\<lambda>(f, m). Ev_send f m 0) fs) @ w_log s\<rparr>)"
  by (induction fs arbitrary: s) (auto simp: zmq_send_ok)

declare send_frames.simps [simp del]

subsection \<open>An instance of the libraries\<close>

text \<open>
  Every call succeeds and records have the layout of \<^verbatim>\<open>struct changelog_rec\<close> without
  extensions: 64 bytes, the name length in the first two and the index in bytes 8 to 15.
\<close>

definition demo_libs :: libs where
  "demo_libs = \<lparr>lib_alloc = (\<lambda>_ _. True), lib_send = (\<lambda>_ _ _. 0),
     lib_clock = (\<lambda>h. \<lparr>tv_sec = 1, tv_nsec = 0\<rparr>), lib_timeofday = (\<lambda>h. \<lparr>tval_sec = 1, tval_usec = 0\<rparr>),
     lib_poll = (\<lambda>_ _. 1), lib_pollin = (\<lambda>_. True), lib_ctx_new = (\<lambda>_. 0),
     lib_socket = (\<lambda>_. 0), lib_identity = (\<lambda>_. 0), lib_connect = (\<lambda>_. 0),
     lib_term_sig = (\<lambda>_. False), lib_getsockopt = (\<lambda>_. 0),
     lib_ll_start = (\<lambda>_ _ _ _. 0), lib_ll_fini = (\<lambda>_. 0), lib_ll_free = (\<lambda>_. 0),
     lib_ll_clear = (\<lambda>_ _ _ _. 0),
     lib_thread_attr = (\<lambda>_. 0), lib_thread_create = (\<lambda>h. (0, length h)), lib_sigaction = (\<lambda>_ _. 0),
     ZMQ_DONTWAIT = 1,
     CHANGELOG_FLAG_FOLLOW = 1, CHANGELOG_FLAG_BLOCK = 2, CHANGELOG_FLAG_JOBID = 4,
     sizeof_changelog_rec = 64, changelog_rec_size = (\<lambda>_. 64),
     changelog_rec_name = (\<lambda>_. 64), cr_namelen = (\<lambda>r. of_nat (le_nat (take 2 r))),
     cr_index = (\<lambda>r. get64 8 r)\<rparr>"

lemma demo_libs_ok [simp]: "allocs_ok demo_libs" "sends_ok demo_libs" "ZMQ_DONTWAIT demo_libs = 1" "polls_ok demo_libs"
  by (simp_all add: demo_libs_def allocs_ok_def sends_ok_def polls_ok_def)

end
