(* ===== verification/Idl.thy ===== *)
theory Idl
  imports Prelude
begin

text \<open>
  \<^verbatim>\<open>src/include/lcap_idl.h\<close>: the operation codes, the packed RPC structures and their byte
  layout on the wire (x86_64, little endian), the expected length of a request and the two
  strings a CLEAR request carries.

  A structure is a record; \<open>enc_*\<close> is its image in memory and \<open>dec_*\<close> is the cast of a
  received buffer to the structure. Every \<open>dec_*\<close> undoes its \<open>enc_*\<close>, whatever follows in the
  buffer, which is how the handlers read requests longer than the structure.
\<close>

subsection \<open>Operation codes\<close>

datatype rpc_op_type =
    RPC_OP_START | RPC_OP_DEQUEUE | RPC_OP_CLEAR | RPC_OP_FINI
  | RPC_OP_ENQUEUE | RPC_OP_ACK | RPC_OP_SIGNAL

primrec rpc_op_code :: "rpc_op_type \<Rightarrow> nat" where
  "rpc_op_code RPC_OP_START = 0"
| "rpc_op_code RPC_OP_DEQUEUE = 1"
| "rpc_op_code RPC_OP_CLEAR = 2"
| "rpc_op_code RPC_OP_FINI = 3"
| "rpc_op_code RPC_OP_ENQUEUE = 4"
| "rpc_op_code RPC_OP_ACK = 5"
| "rpc_op_code RPC_OP_SIGNAL = 6"

abbreviation (input) RPC_OP_FIRST :: nat where "RPC_OP_FIRST \<equiv> 0"
abbreviation (input) RPC_OP_LAST :: nat where "RPC_OP_LAST \<equiv> 6"

text \<open>The enumerator of a code, if any: the cast \<^verbatim>\<open>(enum rpc_op_type)\<close> of a header field.\<close>

definition rpc_op_of :: "nat \<Rightarrow> rpc_op_type option" where
  "rpc_op_of n =
     (if n = 0 then Some RPC_OP_START else if n = 1 then Some RPC_OP_DEQUEUE
      else if n = 2 then Some RPC_OP_CLEAR else if n = 3 then Some RPC_OP_FINI
      else if n = 4 then Some RPC_OP_ENQUEUE else if n = 5 then Some RPC_OP_ACK
      else if n = 6 then Some RPC_OP_SIGNAL else None)"

lemma rpc_op_of_code [simp]: "rpc_op_of (rpc_op_code t) = Some t"
  by (cases t) (simp_all add: rpc_op_of_def)

lemma rpc_op_of_num [simp]:
  "rpc_op_of 0 = Some RPC_OP_START" "rpc_op_of (Suc 0) = Some RPC_OP_DEQUEUE"
  "rpc_op_of 2 = Some RPC_OP_CLEAR" "rpc_op_of 3 = Some RPC_OP_FINI"
  "rpc_op_of 4 = Some RPC_OP_ENQUEUE" "rpc_op_of 5 = Some RPC_OP_ACK"
  "rpc_op_of 6 = Some RPC_OP_SIGNAL"
  by (simp_all add: rpc_op_of_def)

lemma rpc_op_of_eq_Some: "rpc_op_of n = Some t \<longleftrightarrow> n = rpc_op_code t"
  by (cases t) (auto simp: rpc_op_of_def split: if_splits)

lemma rpc_op_of_range: "n \<le> RPC_OP_LAST \<longleftrightarrow> (\<exists>t. rpc_op_of n = Some t)"
  by (auto simp: rpc_op_of_def)

subsection \<open>Structures\<close>

record px_rpc_hdr =
  op_type :: "32 word"
  reserved :: "32 word"

record px_rpc_register =
  reg_hdr :: px_rpc_hdr
  reg_flags :: "32 word"
  reg_padding :: "32 word"
  reg_start :: "64 word"
  reg_mdtname :: bytes \<comment> \<open>128 bytes\<close>

record px_rpc_clear =
  clr_hdr :: px_rpc_hdr
  clr_index :: "64 word"
  clr_id_len :: "32 word"
  clr_id :: bytes \<comment> \<open>the flexible array at the end\<close>

record px_rpc_enqueue =
  enq_hdr :: px_rpc_hdr
  enq_count :: "32 word"
  enq_records :: bytes \<comment> \<open>the flexible array at the end\<close>

record px_rpc_dequeue =
  deq_hdr :: px_rpc_hdr

record px_rpc_fini =
  fin_hdr :: px_rpc_hdr

record px_rpc_ack =
  ack_hdr :: px_rpc_hdr
  ack_pr_retcode :: "32 word"

record px_rpc_signal =
  sig_hdr :: px_rpc_hdr
  sig_ret :: "64 word"
  sig_mdtname :: bytes \<comment> \<open>128 bytes\<close>

abbreviation (input) sizeof_hdr :: nat where "sizeof_hdr \<equiv> 8"
abbreviation (input) sizeof_register :: nat where "sizeof_register \<equiv> 152"
abbreviation (input) sizeof_clear :: nat where "sizeof_clear \<equiv> 20"
abbreviation (input) sizeof_enqueue :: nat where "sizeof_enqueue \<equiv> 12"
abbreviation (input) sizeof_dequeue :: nat where "sizeof_dequeue \<equiv> 8"
abbreviation (input) sizeof_fini :: nat where "sizeof_fini \<equiv> 8"
abbreviation (input) sizeof_ack :: nat where "sizeof_ack \<equiv> 12"
abbreviation (input) sizeof_signal :: nat where "sizeof_signal \<equiv> 144"
abbreviation (input) sizeof_mdtname :: nat where "sizeof_mdtname \<equiv> 128"

definition mk_hdr :: "rpc_op_type \<Rightarrow> px_rpc_hdr" where
  "mk_hdr t = \<lparr>op_type = of_nat (rpc_op_code t), reserved = 0\<rparr>"

definition enc_hdr :: "px_rpc_hdr \<Rightarrow> bytes" where
  "enc_hdr h = put32 (op_type h) @ put32 (reserved h)"

definition dec_hdr :: "bytes \<Rightarrow> px_rpc_hdr" where
  "dec_hdr b = \<lparr>op_type = get32 0 b, reserved = get32 4 b\<rparr>"

definition enc_register :: "px_rpc_register \<Rightarrow> bytes" where
  "enc_register r = enc_hdr (reg_hdr r) @ put32 (reg_flags r) @ put32 (reg_padding r)
     @ put64 (reg_start r) @ reg_mdtname r"

definition dec_register :: "bytes \<Rightarrow> px_rpc_register" where
  "dec_register b = \<lparr>reg_hdr = dec_hdr b, reg_flags = get32 8 b, reg_padding = get32 12 b,
     reg_start = get64 16 b, reg_mdtname = take 128 (drop 24 b)\<rparr>"

definition enc_clear :: "px_rpc_clear \<Rightarrow> bytes" where
  "enc_clear r = enc_hdr (clr_hdr r) @ put64 (clr_index r) @ put32 (clr_id_len r) @ clr_id r"

definition dec_clear :: "bytes \<Rightarrow> px_rpc_clear" where
  "dec_clear b = \<lparr>clr_hdr = dec_hdr b, clr_index = get64 8 b, clr_id_len = get32 16 b,
     clr_id = drop 20 b\<rparr>"

definition enc_enqueue :: "px_rpc_enqueue \<Rightarrow> bytes" where
  "enc_enqueue r = enc_hdr (enq_hdr r) @ put32 (enq_count r) @ enq_records r"

definition dec_enqueue :: "bytes \<Rightarrow> px_rpc_enqueue" where
  "dec_enqueue b = \<lparr>enq_hdr = dec_hdr b, enq_count = get32 8 b, enq_records = drop 12 b\<rparr>"

definition enc_dequeue :: "px_rpc_dequeue \<Rightarrow> bytes" where
  "enc_dequeue r = enc_hdr (deq_hdr r)"

definition enc_fini :: "px_rpc_fini \<Rightarrow> bytes" where
  "enc_fini r = enc_hdr (fin_hdr r)"

definition enc_ack :: "px_rpc_ack \<Rightarrow> bytes" where
  "enc_ack r = enc_hdr (ack_hdr r) @ put32 (ack_pr_retcode r)"

definition dec_ack :: "bytes \<Rightarrow> px_rpc_ack" where
  "dec_ack b = \<lparr>ack_hdr = dec_hdr b, ack_pr_retcode = get32 8 b\<rparr>"

definition enc_signal :: "px_rpc_signal \<Rightarrow> bytes" where
  "enc_signal r = enc_hdr (sig_hdr r) @ put64 (sig_ret r) @ sig_mdtname r"

definition dec_signal :: "bytes \<Rightarrow> px_rpc_signal" where
  "dec_signal b = \<lparr>sig_hdr = dec_hdr b, sig_ret = get64 8 b,
     sig_mdtname = take 128 (drop 16 b)\<rparr>"

text \<open>The operation code of a body of at least eight bytes.\<close>

definition body_op :: "bytes \<Rightarrow> nat" where
  "body_op b = unat (op_type (dec_hdr b))"

subsection \<open>Functions of the header file\<close>

definition rpc_expected_length :: "nat \<Rightarrow> nat" where
  "rpc_expected_length op =
     (case rpc_op_of op of
        Some RPC_OP_START \<Rightarrow> sizeof_register
      | Some RPC_OP_DEQUEUE \<Rightarrow> sizeof_dequeue
      | Some RPC_OP_CLEAR \<Rightarrow> sizeof_clear
      | Some RPC_OP_FINI \<Rightarrow> sizeof_fini
      | Some RPC_OP_ENQUEUE \<Rightarrow> sizeof_enqueue
      | Some RPC_OP_ACK \<Rightarrow> sizeof_ack
      | Some RPC_OP_SIGNAL \<Rightarrow> sizeof_signal
      | None \<Rightarrow> 2 ^ 64 - 1)"

definition rpc_optype2str :: "nat \<Rightarrow> string" where
  "rpc_optype2str op =
     (case rpc_op_of op of
        Some RPC_OP_ENQUEUE \<Rightarrow> ''ENQUEUE''
      | Some RPC_OP_START \<Rightarrow> ''START''
      | Some RPC_OP_DEQUEUE \<Rightarrow> ''DEQUEUE''
      | Some RPC_OP_CLEAR \<Rightarrow> ''CLEAR''
      | Some RPC_OP_FINI \<Rightarrow> ''FINI''
      | Some RPC_OP_ACK \<Rightarrow> ''ACK''
      | Some RPC_OP_SIGNAL \<Rightarrow> ''SIGNAL''
      | None \<Rightarrow> ''???'')"

definition px_rpc_get_id :: "px_rpc_clear \<Rightarrow> bytes" where
  "px_rpc_get_id r = c_str (clr_id r)"

definition px_rpc_get_mdtname :: "px_rpc_clear \<Rightarrow> bytes" where
  "px_rpc_get_mdtname r = c_str (drop (length (c_str (clr_id r)) + 1) (clr_id r))"

subsection \<open>Layout lemmas\<close>

lemma length_enc [simp]:
  "length (enc_hdr h) = sizeof_hdr"
  "length (enc_ack a) = sizeof_ack"
  "length (enc_dequeue d) = sizeof_dequeue"
  "length (enc_fini f) = sizeof_fini"
  "length (enc_clear c) = sizeof_clear + length (clr_id c)"
  "length (enc_enqueue e) = sizeof_enqueue + length (enq_records e)"
  "length (enc_register r) = 24 + length (reg_mdtname r)"
  "length (enc_signal g) = 16 + length (sig_mdtname g)"
  by (simp_all add: enc_hdr_def enc_ack_def enc_dequeue_def enc_fini_def enc_clear_def
      enc_enqueue_def enc_register_def enc_signal_def)

lemma dec_enc_hdr [simp]: "dec_hdr (enc_hdr h @ r) = h"
  by (simp add: dec_hdr_def enc_hdr_def field_simps_c)

lemma dec_hdr_enc [simp]:
  "dec_hdr (enc_ack a @ r) = ack_hdr a"
  "dec_hdr (enc_dequeue d @ r) = deq_hdr d"
  "dec_hdr (enc_fini f @ r) = fin_hdr f"
  "dec_hdr (enc_clear c @ r) = clr_hdr c"
  "dec_hdr (enc_enqueue e @ r) = enq_hdr e"
  "dec_hdr (enc_register g @ r) = reg_hdr g"
  "dec_hdr (enc_signal i @ r) = sig_hdr i"
  by (simp_all add: enc_ack_def enc_dequeue_def enc_fini_def enc_clear_def
      enc_enqueue_def enc_register_def enc_signal_def)

lemmas dec_hdr_enc_only [simp] =
  dec_hdr_enc [where r = "[]", simplified]

lemma body_op_enc:
  "hdr_of = mk_hdr t \<Longrightarrow> unat (op_type hdr_of) = rpc_op_code t"
  by (cases t) (simp_all add: mk_hdr_def)

lemma body_op_mk_hdr: "dec_hdr b = mk_hdr t \<Longrightarrow> body_op b = rpc_op_code t"
  by (simp add: body_op_def body_op_enc)

lemma dec_enc_ack [simp]: "dec_ack (enc_ack a @ r) = a"
proof -
  have "get32 8 (enc_ack a @ r) = ack_pr_retcode a"
    by (simp add: enc_ack_def field_simps_c)
  then show ?thesis by (simp add: dec_ack_def)
qed

lemma dec_enc_register [simp]:
  assumes "length (reg_mdtname g) = sizeof_mdtname"
  shows "dec_register (enc_register g @ r) = g"
  using assms by (simp add: dec_register_def)
    (simp add: enc_register_def field_simps_c)

lemma dec_enc_signal [simp]:
  assumes "length (sig_mdtname g) = sizeof_mdtname"
  shows "dec_signal (enc_signal g @ r) = g"
  using assms by (simp add: dec_signal_def)
    (simp add: enc_signal_def field_simps_c)

lemma dec_enc_clear [simp]: "dec_clear (enc_clear c) = c"
  by (simp add: dec_clear_def) (simp add: enc_clear_def field_simps_c)

lemma dec_enc_enqueue [simp]: "dec_enqueue (enc_enqueue e) = e"
  by (simp add: dec_enqueue_def) (simp add: enc_enqueue_def field_simps_c)

lemma dec_enc_ack_only [simp]: "dec_ack (enc_ack a) = a"
  using dec_enc_ack [of a "[]"] by simp

end
