(* ===== verification/Net.thy ===== *)
theory Net
  imports Idl "HOL-Library.Sublist"
begin

text \<open>
  \<^verbatim>\<open>src/lcapnet/lcap_net.c\<close> and \<^verbatim>\<open>src/include/lcap_net.h\<close>: reassembling the frames of a
  ZeroMQ message into a request and handing it to a callback.

  The frames a socket will deliver are the list \<open>w_in\<close> of the state. A frame goes to the sender
  identity (unless the caller asked for no envelope), then to the forwarding identity, then to
  the body; empty frames are delimiters. The lemmas give the request a message turns into, that
  a callback only sees requests with a forwarding identity and a body, and that the receive loop
  ends and returns a count that is never negative.
\<close>

subsection \<open>Structures\<close>

record conn_id =
  ci_length :: nat
  ci_data :: bytes

record lcapnet_request =
  lr_flags :: nat
  lr_remote :: "conn_id option"
  lr_forward :: "conn_id option"
  lr_body :: bytes
  lr_body_len :: nat

abbreviation (input) LCAP_RECV_NO_ENVELOPE :: nat where "LCAP_RECV_NO_ENVELOPE \<equiv> 1"
abbreviation (input) LCAP_RECV_NONBLOCK :: nat where "LCAP_RECV_NONBLOCK \<equiv> 2"

abbreviation (input) sizeof_conn_id :: nat where "sizeof_conn_id \<equiv> 8"
abbreviation (input) sizeof_request :: nat where "sizeof_request \<equiv> 40"

definition cid :: "bytes \<Rightarrow> conn_id" where
  "cid b = \<lparr>ci_length = length b, ci_data = b\<rparr>"

lemma cid_simps [simp]: "ci_length (cid b) = length b" "ci_data (cid b) = b"
  by (simp_all add: cid_def)

lemma cid_inject [simp]: "cid a = cid b \<longleftrightarrow> a = b"
  by (auto simp: cid_def)

definition wf_cid :: "conn_id \<Rightarrow> bool" where
  "wf_cid c \<longleftrightarrow> ci_length c = length (ci_data c)"

lemma wf_cid_cid [simp]: "wf_cid (cid b)"
  by (simp add: wf_cid_def)

subsection \<open>Operations\<close>

definition connection_id_new ::
    "libs \<Rightarrow> bytes \<Rightarrow> nat \<Rightarrow> 'a world_scheme \<Rightarrow> conn_id option \<times> 'a world_scheme" where
  "connection_id_new L b len s =
     (case alloc L (sizeof_conn_id + len) s of
        (ok, s) \<Rightarrow> (if ok then Some \<lparr>ci_length = len, ci_data = take len b\<rparr> else None, s))"

definition lcapnet_req_init ::
    "libs \<Rightarrow> 'a world_scheme \<Rightarrow> (int + lcapnet_request) \<times> 'a world_scheme" where
  "lcapnet_req_init L s =
     (case alloc L sizeof_request s of
        (ok, s) \<Rightarrow>
          (if ok then Inr \<lparr>lr_flags = 0, lr_remote = None, lr_forward = None, lr_body = [],
                           lr_body_len = 0\<rparr>
           else Inl (- ENOMEM), s))"

text \<open>
  The guard of the envelope is written \<^verbatim>\<open>!req->lr_flags & LCAP_RECV_NO_ENVELOPE\<close>, that is
  \<^verbatim>\<open>(!req->lr_flags) & 1\<close>.
\<close>

definition c_not :: "nat \<Rightarrow> nat" where
  "c_not n = (if n = 0 then 1 else 0)"

definition lcapnet_req_update ::
    "libs \<Rightarrow> lcapnet_request \<Rightarrow> bytes \<Rightarrow> 'a world_scheme \<Rightarrow>
      (int \<times> lcapnet_request) \<times> 'a world_scheme" where
  "lcapnet_req_update L req frm s =
     (if length frm = 0 then ((0, req), s)
      else if lr_remote req = None \<and> c_not (lr_flags req) AND LCAP_RECV_NO_ENVELOPE \<noteq> 0 then
        (case connection_id_new L frm (length frm) s of
           (r, s) \<Rightarrow> ((if r = None then - ENOMEM else 0, req\<lparr>lr_remote := r\<rparr>), s))
      else if lr_forward req = None then
        (case connection_id_new L frm (length frm) s of
           (r, s) \<Rightarrow> ((if r = None then - ENOMEM else 0, req\<lparr>lr_forward := r\<rparr>), s))
      else
        (case alloc L (lr_body_len req + length frm) s of
           (ok, s) \<Rightarrow>
             (if ok then (0, req\<lparr>lr_body := take (lr_body_len req) (lr_body req) @ frm,
                                 lr_body_len := lr_body_len req + length frm\<rparr>)
              else (- ENOMEM, req\<lparr>lr_body := []\<rparr>), s)))"

text \<open>
  The frame loop of \<^verbatim>\<open>lcap_rpc_recv_once\<close>. An error of \<^verbatim>\<open>zmq_msg_init\<close> leaves the loop in the
  same way as one of \<^verbatim>\<open>zmq_msg_recv\<close>: both are an \<open>In_err\<close> of the socket. The flags handed to
  \<^verbatim>\<open>zmq_msg_recv\<close> are the caller's \<^verbatim>\<open>flags\<close>, as in the source, not \<^verbatim>\<open>zmq_flags\<close>.
\<close>

lemma lcapnet_req_update_in:
  "lcapnet_req_update L req frm s = ((rc, req'), s') \<Longrightarrow> w_in s' = w_in s"
  by (auto simp: lcapnet_req_update_def connection_id_new_def alloc_def Let_def
      split: if_splits prod.splits)

lemma zmq_msg_recv_in:
  assumes "zmq_msg_recv L flags s = Ok r s'"
  shows "(\<exists>x. w_in s = x # w_in s') \<or> (r = Inl (nat EAGAIN) \<and> w_errno s' = nat EAGAIN)"
  using assms by (auto simp: zmq_msg_recv_def split: list.splits in_event.splits if_splits)

function recv_frames ::
    "libs \<Rightarrow> nat \<Rightarrow> lcapnet_request \<Rightarrow> 'a world_scheme \<Rightarrow>
      (int \<times> lcapnet_request, 'a world_scheme) res" where
  "recv_frames L flags req s =
     bindR (zmq_msg_recv L flags s) (\<lambda>r s.
       case r of
         Inl _ \<Rightarrow>
           (let rc = - int (w_errno s)
            in if rc \<noteq> 0 then Ok (rc, req) s else recv_frames L flags req s)
       | Inr (frm, mo) \<Rightarrow>
           (case lcapnet_req_update L req frm s of
              ((rc, req), s) \<Rightarrow>
                if \<not> mo \<or> rc \<noteq> 0 then Ok (rc, req) s else recv_frames L flags req s))"
  by pat_completeness auto
termination
  by (relation "measure (\<lambda>(L, flags, req, s). length (w_in s))")
    (auto dest!: zmq_msg_recv_in lcapnet_req_update_in [OF sym])

declare recv_frames.simps [simp del]

type_synonym 's rpc_hdl = "lcapnet_request \<Rightarrow> 's \<Rightarrow> (int, 's) res"

definition lcap_rpc_recv_once ::
    "libs \<Rightarrow> nat \<Rightarrow> ('a world_scheme) rpc_hdl \<Rightarrow> 'a world_scheme \<Rightarrow> (int, 'a world_scheme) res" where
  "lcap_rpc_recv_once L flags cb s =
     (case lcapnet_req_init L s of
        (Inl rc, s) \<Rightarrow> Ok rc s
      | (Inr req, s) \<Rightarrow>
          let req = (if flags AND LCAP_RECV_NO_ENVELOPE \<noteq> 0
                     then req\<lparr>lr_flags := lr_flags req OR LCAP_RECV_NO_ENVELOPE\<rparr> else req)
          in bindR (recv_frames L flags req s) (\<lambda>(rc, req) s.
               if rc \<ge> 0 \<and> lr_body_len req > 0 then cb req s else Ok rc s))"

text \<open>
  \<^verbatim>\<open>lcap_rpc_recv\<close> loops until a receive or a callback fails. Each successful turn takes at
  least one frame from the socket, so the number of frames waiting bounds the number of turns.
\<close>

fun recv_loop ::
    "nat \<Rightarrow> libs \<Rightarrow> nat \<Rightarrow> ('a world_scheme) rpc_hdl \<Rightarrow> int \<Rightarrow> 'a world_scheme \<Rightarrow>
      (int, 'a world_scheme) res" where
  "recv_loop 0 L flags cb n s = Bad No_return s"
| "recv_loop (Suc k) L flags cb n s =
     bindR (lcap_rpc_recv_once L flags cb s) (\<lambda>rc s.
       if rc < 0 then Ok n s else recv_loop k L flags cb (n + 1) s)"

definition lcap_rpc_recv ::
    "libs \<Rightarrow> nat \<Rightarrow> ('a world_scheme) rpc_hdl \<Rightarrow> 'a world_scheme \<Rightarrow> (int, 'a world_scheme) res" where
  "lcap_rpc_recv L flags cb s = recv_loop (Suc (length (w_in s))) L flags cb 0 s"

subsection \<open>What a message turns into\<close>

text \<open>A message as the socket delivers it: every frame but the last announces another one.\<close>

fun wire :: "bytes list \<Rightarrow> in_event list" where
  "wire [] = []"
| "wire [f] = [In_frame f False]"
| "wire (f # g # fs) = In_frame f True # wire (g # fs)"

text \<open>
  The reference: identities and body are taken from the frames that are not empty, in order.
\<close>

definition body_of :: "bytes list \<Rightarrow> bytes" where
  "body_of fs = concat fs"

definition request_of :: "bool \<Rightarrow> bytes list \<Rightarrow> lcapnet_request" where
  "request_of env fs =
     (let gs = filter (\<lambda>f. f \<noteq> []) fs; hs = (if env then tl gs else gs)
      in \<lparr>lr_flags = (if env then 0 else LCAP_RECV_NO_ENVELOPE),
          lr_remote = (if env \<and> gs \<noteq> [] then Some (cid (hd gs)) else None),
          lr_forward = (if hs \<noteq> [] then Some (cid (hd hs)) else None),
          lr_body = body_of (tl hs), lr_body_len = length (body_of (tl hs))\<rparr>)"

text \<open>The same, frame by frame, from any partly filled request.\<close>

definition add_frame :: "lcapnet_request \<Rightarrow> bytes \<Rightarrow> lcapnet_request" where
  "add_frame req f =
     (if f = [] then req
      else if lr_remote req = None \<and> lr_flags req = 0 then req\<lparr>lr_remote := Some (cid f)\<rparr>
      else if lr_forward req = None then req\<lparr>lr_forward := Some (cid f)\<rparr>
      else req\<lparr>lr_body := take (lr_body_len req) (lr_body req) @ f,
               lr_body_len := lr_body_len req + length f\<rparr>)"

lemma no_envelope_guard:
  "c_not n AND LCAP_RECV_NO_ENVELOPE \<noteq> 0 \<longleftrightarrow> n = 0"
  by (simp add: c_not_def)

lemma add_frame_body_len:
  "lr_body_len (add_frame req f) \<le> lr_body_len req + length f"
  by (simp add: add_frame_def)

lemma lcapnet_req_update_ok:
  assumes "allocs_ok L" "lr_body_len req + length f + 8 < 2 ^ 63"
  shows "\<exists>evs. list_all quiet_event evs \<and>
    lcapnet_req_update L req f s = ((0, add_frame req f), s\<lparr>w_log := evs @ w_log s\<rparr>)"
proof (cases "f = []")
  case True
  then show ?thesis
    by (intro exI [of _ "[]"]) (simp add: lcapnet_req_update_def add_frame_def)
next
  case False
  with assms have
    "\<exists>n. lcapnet_req_update L req f s =
       ((0, add_frame req f), s\<lparr>w_log := [Ev_alloc n True] @ w_log s\<rparr>)"
    unfolding lcapnet_req_update_def add_frame_def no_envelope_guard
    by (auto simp: connection_id_new_def alloc_def allocs_ok_def cid_def Let_def)
  then obtain n where "lcapnet_req_update L req f s =
       ((0, add_frame req f), s\<lparr>w_log := [Ev_alloc n True] @ w_log s\<rparr>)" by blast
  then show ?thesis by (intro exI [of _ "[Ev_alloc n True]"]) simp
qed

lemma recv_frames_wire:
  assumes "allocs_ok L" "fs \<noteq> []" "lr_body_len req + length (concat fs) + 8 < 2 ^ 63"
  shows "\<exists>evs. list_all quiet_event evs \<and> recv_frames L flags req (s\<lparr>w_in := wire fs @ rest\<rparr>) =
    Ok (0, foldl add_frame req fs) (s\<lparr>w_in := rest, w_log := evs @ w_log s\<rparr>)"
  using assms
proof (induction fs arbitrary: req s rule: wire.induct)
  case 1
  then show ?case by simp
next
  case (2 f)
  let ?s = "s\<lparr>w_in := rest, w_log := Ev_recv f False # w_log s\<rparr>"
  from 2 obtain evs where q: "list_all quiet_event evs" and
    "lcapnet_req_update L req f ?s = ((0, add_frame req f), ?s\<lparr>w_log := evs @ w_log ?s\<rparr>)"
    using lcapnet_req_update_ok [of L req f ?s] by auto
  then have "recv_frames L flags req (s\<lparr>w_in := wire [f] @ rest\<rparr>) =
      Ok (0, add_frame req f) (s\<lparr>w_in := rest, w_log := (evs @ [Ev_recv f False]) @ w_log s\<rparr>)"
    by (subst recv_frames.simps) (simp add: zmq_msg_recv_def)
  with q show ?case by (intro exI [of _ "evs @ [Ev_recv f False]"]) simp
next
  case (3 f g fs)
  let ?s = "s\<lparr>w_in := wire (g # fs) @ rest, w_log := Ev_recv f True # w_log s\<rparr>"
  from 3 obtain evs where q: "list_all quiet_event evs" and upd:
    "lcapnet_req_update L req f ?s = ((0, add_frame req f), ?s\<lparr>w_log := evs @ w_log ?s\<rparr>)"
    using lcapnet_req_update_ok [of L req f ?s] by auto
  let ?t = "s\<lparr>w_log := (evs @ [Ev_recv f True]) @ w_log s\<rparr>"
  have "lr_body_len (add_frame req f) + length (concat (g # fs)) + 8 < 2 ^ 63"
    using add_frame_body_len [of req f] "3.prems" by simp
  with 3 obtain evs' where q': "list_all quiet_event evs'" and "recv_frames L flags (add_frame req f)
      (?t\<lparr>w_in := wire (g # fs) @ rest\<rparr>) = Ok (0, foldl add_frame (add_frame req f) (g # fs))
        (?t\<lparr>w_in := rest, w_log := evs' @ w_log ?t\<rparr>)"
    by (metis list.distinct(1))
  then have "recv_frames L flags req (s\<lparr>w_in := wire (f # g # fs) @ rest\<rparr>) =
      Ok (0, foldl add_frame req (f # g # fs))
        (s\<lparr>w_in := rest, w_log := (evs' @ evs @ [Ev_recv f True]) @ w_log s\<rparr>)"
    using upd by (subst recv_frames.simps) (simp add: zmq_msg_recv_def)
  with q q' show ?case by (intro exI [of _ "evs' @ evs @ [Ev_recv f True]"]) simp
qed

definition empty_request :: "nat \<Rightarrow> lcapnet_request" where
  "empty_request fl =
     \<lparr>lr_flags = fl, lr_remote = None, lr_forward = None, lr_body = [], lr_body_len = 0\<rparr>"

lemma foldl_add_frame_nonempty:
  "foldl add_frame req fs = foldl add_frame req (filter (\<lambda>f. f \<noteq> []) fs)"
  by (induction fs arbitrary: req) (auto simp: add_frame_def)

lemma foldl_add_frame_body:
  assumes "lr_forward req \<noteq> None" "lr_flags req = 0 \<longrightarrow> lr_remote req \<noteq> None"
    "lr_body_len req = length (lr_body req)" "[] \<notin> set fs"
  shows "foldl add_frame req fs = req\<lparr>lr_body := lr_body req @ concat fs,
           lr_body_len := length (lr_body req @ concat fs)\<rparr>"
  using assms
proof (induction fs arbitrary: req)
  case (Cons f fs)
  have "add_frame req f = req\<lparr>lr_body := lr_body req @ f,
      lr_body_len := length (lr_body req @ f)\<rparr>"
    using Cons.prems by (auto simp: add_frame_def)
  with Cons show ?case by simp
qed simp

lemma foldl_add_frame_request_of:
  "foldl add_frame (empty_request (if env then 0 else LCAP_RECV_NO_ENVELOPE)) fs =
     request_of env fs"
proof -
  define gs where "gs = filter (\<lambda>f. f \<noteq> []) fs"
  have "[] \<notin> set gs" by (simp add: gs_def)
  then have "foldl add_frame (empty_request (if env then 0 else 1)) gs = request_of env fs"
    unfolding request_of_def gs_def [symmetric] Let_def
    by (cases gs; cases "tl gs"; cases env)
      (auto simp: empty_request_def add_frame_def foldl_add_frame_body body_of_def)
  then show ?thesis
    using foldl_add_frame_nonempty gs_def by metis
qed

lemma lcap_rpc_recv_once_wire:
  fixes s :: "'a world_scheme" and flags :: nat
  assumes "allocs_ok L" "fs \<noteq> []" "length (concat fs) + 8 < 2 ^ 63" "w_in s = wire fs @ rest"
  defines "req \<equiv> request_of (flags AND LCAP_RECV_NO_ENVELOPE = 0) fs"
  shows "\<exists>evs. list_all quiet_event evs \<and> lcap_rpc_recv_once L flags cb s =
    (if lr_body req = [] then Ok 0 (s\<lparr>w_in := rest, w_log := evs @ w_log s\<rparr>)
     else cb req (s\<lparr>w_in := rest, w_log := evs @ w_log s\<rparr>))"
proof -
  let ?fl = "if flags AND LCAP_RECV_NO_ENVELOPE = 0 then 0 else LCAP_RECV_NO_ENVELOPE"
  let ?s = "s\<lparr>w_log := Ev_alloc sizeof_request True # w_log s\<rparr>"
  have "?s\<lparr>w_in := wire fs @ rest\<rparr> = ?s" using assms(4) by (cases s) simp
  moreover have "lr_body_len (empty_request ?fl) = 0" by (simp add: empty_request_def)
  ultimately obtain evs where q: "list_all quiet_event evs" and "recv_frames L flags (empty_request ?fl) ?s =
      Ok (0, foldl add_frame (empty_request ?fl) fs) (?s\<lparr>w_in := rest, w_log := evs @ w_log ?s\<rparr>)"
    using recv_frames_wire [OF assms(1,2), of "empty_request ?fl" flags rest ?s] assms(3) by auto
  then have 1: "recv_frames L flags (empty_request ?fl) ?s =
      Ok (0, req) (s\<lparr>w_in := rest, w_log := (evs @ [Ev_alloc sizeof_request True]) @ w_log s\<rparr>)"
    using foldl_add_frame_request_of [of "flags AND LCAP_RECV_NO_ENVELOPE = 0" fs]
    by (simp add: req_def)
  have 2: "lr_body_len req > 0 \<longleftrightarrow> lr_body req \<noteq> []"
    by (simp add: req_def request_of_def Let_def)
  have "lcap_rpc_recv_once L flags cb s =
      bindR (recv_frames L flags (empty_request ?fl) ?s) (\<lambda>(rc, req) s.
               if rc \<ge> 0 \<and> lr_body_len req > 0 then cb req s else Ok rc s)"
    using assms(1) by (auto simp: lcap_rpc_recv_once_def lcapnet_req_init_def alloc_def
        allocs_ok_def empty_request_def Let_def)
  with q 1 2 show ?thesis by (intro exI [of _ "evs @ [Ev_alloc sizeof_request True]"]) simp
qed

subsection \<open>What a callback may rely on\<close>

definition req_ok :: "nat \<Rightarrow> lcapnet_request \<Rightarrow> bool" where
  "req_ok flags req \<longleftrightarrow>
     lr_body_len req = length (lr_body req) \<and> lr_body req \<noteq> [] \<and>
     (\<exists>c. lr_forward req = Some c \<and> wf_cid c) \<and>
     (if flags AND LCAP_RECV_NO_ENVELOPE = 0 then \<exists>c. lr_remote req = Some c \<and> wf_cid c
      else lr_remote req = None)"

lemma request_of_req_ok:
  assumes "lr_body (request_of env fs) \<noteq> []" "env \<longleftrightarrow> flags AND LCAP_RECV_NO_ENVELOPE = 0"
  shows "req_ok flags (request_of env fs)"
proof -
  define gs where "gs = filter (\<lambda>f. f \<noteq> []) fs"
  show ?thesis
    using assms unfolding request_of_def gs_def [symmetric] Let_def req_ok_def
    by (cases gs; cases "tl gs"; cases env) (auto simp: body_of_def)
qed

text \<open>The identity was allocated, so its size is a possible one.\<close>

definition small_ids :: "lcapnet_request \<Rightarrow> bool" where
  "small_ids req \<longleftrightarrow> (\<forall>c. lr_forward req = Some c \<longrightarrow> ci_length c + sizeof_conn_id < 2 ^ 63)"

definition req_wf :: "bool \<Rightarrow> lcapnet_request \<Rightarrow> bool" where
  "req_wf env req \<longleftrightarrow>
     lr_flags req = (if env then 0 else LCAP_RECV_NO_ENVELOPE) \<and>
     lr_body_len req = length (lr_body req) \<and>
     (\<forall>c. lr_forward req = Some c \<longrightarrow> wf_cid c \<and> (env \<longrightarrow> lr_remote req \<noteq> None)) \<and> small_ids req \<and>
     (\<forall>c. lr_remote req = Some c \<longrightarrow> wf_cid c \<and> env) \<and>
     (lr_body req \<noteq> [] \<longrightarrow> lr_forward req \<noteq> None)"

lemma lcapnet_req_update_wf:
  assumes "lcapnet_req_update L req f s = ((rc, req'), s')" "req_wf env req" "rc = 0"
  shows "req_wf env req'"
  using assms unfolding lcapnet_req_update_def no_envelope_guard
  by (auto simp: req_wf_def small_ids_def connection_id_new_def wf_cid_def alloc_def Let_def
      split: if_splits prod.splits)

lemma lcapnet_req_update_rc: "lcapnet_req_update L req f s = ((rc, req'), s') \<Longrightarrow> rc \<le> 0"
  by (auto simp: lcapnet_req_update_def split: if_splits prod.splits)

lemma lcapnet_req_update_more:
  "lcapnet_req_update L req f s = ((rc, req'), s') \<Longrightarrow> world.more s' = world.more s"
  by (auto simp: lcapnet_req_update_def connection_id_new_def alloc_def Let_def
      split: if_splits prod.splits)

lemma zmq_msg_recv_more:
  "zmq_msg_recv L flags s = Ok r s' \<Longrightarrow> world.more s' = world.more s"
  by (auto simp: zmq_msg_recv_def split: list.splits in_event.splits if_splits)

text \<open>Waiting for messages and receiving them: the calls of a thread between its requests.\<close>

definition waiting_event :: "event \<Rightarrow> bool" where
  "waiting_event e \<longleftrightarrow> (case e of Ev_alloc _ _ \<Rightarrow> True | Ev_recv _ _ \<Rightarrow> True | Ev_recv_err _ \<Rightarrow> True | Ev_poll _ _ \<Rightarrow> True
     | Ev_term_sig _ \<Rightarrow> True | _ \<Rightarrow> False)"

lemma waiting_event_simps [simp]:
  "waiting_event (Ev_alloc n b)" "waiting_event (Ev_recv f m)" "waiting_event (Ev_recv_err e)" "waiting_event (Ev_poll i j)"
  "waiting_event (Ev_term_sig g)"
  by (simp_all add: waiting_event_def)

lemma waiting_quiet: "waiting_event e \<Longrightarrow> quiet_event e"
  by (simp add: waiting_event_def quiet_event_def split: event.splits)

definition waits :: "'a world_scheme \<Rightarrow> 'a world_scheme \<Rightarrow> bool" where
  "waits s t \<longleftrightarrow> (\<exists>evs. w_log t = evs @ w_log s \<and> list_all waiting_event evs)"

lemma waits_refl [simp]: "waits s s"
  by (simp add: waits_def)

lemma waits_trans: "waits s t \<Longrightarrow> waits t u \<Longrightarrow> waits s u"
  by (auto simp: waits_def)

lemma waits_event: "w_log t = e # w_log s \<Longrightarrow> waiting_event e \<Longrightarrow> waits s t"
  unfolding waits_def by (rule exI [of _ "[e]"]) simp

lemma alloc_waits: "alloc L n s = (ok, t) \<Longrightarrow> waits s t"
  by (rule waits_event [of _ "Ev_alloc n ok"]) (auto simp: alloc_def Let_def)

lemma zmq_msg_recv_waits: "zmq_msg_recv L flags s = Ok r s' \<Longrightarrow> waits s s'"
  by (auto simp: zmq_msg_recv_def intro!: waits_event split: list.splits in_event.splits if_splits)

lemma lcapnet_req_update_waits: "lcapnet_req_update L req f s = ((rc, req'), s') \<Longrightarrow> waits s s'"
  by (auto simp: lcapnet_req_update_def connection_id_new_def dest!: alloc_waits split: if_splits prod.splits)

lemma recv_frames_Ok:
  "recv_frames L flags req s = Ok (rc, req') s' \<Longrightarrow>
     world.more s' = world.more s \<and> waits s s' \<and> rc \<le> 0 \<and>
     (rc = 0 \<longrightarrow> length (w_in s') < length (w_in s)) \<and>
     (rc = 0 \<longrightarrow> req_wf env req \<longrightarrow> req_wf env req')"
proof (induction L flags req s arbitrary: rc req' s' rule: recv_frames.induct)
  case (1 L flags req s)
  from "1.prems" obtain r t where rcv: "zmq_msg_recv L flags s = Ok r t"
    and rest: "(case r of
         Inl _ \<Rightarrow>
           (let rc = - int (w_errno t)
            in if rc \<noteq> 0 then Ok (rc, req) t else recv_frames L flags req t)
       | Inr (frm, mo) \<Rightarrow>
           (case lcapnet_req_update L req frm t of
              ((rc, req), s) \<Rightarrow>
                if \<not> mo \<or> rc \<noteq> 0 then Ok (rc, req) s else recv_frames L flags req s)) =
        Ok (rc, req') s'"
    by (subst (asm) recv_frames.simps) (erule bindR_OkE)
  note more = zmq_msg_recv_more [OF rcv] zmq_msg_recv_waits [OF rcv] and inp = zmq_msg_recv_in [OF rcv]
  show ?case
  proof (cases r)
    case (Inl e)
    show ?thesis
    proof (cases "w_errno t = 0")
      case True
      with rest Inl have "recv_frames L flags req t = Ok (rc, req') s'" by simp
      with "1.IH"(1) [OF rcv Inl refl] True more inp waits_trans [of s t s'] show ?thesis by auto
    next
      case False
      with rest Inl more show ?thesis by auto
    qed
  next
    case (Inr p)
    obtain frm mo where p: "p = (frm, mo)" by (cases p)
    obtain rc1 req1 u where upd: "lcapnet_req_update L req frm t = ((rc1, req1), u)"
      by (metis prod.exhaust)
    note facts = lcapnet_req_update_more [OF upd] lcapnet_req_update_rc [OF upd]
      lcapnet_req_update_in [OF upd] lcapnet_req_update_wf [OF upd, of env]
      waits_trans [OF more(2) lcapnet_req_update_waits [OF upd]]
    have len: "length (w_in t) < length (w_in s)"
      using rcv Inr p by (auto simp: zmq_msg_recv_def split: list.splits in_event.splits if_splits)
    show ?thesis
    proof (cases "\<not> mo \<or> rc1 \<noteq> 0")
      case True
      with rest Inr p upd facts more len show ?thesis by auto
    next
      case False
      with rest Inr p upd have "recv_frames L flags req1 u = Ok (rc, req') s'" by simp
      with "1.IH"(2) [OF rcv Inr p [symmetric] upd [symmetric] refl] False facts more len
        waits_trans [of s u s'] show ?thesis by auto
    qed
  qed
qed

text \<open>The frames of what a socket delivers, and the bodies that can be made of consecutive ones.\<close>

fun frames :: "in_event list \<Rightarrow> bytes list" where
  "frames [] = []"
| "frames (In_frame f mo # es) = f # frames es"
| "frames (In_err e # es) = frames es"

definition body_in :: "in_event list \<Rightarrow> bytes \<Rightarrow> bool" where
  "body_in es b \<longleftrightarrow> (\<exists>pre mid post. es = pre @ mid @ post \<and> b = concat (frames mid))"

lemma body_in_suffix: "body_in es b \<Longrightarrow> suffix es es' \<Longrightarrow> body_in es' b"
  unfolding body_in_def suffix_def by (metis append.assoc)

lemma zmq_msg_recv_suffix: "zmq_msg_recv L flags s = Ok r s' \<Longrightarrow> suffix (w_in s') (w_in s)"
  by (auto simp: zmq_msg_recv_def suffix_def split: list.splits in_event.splits if_splits)

lemma zmq_msg_recv_frame: "zmq_msg_recv L flags s = Ok (Inr (f, mo)) s' \<Longrightarrow> w_in s = In_frame f mo # w_in s'"
  by (auto simp: zmq_msg_recv_def split: list.splits in_event.splits if_splits)

lemma zmq_msg_recv_error:
  assumes "zmq_msg_recv L flags s = Ok (Inl e) s'" "w_errno s' = 0"
  shows "w_in s = In_err 0 # w_in s'"
  using assms by (auto simp: zmq_msg_recv_def split: list.splits in_event.splits if_splits)

text \<open>A frame either goes to the body, at its end, or is an identity or empty, and then the body is as before.\<close>

lemma lcapnet_req_update_body:
  assumes "lcapnet_req_update L req f s = ((0, req'), s')" "req_wf env req"
  shows "lr_body req' = lr_body req @ f \<or> (lr_body req' = lr_body req \<and> lr_body req = [])"
  using assms unfolding lcapnet_req_update_def no_envelope_guard
  by (auto simp: req_wf_def connection_id_new_def alloc_def Let_def split: if_splits prod.splits)

lemma recv_frames_body:
  "recv_frames L flags req s = Ok (rc, req') s' \<Longrightarrow> req_wf env req \<Longrightarrow>
     suffix (w_in s') (w_in s) \<and>
     (rc = 0 \<longrightarrow> (\<exists>pre mid. w_in s = pre @ mid @ w_in s' \<and> lr_body req' = lr_body req @ concat (frames mid) \<and>
        (lr_body req \<noteq> [] \<longrightarrow> pre = [])))"
proof (induction L flags req s arbitrary: rc req' s' rule: recv_frames.induct)
  case (1 L flags req s)
  let ?C = "\<lambda>s req. \<exists>pre mid. w_in s = pre @ mid @ w_in s' \<and> lr_body req' = lr_body req @ concat (frames mid) \<and>
        (lr_body req \<noteq> [] \<longrightarrow> pre = [])"
  from "1.prems"(1) obtain r t where rcv: "zmq_msg_recv L flags s = Ok r t"
    and rest: "(case r of
         Inl _ \<Rightarrow>
           (let rc = - int (w_errno t)
            in if rc \<noteq> 0 then Ok (rc, req) t else recv_frames L flags req t)
       | Inr (frm, mo) \<Rightarrow>
           (case lcapnet_req_update L req frm t of
              ((rc, req), s) \<Rightarrow>
                if \<not> mo \<or> rc \<noteq> 0 then Ok (rc, req) s else recv_frames L flags req s)) =
        Ok (rc, req') s'"
    by (subst (asm) recv_frames.simps) (erule bindR_OkE)
  note suf = zmq_msg_recv_suffix [OF rcv]
  show ?case
  proof (cases r)
    case (Inl e)
    show ?thesis
    proof (cases "w_errno t = 0")
      case True
      with rest Inl have "recv_frames L flags req t = Ok (rc, req') s'" by simp
      from "1.IH"(1) [OF rcv Inl refl _ this "1.prems"(2)] True
      have t: "suffix (w_in s') (w_in t)" "rc = 0 \<longrightarrow> ?C t req" by auto
      have "?C s req" if C: "?C t req"
      proof -
        obtain pre mid where c: "w_in t = pre @ mid @ w_in s'" "lr_body req' = lr_body req @ concat (frames mid)"
            "lr_body req \<noteq> [] \<longrightarrow> pre = []" using C by blast
        have s: "w_in s = In_err 0 # pre @ mid @ w_in s'" 
          unfolding c(1) [symmetric] by (rule zmq_msg_recv_error [OF rcv [unfolded Inl] True])
        show ?thesis
        proof (cases "lr_body req = []")
          case True
          with s c show ?thesis by (intro exI [of _ "In_err 0 # pre"] exI [of _ mid]) simp
        next
          case False
          with s c show ?thesis by (intro exI [of _ "[]"] exI [of _ "In_err 0 # mid"]) simp
        qed
      qed
      with t suffix_order.trans [OF t(1) suf] show ?thesis by blast
    next
      case False
      with rest Inl suf show ?thesis by auto
    qed
  next
    case (Inr p)
    obtain frm mo where p: "p = (frm, mo)" by (cases p)
    obtain rc1 req1 u where upd: "lcapnet_req_update L req frm t = ((rc1, req1), u)"
      by (metis prod.exhaust)
    note inp = lcapnet_req_update_in [OF upd]
    have s: "w_in s = In_frame frm mo # w_in u" using zmq_msg_recv_frame rcv Inr p inp by simp
    have one: "?C s req" if C: "?C u req1" "rc1 = 0"
    proof -
      obtain pre mid where c: "w_in u = pre @ mid @ w_in s'" "lr_body req' = lr_body req1 @ concat (frames mid)"
          "lr_body req1 \<noteq> [] \<longrightarrow> pre = []" using C(1) by blast
      from lcapnet_req_update_body [OF upd [unfolded C(2)] "1.prems"(2)] show ?thesis
      proof
        assume b: "lr_body req1 = lr_body req @ frm"
        show ?thesis
        proof (cases "lr_body req1 = []")
          case True
          with b s c show ?thesis by (intro exI [of _ "In_frame frm mo # pre"] exI [of _ mid]) simp
        next
          case False
          with b s c show ?thesis by (intro exI [of _ "[]"] exI [of _ "In_frame frm mo # mid"]) simp
        qed
      next
        assume "lr_body req1 = lr_body req \<and> lr_body req = []"
        with s c show ?thesis by (intro exI [of _ "In_frame frm mo # pre"] exI [of _ mid]) simp
      qed
    qed
    show ?thesis
    proof (cases "\<not> mo \<or> rc1 \<noteq> 0")
      case True
      with rest Inr p upd have eq: "rc = rc1" "req' = req1" "s' = u" by auto
      have "?C u req1" unfolding eq by (intro exI [of _ "[]"]) simp
      with one eq s show ?thesis by (auto simp: suffix_def)
    next
      case False
      with rest Inr p upd have "recv_frames L flags req1 u = Ok (rc, req') s'" by simp
      from "1.IH"(2) [OF rcv Inr p [symmetric] upd [symmetric] refl _ this] False
        lcapnet_req_update_wf [OF upd "1.prems"(2)]
      have "suffix (w_in s') (w_in u)" "rc = 0 \<longrightarrow> ?C u req1" by auto
      with one s False show ?thesis by (auto intro: suffix_ConsI)
    qed
  qed
qed

text \<open>What a request may be made of: its body of consecutive frames, the receiver it names of another one.\<close>

definition made_of :: "in_event list \<Rightarrow> lcapnet_request \<Rightarrow> bool" where
  "made_of es req \<longleftrightarrow> body_in es (lr_body req) \<and> (\<forall>c. lr_forward req = Some c \<longrightarrow> ci_data c \<in> set (frames es))"

lemma frames_append [simp]: "frames (xs @ ys) = frames xs @ frames ys"
  by (induction xs rule: frames.induct) simp_all

lemma made_of_suffix: "made_of es req \<Longrightarrow> suffix es es' \<Longrightarrow> made_of es' req"
  using body_in_suffix by (auto simp: made_of_def suffix_def)

lemma lcapnet_req_update_forward:
  assumes "lcapnet_req_update L req f s = ((rc, req'), s')" "lr_forward req' = Some c"
  shows "lr_forward req = Some c \<or> ci_data c = f"
  using assms unfolding lcapnet_req_update_def
  by (auto simp: connection_id_new_def alloc_def Let_def split: if_splits prod.splits)

lemma recv_frames_forward:
  "recv_frames L flags req s = Ok (rc, req') s' \<Longrightarrow> lr_forward req' = Some c \<Longrightarrow>
     lr_forward req = Some c \<or> ci_data c \<in> set (frames (w_in s))"
proof (induction L flags req s arbitrary: rc req' s' rule: recv_frames.induct)
  case (1 L flags req s)
  from "1.prems"(1) obtain r t where rcv: "zmq_msg_recv L flags s = Ok r t"
    and rest: "(case r of
         Inl _ \<Rightarrow>
           (let rc = - int (w_errno t)
            in if rc \<noteq> 0 then Ok (rc, req) t else recv_frames L flags req t)
       | Inr (frm, mo) \<Rightarrow>
           (case lcapnet_req_update L req frm t of
              ((rc, req), s) \<Rightarrow>
                if \<not> mo \<or> rc \<noteq> 0 then Ok (rc, req) s else recv_frames L flags req s)) =
        Ok (rc, req') s'"
    by (subst (asm) recv_frames.simps) (erule bindR_OkE)
  have t: "set (frames (w_in t)) \<subseteq> set (frames (w_in s))"
    using zmq_msg_recv_suffix [OF rcv] by (auto simp: suffix_def)
  show ?case
  proof (cases r)
    case (Inl e)
    show ?thesis
    proof (cases "w_errno t = 0")
      case True
      with rest Inl have "recv_frames L flags req t = Ok (rc, req') s'" by simp
      from "1.IH"(1) [OF rcv Inl refl _ this "1.prems"(2)] True t show ?thesis by auto
    next
      case False
      with rest Inl "1.prems"(2) show ?thesis by auto
    qed
  next
    case (Inr p)
    obtain frm mo where p: "p = (frm, mo)" by (cases p)
    obtain rc1 req1 u where upd: "lcapnet_req_update L req frm t = ((rc1, req1), u)"
      by (metis prod.exhaust)
    have s: "w_in s = In_frame frm mo # w_in u" using zmq_msg_recv_frame rcv Inr p lcapnet_req_update_in [OF upd] by simp
    have one: "lr_forward req1 = Some c \<Longrightarrow> lr_forward req = Some c \<or> ci_data c = frm"
      by (rule lcapnet_req_update_forward [OF upd])
    show ?thesis
    proof (cases "\<not> mo \<or> rc1 \<noteq> 0")
      case True
      with rest Inr p upd "1.prems"(2) have "lr_forward req1 = Some c" by auto
      with one s show ?thesis by auto
    next
      case False
      with rest Inr p upd have "recv_frames L flags req1 u = Ok (rc, req') s'" by simp
      from "1.IH"(2) [OF rcv Inr p [symmetric] upd [symmetric] refl _ this "1.prems"(2)] False one s
      show ?thesis by auto
    qed
  qed
qed

lemma recv_frames_Bad:
  "recv_frames L flags req s = Bad e s' \<Longrightarrow> e = No_return \<and> flags AND ZMQ_DONTWAIT L = 0"
proof (induction L flags req s rule: recv_frames.induct)
  case (1 L flags req s)
  show ?case
  proof (cases "zmq_msg_recv L flags s")
    case (Ok r t)
    note eq = "1.prems" [unfolded recv_frames.simps [of L flags req s] Ok bindR.simps]
    show ?thesis
    proof (cases r)
      case (Inl x)
      with eq have "w_errno t = 0" "recv_frames L flags req t = Bad e s'"
        by (auto simp: Let_def split: if_splits)
      with "1.IH"(1) [OF Ok Inl refl] show ?thesis by simp
    next
      case (Inr p)
      obtain frm mo where p: "p = (frm, mo)" by (cases p)
      obtain rc1 req1 u where upd: "lcapnet_req_update L req frm t = ((rc1, req1), u)"
        by (metis prod.exhaust)
      with eq Inr p have "mo" "rc1 = 0" "recv_frames L flags req1 u = Bad e s'"
        by (auto split: if_splits)
      with "1.IH"(2) [OF Ok Inr p [symmetric] upd [symmetric] refl] show ?thesis by simp
    qed
  next
    case (Bad e' t)
    then have "e' = No_return" "flags AND ZMQ_DONTWAIT L = 0"
      by (auto simp: zmq_msg_recv_def split: list.splits in_event.splits if_splits)
    with "1.prems" Bad show ?thesis by (subst (asm) recv_frames.simps) auto
  qed
qed

lemma req_wf_req_ok:
  assumes "req_wf (flags AND LCAP_RECV_NO_ENVELOPE = 0) req" "lr_body_len req > 0"
  shows "req_ok flags req"
  using assms by (auto simp: req_wf_def req_ok_def)

lemma req_wf_small: "req_wf env req \<Longrightarrow> small_ids req"
  by (simp add: req_wf_def)

lemma alloc_more: "alloc L n s = (ok, s') \<Longrightarrow> world.more s' = world.more s \<and> w_in s' = w_in s"
  by (auto simp: alloc_def Let_def)

text \<open>One turn: it fails, or skips a message with no body, or runs the callback on a good one.\<close>

lemma lcap_rpc_recv_once_cases:
  obtains (fail) rc t where "lcap_rpc_recv_once L flags cb s = Ok rc t" "rc < 0"
      "world.more t = world.more s" "waits s t" "suffix (w_in t) (w_in s)"
  | (skip) t where "lcap_rpc_recv_once L flags cb s = Ok 0 t"
      "world.more t = world.more s" "length (w_in t) < length (w_in s)" "waits s t" "suffix (w_in t) (w_in s)"
  | (call) req t where "lcap_rpc_recv_once L flags cb s = cb req t" "req_ok flags req"
      "world.more t = world.more s" "length (w_in t) < length (w_in s)" "waits s t" "small_ids req"
      "suffix (w_in t) (w_in s)" "made_of (w_in s) req"
  | (blocked) t where "lcap_rpc_recv_once L flags cb s = Bad No_return t"
      "flags AND ZMQ_DONTWAIT L = 0"
proof -
  let ?req = "empty_request (if flags AND LCAP_RECV_NO_ENVELOPE = 0 then 0 else LCAP_RECV_NO_ENVELOPE)"
  let ?env = "flags AND LCAP_RECV_NO_ENVELOPE = 0"
  obtain ok t where al: "alloc L sizeof_request s = (ok, t)" by fastforce
  note m = alloc_more [OF al]
  have wf: "req_wf ?env ?req" by (simp add: req_wf_def empty_request_def small_ids_def)
  note q = alloc_waits [OF al]
  show ?thesis
  proof (cases ok)
    case False
    with al have "lcap_rpc_recv_once L flags cb s = Ok (- ENOMEM) t"
      by (simp add: lcap_rpc_recv_once_def lcapnet_req_init_def)
    with m q fail show ?thesis by force
  next
    case True
    with al have once: "lcap_rpc_recv_once L flags cb s =
      bindR (recv_frames L flags ?req t) (\<lambda>(rc, req) s.
               if rc \<ge> 0 \<and> lr_body_len req > 0 then cb req s else Ok rc s)"
      by (auto simp: lcap_rpc_recv_once_def lcapnet_req_init_def empty_request_def Let_def)
    show ?thesis
    proof (cases "recv_frames L flags ?req t")
      case (Ok x u)
      obtain rc req where x: "x = (rc, req)" by (cases x)
      note f = recv_frames_Ok [OF Ok [unfolded x], of ?env] and b = recv_frames_body [OF Ok [unfolded x] wf]
      then have qu: "waits s u" using waits_trans [OF q] by blast
      have suf: "suffix (w_in u) (w_in s)" using b m by simp
      consider "rc < 0" | "rc = 0" "lr_body_len req = 0" | "rc = 0" "lr_body_len req > 0"
        using f by linarith
      then show ?thesis
      proof cases
        case 1
        with once Ok x f m qu suf fail show ?thesis by simp
      next
        case 2
        with once Ok x f m qu suf skip show ?thesis by simp
      next
        case 3
        with f wf req_wf_req_ok req_wf_small have "req_ok flags req" "small_ids req" by blast+
        moreover have "body_in (w_in s) (lr_body req)"
          using b 3(1) m unfolding body_in_def by (auto simp: empty_request_def)
        then have "made_of (w_in s) req"
          using recv_frames_forward [OF Ok [unfolded x]] m by (auto simp: made_of_def empty_request_def)
        ultimately show ?thesis using 3 once Ok x f m qu suf call by simp
      qed
    next
      case (Bad e u)
      with once recv_frames_Bad [OF Bad] blocked show ?thesis by auto
    qed
  qed
qed

text \<open>A callback is only ever run on a request whose forwarding identity is set and whose
  body is not empty and as long as its length field says, with a sender identity exactly when
  the caller asked for the envelope: a receive behaves the same with any callback that agrees
  with the given one on such requests. So the handlers may dereference \<^verbatim>\<open>lr_forward\<close> (and the
  broker \<^verbatim>\<open>lr_remote\<close>) without a test.\<close>

theorem recv_once_callback_contract:
  assumes "\<And>req t. req_ok flags req \<Longrightarrow> cb req t = cb' req t"
  shows "lcap_rpc_recv_once L flags cb s = lcap_rpc_recv_once L flags cb' s"
proof -
  let ?req = "empty_request (if flags AND LCAP_RECV_NO_ENVELOPE = 0 then 0 else LCAP_RECV_NO_ENVELOPE)"
  let ?k = "\<lambda>cb (rc, req) s. if 0 \<le> rc \<and> 0 < lr_body_len req then cb req s else Ok rc s"
  obtain ok t where al: "alloc L sizeof_request s = (ok, t)" by fastforce
  have once: "lcap_rpc_recv_once L flags c s =
      (if ok then bindR (recv_frames L flags ?req t) (?k c) else Ok (- ENOMEM) t)" for c
    using al by (auto simp: lcap_rpc_recv_once_def lcapnet_req_init_def empty_request_def Let_def)
  have wf: "req_wf (flags AND LCAP_RECV_NO_ENVELOPE = 0) ?req"
    by (simp add: req_wf_def empty_request_def small_ids_def)
  have "bindR (recv_frames L flags ?req t) (?k cb) = bindR (recv_frames L flags ?req t) (?k cb')"
  proof (rule bindR_cong [OF refl])
    fix x u assume "recv_frames L flags ?req t = Ok x u"
    moreover obtain rc req where x: "x = (rc, req)" by (cases x)
    ultimately have "rc \<le> 0" "rc = 0 \<Longrightarrow> req_wf (flags AND LCAP_RECV_NO_ENVELOPE = 0) req"
      using recv_frames_Ok [of L flags ?req t rc req u] wf by auto
    then show "?k cb x u = ?k cb' x u"
      using assms req_wf_req_ok x by auto
  qed
  with once show ?thesis by simp
qed

theorem recv_once_callback_contract_witness:
  "lcap_rpc_recv_once demo_libs 0
     (\<lambda>req s. Ok (case lr_forward req of None \<Rightarrow> - 1 | Some c \<Rightarrow> int (ci_length c)) s)
     \<lparr>w_log = [], w_errno = 0, w_in = wire [[1], [2], [3]]\<rparr> =
   lcap_rpc_recv_once demo_libs 0 (\<lambda>req s. Ok (int (ci_length (the (lr_forward req)))) s)
     \<lparr>w_log = [], w_errno = 0, w_in = wire [[1], [2], [3]]\<rparr>"
  by (rule recv_once_callback_contract) (auto simp: req_ok_def)

text \<open>(C19) A message whose frames are all there is reassembled: the sender identity, the
  forwarding identity and the body are the first, the second and the concatenation of the other
  frames that are not empty (without envelope, the sender is left out), exactly these frames are
  taken from the socket, and the callback runs once on that request; a message with no body is
  dropped and counts as a success.\<close>

theorem recv_once_delivers_message:
  assumes "allocs_ok L" "fs \<noteq> []" "length (concat fs) + 8 < 2 ^ 63" "w_in s = wire fs @ rest"
  shows "\<exists>evs. lcap_rpc_recv_once L flags cb s =
    (if lr_body (request_of (flags AND LCAP_RECV_NO_ENVELOPE = 0) fs) = []
     then Ok 0 (s\<lparr>w_in := rest, w_log := evs @ w_log s\<rparr>)
     else cb (request_of (flags AND LCAP_RECV_NO_ENVELOPE = 0) fs)
            (s\<lparr>w_in := rest, w_log := evs @ w_log s\<rparr>))"
  using lcap_rpc_recv_once_wire [OF assms, of flags cb] by blast

theorem recv_once_delivers_message_witness:
  "\<exists>evs. lcap_rpc_recv_once demo_libs 0 (\<lambda>req s. Ok (int (lr_body_len req)) s)
     \<lparr>w_log = [], w_errno = 0, w_in = wire [[7], [], [8], [], [1, 2]]\<rparr> =
     Ok 2 \<lparr>w_log = evs, w_errno = 0, w_in = []\<rparr>"
  using recv_once_delivers_message [of demo_libs "[[7], [], [8], [], [1, 2]]"
      "\<lparr>w_log = [], w_errno = 0, w_in = wire [[7], [], [8], [], [1, 2]]\<rparr>" "[]" 0
      "\<lambda>req s. Ok (int (lr_body_len req)) s"]
  by (simp add: request_of_def body_of_def)

subsection \<open>The receive loop\<close>

text \<open>
  The contract between the receive loop and the component that serves the requests: the
  handler keeps the component's invariant and leaves the socket's input alone, and the faults
  it may end in satisfy \<open>bad\<close>. The request is made of frames that were waiting in a state \<open>r\<close> before.
\<close>

locale rpc_server =
  fixes L :: libs and flags :: nat
    and hdl :: "('a world_scheme) rpc_hdl"
    and inv :: "'a world_scheme \<Rightarrow> bool"
    and bad :: "fault \<Rightarrow> 'a world_scheme \<Rightarrow> bool"
  assumes hdl_ok: "req_ok flags req \<Longrightarrow> small_ids req \<Longrightarrow> inv s \<Longrightarrow> hdl req s = Ok rc s' \<Longrightarrow>
      inv s' \<and> w_in s' = w_in s"
    and hdl_bad: "req_ok flags req \<Longrightarrow> inv r \<Longrightarrow> made_of (w_in r) req \<Longrightarrow> inv s \<Longrightarrow> hdl req s = Bad e s' \<Longrightarrow>
      bad e s'"
    and inv_more: "inv s \<Longrightarrow> world.more t = world.more s \<Longrightarrow> waits s t \<Longrightarrow> suffix (w_in t) (w_in s) \<Longrightarrow> inv t"
begin

definition served :: "int \<Rightarrow> (int, 'a world_scheme) res \<Rightarrow> bool" where
  "served n r \<longleftrightarrow> (case r of Ok m t \<Rightarrow> inv t \<and> n \<le> m
     | Bad e t \<Rightarrow> bad e t \<or> (e = No_return \<and> flags AND ZMQ_DONTWAIT L = 0))"

lemma served_mono: "served (n + 1) r \<Longrightarrow> served n r"
  by (auto simp: served_def split: res.splits)

lemma recv_loop_served:
  "inv s \<Longrightarrow> length (w_in s) < k \<Longrightarrow> served n (recv_loop k L flags hdl n s)"
proof (induction k arbitrary: n s)
  case (Suc k)
  let ?r = "\<lambda>(rc :: int) s. if rc < 0 then Ok n s else recv_loop k L flags hdl (n + 1) s"
  have next_ok: "served n (?r rc t)" if "inv t" "length (w_in t) < length (w_in s)" for rc t
    using Suc.IH [of t "n + 1"] that Suc.prems served_mono by (auto simp: served_def)
  show ?case
  proof (cases rule: lcap_rpc_recv_once_cases [of L flags hdl s])
    case (fail rc t)
    with Suc.prems inv_more [of s t] show ?thesis by (simp add: served_def)
  next
    case (skip t)
    with Suc.prems inv_more [of s t] next_ok [of t 0] show ?thesis by simp
  next
    case (call req t)
    with Suc.prems inv_more [of s t] have t: "inv t" by simp
    show ?thesis
    proof (cases "hdl req t")
      case (Ok rc u)
      with hdl_ok [OF call(2,6) t] call have "inv u" "length (w_in u) < length (w_in s)" by auto
      then have "served n (?r rc u)" by (rule next_ok)
      with call Ok show ?thesis by simp
    next
      case (Bad e u)
      with hdl_bad [OF call(2) Suc.prems(1) call(8) t] call show ?thesis by (simp add: served_def)
    qed
  next
    case (blocked t)
    then show ?thesis by (simp add: served_def)
  qed
qed simp

text \<open>One turn of the loop.\<close>

lemma once_served:
  "inv s \<Longrightarrow> case lcap_rpc_recv_once L flags hdl s of Ok rc t \<Rightarrow> inv t
     | Bad e t \<Rightarrow> bad e t \<or> (e = No_return \<and> flags AND ZMQ_DONTWAIT L = 0)"
  by (cases rule: lcap_rpc_recv_once_cases [of L flags hdl s])
    (auto dest: inv_more hdl_ok hdl_bad split: res.splits)

lemma lcap_rpc_recv_served: "inv s \<Longrightarrow> served 0 (lcap_rpc_recv L flags hdl s)"
  unfolding lcap_rpc_recv_def by (rule recv_loop_served) simp_all

lemma lcap_rpc_recv_inv:
  "inv s \<Longrightarrow> lcap_rpc_recv L flags hdl s = Ok n t \<Longrightarrow> inv t \<and> 0 \<le> n"
  using lcap_rpc_recv_served by (fastforce simp: served_def)

lemma lcap_rpc_recv_fault:
  "inv s \<Longrightarrow> flags AND ZMQ_DONTWAIT L \<noteq> 0 \<Longrightarrow> lcap_rpc_recv L flags hdl s = Bad e t \<Longrightarrow> bad e t"
  using lcap_rpc_recv_served by (fastforce simp: served_def)

end

text \<open>(C22) With ZMQ_DONTWAIT among the flags and a handler that always returns and leaves the
  socket's input alone, \<^verbatim>\<open>lcap_rpc_recv\<close> returns, after at most one turn per waiting frame,
  and its result is never negative: the tests \<^verbatim>\<open>rc < 0\<close> of its two callers never hold.\<close>

theorem lcap_rpc_recv_returns:
  fixes cb :: "('a world_scheme) rpc_hdl"
  assumes "flags AND ZMQ_DONTWAIT L \<noteq> 0"
    and "\<And>req s. req_ok flags req \<Longrightarrow> \<exists>rc s'. cb req s = Ok rc s' \<and> w_in s' = w_in s"
  shows "\<exists>n s'. lcap_rpc_recv L flags cb s = Ok n s' \<and> 0 \<le> n"
proof -
  have *: "rpc_server flags cb (\<lambda>_. True) (\<lambda>_ _. False)"
  proof unfold_locales
    fix req s rc s' assume "req_ok flags req" "cb req s = Ok rc s'"
    with assms(2) [of req s] show "True \<and> w_in s' = w_in s" by auto
  next
    fix req r s e s' assume "req_ok flags req" "cb req s = Bad e s'"
    with assms(2) [of req s] show False by auto
  qed simp
  show ?thesis
    using rpc_server.lcap_rpc_recv_served [OF *, of L s] assms(1)
    by (cases "lcap_rpc_recv L flags cb s") (auto simp: rpc_server.served_def [OF *])
qed

theorem lcap_rpc_recv_returns_witness:
  "\<exists>n s'. lcap_rpc_recv demo_libs 3 (\<lambda>req s. Ok 0 s)
     \<lparr>w_log = [], w_errno = 0, w_in = wire [[1], [2], [3]]\<rparr> = Ok n s' \<and> 0 \<le> n"
  by (rule lcap_rpc_recv_returns) simp_all

text \<open>
  LCAP_RECV_NONBLOCK alone is 2, which reaches \<^verbatim>\<open>zmq_msg_recv\<close> unchanged, where ZMQ_DONTWAIT is 1. So once
  the waiting messages are served by a callback that returns no error, the loop blocks.
\<close>

lemma lcap_rpc_recv_blocks:
  fixes cb :: "('a world_scheme) rpc_hdl"
  assumes dw: "ZMQ_DONTWAIT L = 1" and al: "allocs_ok L"
    and cb: "\<And>m s. m \<in> set msgs \<Longrightarrow> lr_body (request_of True m) \<noteq> [] \<Longrightarrow> P s \<Longrightarrow>
      \<exists>rc t. cb (request_of True m) s = Ok rc t \<and> 0 \<le> rc \<and> w_in t = w_in s \<and> P t"
    and P: "\<And>s t. P s \<Longrightarrow> world.more t = world.more s \<Longrightarrow> P t"
    and msgs: "\<forall>m \<in> set msgs. m \<noteq> [] \<and> length (concat m) + 8 < 2 ^ 63"
    and s: "w_in s = concat (map wire msgs)" "P s"
  shows "\<exists>t. lcap_rpc_recv L LCAP_RECV_NONBLOCK cb s = Bad No_return t \<and> P t \<and> w_in t = []"
proof -
  have loop: "\<exists>t. recv_loop k L LCAP_RECV_NONBLOCK cb n s = Bad No_return t \<and> P t \<and> w_in t = []"
    if "set ms \<subseteq> set msgs" "w_in s = concat (map wire ms)" "P s" "length (w_in s) < k" for k n s ms
    using that
  proof (induction k arbitrary: n s ms)
    case (Suc k)
    show ?case
    proof (cases ms)
      case Nil
      let ?s = "s\<lparr>w_log := Ev_alloc sizeof_request True # w_log s\<rparr>"
      have "(2 :: nat) AND 1 = 0" by simp
      with Nil Suc.prems dw al have
        "lcap_rpc_recv_once L LCAP_RECV_NONBLOCK cb s = Bad No_return ?s"
        by (simp add: lcap_rpc_recv_once_def lcapnet_req_init_def alloc_def allocs_ok_def
            recv_frames.simps zmq_msg_recv_def)
      moreover have "P ?s" by (rule P [OF Suc.prems(3)]) simp
      ultimately show ?thesis using Nil Suc.prems by simp
    next
      case (Cons m rest)
      with Suc.prems msgs have m: "m \<in> set msgs" "m \<noteq> []" "length (concat m) + 8 < 2 ^ 63"
        "w_in s = wire m @ concat (map wire rest)" by auto
      let ?t = "\<lambda>evs. s\<lparr>w_in := concat (map wire rest), w_log := evs @ w_log s\<rparr>"
      have env: "(LCAP_RECV_NONBLOCK AND LCAP_RECV_NO_ENVELOPE = 0) = True" by simp
      obtain evs where once: "lcap_rpc_recv_once L LCAP_RECV_NONBLOCK cb s =
          (if lr_body (request_of True m) = [] then Ok 0 (?t evs) else cb (request_of True m) (?t evs))"
        using lcap_rpc_recv_once_wire [OF al m(2-4), of LCAP_RECV_NONBLOCK cb] unfolding env by blast
      have t: "P (?t evs)" by (rule P [OF Suc.prems(3)]) simp
      obtain rc u where u: "lcap_rpc_recv_once L LCAP_RECV_NONBLOCK cb s = Ok rc u" "0 \<le> rc"
        "w_in u = concat (map wire rest)" "P u"
      proof (cases "lr_body (request_of True m) = []")
        case True
        with once t show thesis by (intro that [of 0 "?t evs"]) simp_all
      next
        case False
        with cb [OF m(1) False t] once show thesis by (auto intro: that)
      qed
      have "wire m \<noteq> []" using m(2) by (cases m rule: wire.cases) auto
      then have "length (w_in u) < length (w_in s)" using m(4) u(3) by simp
      then have "length (w_in u) < k" using Suc.prems(4) by linarith
      with Suc.IH [of rest u "n + 1"] Suc.prems Cons u show ?thesis by simp
    qed
  qed simp
  show ?thesis
    unfolding lcap_rpc_recv_def by (rule loop [OF order_refl s]) simp
qed

end
