(* ===== verification/Rpc_Utils.thy ===== *)
theory Rpc_Utils
  imports Net
begin

text \<open>
  \<^verbatim>\<open>src/lcapd/lcapd_internal.h\<close> and \<^verbatim>\<open>src/lcapd/rpc_utils.c\<close>: the configuration and context
  structures of the daemon, the comparison of connection identities, and the two functions that
  send a message or an acknowledgement to a peer. The messages a function has sent are read off
  the log of external calls (\<open>emits\<close>).
\<close>

subsection \<open>Configuration and context\<close>

abbreviation (input) MAX_MDT :: nat where "MAX_MDT \<equiv> 128"

record lcap_cfg =
  ccf_mdt :: "bytes option list" \<comment> \<open>an array of MAX_MDT pointers\<close>
  ccf_clreader :: "bytes option"
  ccf_mdtcount :: nat
  ccf_file :: "bytes option"
  ccf_loggername :: "bytes option"
  ccf_oneshot :: bool
  ccf_verbosity :: int
  ccf_max_bkt :: int
  ccf_rec_batch_count :: int
  ccf_worker_count :: int

text \<open>
  Log messages are not part of the model, except where forming one reads memory the program has not
  checked. The messages of level LCAPLOG_ERR are always formed. Those of \<^verbatim>\<open>lcap_debug\<close> are when the
  level is LCAPLOG_DBG, which \<^verbatim>\<open>lcap_set_loglevel\<close> chooses for every verbosity but 0, 1 and 2; the
  daemon sets it once, before it starts a thread or serves. One of them prints the operation of
  a request, a 32-bit field, also when the body is too short to hold it.
\<close>

definition debug_logged :: "lcap_cfg \<Rightarrow> bool" where
  "debug_logged cfg \<longleftrightarrow> ccf_verbosity cfg \<notin> {0, 1, 2}"

definition op_overrun :: "lcap_cfg \<Rightarrow> lcapnet_request \<Rightarrow> bool" where
  "op_overrun cfg req \<longleftrightarrow> debug_logged cfg \<and> lr_body_len req < 4"

definition log_op :: "lcap_cfg \<Rightarrow> lcapnet_request \<Rightarrow> 's \<Rightarrow> (unit, 's) res" where
  "log_op cfg req s = (if op_overrun cfg req then Bad Out_of_bounds s else Ok () s)"

lemma log_op_ok [simp]: "\<not> op_overrun cfg req \<Longrightarrow> log_op cfg req s = Ok () s"
  by (simp add: log_op_def)

lemma op_overrun_long [simp]: "sizeof_hdr \<le> lr_body_len req \<Longrightarrow> \<not> op_overrun cfg req"
  by (simp add: op_overrun_def)

text \<open>\<^verbatim>\<open>cid_compare\<close> has the return type bool, so every nonzero result is true.\<close>

definition cid_compare :: "conn_id \<Rightarrow> conn_id \<Rightarrow> bool" where
  "cid_compare c0 c1 =
     (if ci_length c0 > ci_length c1 then True
      else if ci_length c0 < ci_length c1 then True
      else take (ci_length c0) (ci_data c0) \<noteq> take (ci_length c0) (ci_data c1))"

lemma cid_compare_eq: "wf_cid a \<Longrightarrow> wf_cid b \<Longrightarrow> cid_compare a b \<longleftrightarrow> a \<noteq> b"
  by (cases a; cases b) (auto simp: cid_compare_def wf_cid_def)

subsection \<open>Sending to a peer\<close>

definition peer_rpc_send ::
    "libs \<Rightarrow> conn_id option \<Rightarrow> conn_id option \<Rightarrow> bytes \<Rightarrow> 'a world_scheme \<Rightarrow>
      (int, 'a world_scheme) res" where
  "peer_rpc_send L src_id dst_id msg s =
     (case send_frames L (case src_id of
                            None \<Rightarrow> []
                          | Some c \<Rightarrow> [(take (ci_length c) (ci_data c), True), ([], True)]) s of
        (rc, s) \<Rightarrow>
          if rc < 0 then Ok rc s
          else case dst_id of
                 None \<Rightarrow> Bad Null_deref s
               | Some c \<Rightarrow>
                   (case send_frames L [(take (ci_length c) (ci_data c), True), ([], True),
                                        (msg, False)] s of
                      (rc, s) \<Rightarrow> Ok rc s))"

definition ack_msg :: "int \<Rightarrow> bytes" where
  "ack_msg ret = enc_ack \<lparr>ack_hdr = mk_hdr RPC_OP_ACK, ack_pr_retcode = word_of_int ret\<rparr>"

definition ack_retcode ::
    "libs \<Rightarrow> conn_id option \<Rightarrow> conn_id option \<Rightarrow> int \<Rightarrow> 'a world_scheme \<Rightarrow>
      (int, 'a world_scheme) res" where
  "ack_retcode L src_id dst_id ret s =
     bindR (peer_rpc_send L src_id dst_id (ack_msg ret) s) (\<lambda>rc s.
       if rc < 0 then Ok (- int (w_errno s)) s else Ok 0 s)"

subsection \<open>The messages sent\<close>

text \<open>
  The accepted frames of a sequence of calls (oldest first) as messages, and the frames of an
  unfinished one.
\<close>

fun out_run :: "bytes list \<Rightarrow> event list \<Rightarrow> bytes list list \<times> bytes list" where
  "out_run acc [] = ([], acc)"
| "out_run acc (e # es) =
     (case e of
        Ev_send f mo n \<Rightarrow>
          if n \<noteq> 0 then out_run acc es
          else if mo then out_run (acc @ [f]) es
          else (case out_run [] es of (ms, a) \<Rightarrow> ((acc @ [f]) # ms, a))
      | _ \<Rightarrow> out_run acc es)"

definition emits :: "'a world_scheme \<Rightarrow> 'b world_scheme \<Rightarrow> bytes list list \<Rightarrow> bool" where
  "emits s s' ms \<longleftrightarrow> (\<exists>evs. w_log s' = evs @ w_log s \<and> out_run [] (rev evs) = (ms, []))"

lemma out_run_append:
  "out_run acc xs = (ms, a) \<Longrightarrow> out_run a ys = (ns, b) \<Longrightarrow> out_run acc (xs @ ys) = (ms @ ns, b)"
proof (induction xs arbitrary: acc ms)
  case (Cons e es)
  then show ?case by (cases e) (auto split: if_splits prod.splits)
qed simp

lemma emits_refl [simp, intro]: "emits s s []"
  by (auto simp: emits_def)

lemma emits_trans: "emits s t ms \<Longrightarrow> emits t u ns \<Longrightarrow> emits s u (ms @ ns)"
  by (fastforce simp: emits_def dest: out_run_append)

lemma emits_world:
  assumes "w_log s' = w_log s" "w_log t' = w_log t"
  shows "emits s' t' ms = emits s t ms"
  using assms by (simp add: emits_def)

lemma out_run_quiet: "list_all quiet_event es \<Longrightarrow> out_run acc es = ([], acc)"
  by (induction es) (auto simp: quiet_event_def split: event.splits)

lemma emits_quiet:
  "w_log s' = evs @ w_log s \<Longrightarrow> list_all quiet_event evs \<Longrightarrow> emits s s' []"
  unfolding emits_def by (rule exI [of _ evs]) (auto intro!: out_run_quiet simp: list_all_iff)

text \<open>What the external calls emit, for composition with \<open>emits_trans\<close>.\<close>

lemma emits_alloc: "alloc L n s = (ok, s') \<Longrightarrow> emits s s' []"
  by (rule emits_quiet [of _ "[Ev_alloc n ok]"]) (auto simp: alloc_def Let_def quiet_event_def)

lemma emits_clock: "clock_gettime L s = (t, s') \<Longrightarrow> emits s s' []"
  by (rule emits_quiet [of _ "[Ev_clock t]"]) (auto simp: clock_gettime_def Let_def quiet_event_def)

text \<open>A message with a sender as the broker writes it: sender, delimiter, peer, delimiter, body.\<close>

definition peer_frames :: "conn_id option \<Rightarrow> conn_id \<Rightarrow> bytes \<Rightarrow> bytes list" where
  "peer_frames src dst msg =
     (case src of None \<Rightarrow> [] | Some c \<Rightarrow> [ci_data c, []]) @ [ci_data dst, [], msg]"

lemma peer_rpc_send_ok:
  assumes "sends_ok L" "wf_cid dst" "pred_option wf_cid src"
  shows "\<exists>evs. peer_rpc_send L src (Some dst) msg s = Ok 0 (s\<lparr>w_log := evs @ w_log s\<rparr>)
    \<and> out_run [] (rev evs) = ([peer_frames src dst msg], [])"
  using assms
  by (cases src;
      intro exI [of _ "[Ev_send msg False 0, Ev_send [] True 0, Ev_send (ci_data dst) True 0] @
        (case src of None \<Rightarrow> [] | Some c \<Rightarrow> [Ev_send [] True 0, Ev_send (ci_data c) True 0])"])
    (auto simp: peer_rpc_send_def send_frames_ok wf_cid_def peer_frames_def)

lemma ack_retcode_ok:
  assumes "sends_ok L" "wf_cid dst" "pred_option wf_cid src"
  shows "\<exists>evs. ack_retcode L src (Some dst) ret s = Ok 0 (s\<lparr>w_log := evs @ w_log s\<rparr>)
    \<and> out_run [] (rev evs) = ([peer_frames src dst (ack_msg ret)], [])"
  using peer_rpc_send_ok [OF assms, where msg = "ack_msg ret" and s = s] by (auto simp: ack_retcode_def)

lemma length_ack_msg [simp]: "length (ack_msg ret) = sizeof_ack"
  by (simp add: ack_msg_def)

lemma body_op_ack_msg [simp]: "body_op (ack_msg ret) = 5"
  using body_op_mk_hdr [of "ack_msg ret" RPC_OP_ACK] by (simp add: ack_msg_def)

lemma send_frames_more:
  "send_frames L fs s = (rc, s') \<Longrightarrow> world.more s' = world.more s \<and> w_in s' = w_in s"
  by (induction fs arbitrary: s)
    (fastforce simp: zmq_send_def send_frames.simps Let_def split: if_splits prod.splits)+

lemma peer_rpc_send_returns:
  "\<exists>rc s'. peer_rpc_send L src (Some dst) msg s = Ok rc s' \<and>
     world.more s' = world.more s \<and> w_in s' = w_in s"
  by (auto simp: peer_rpc_send_def split: prod.splits dest!: send_frames_more)

lemma ack_retcode_returns:
  "\<exists>rc s'. ack_retcode L src (Some dst) ret s = Ok rc s' \<and> rc \<le> 0 \<and>
     world.more s' = world.more s \<and> w_in s' = w_in s"
  using peer_rpc_send_returns [where msg = "ack_msg ret" and src = src and L = L and dst = dst and s = s]
  by (auto simp: ack_retcode_def)

subsection \<open>An example configuration\<close>

definition demo_cfg :: lcap_cfg where
  "demo_cfg = \<lparr>ccf_mdt = Some [77, 48] # replicate 127 None, ccf_clreader = Some [99, 108, 49],
     ccf_mdtcount = 1, ccf_file = None, ccf_loggername = None, ccf_oneshot = False,
     ccf_verbosity = 0, ccf_max_bkt = 4, ccf_rec_batch_count = 2, ccf_worker_count = 0\<rparr>"

end
