(* ===== verification/Broker.thy ===== *)
theory Broker
  imports Rpc_Utils
begin

text \<open>
  \<^verbatim>\<open>src/lcapd/broker.c\<close>: the thread that routes messages between clients and readers and keeps
  the identities of the running readers. Requests are forwarded to the reader named in the
  message, replies to the client; SIGNAL messages register and deregister readers; anything
  malformed is answered with an error code.

  \<open>broker_spec\<close> states what one request does (the identity table after it and the messages
  sent) without loops or external calls; \<open>lcapd_process_request\<close> refines it, except on the requests
  of \<open>broker_fault\<close>: those whose bytes its log messages read or negate without checking them. Under the
  table's invariant no other request makes the broker fault.
\<close>

subsection \<open>State\<close>

record subtask_info =
  si_thread :: nat
  si_running :: bool

record lcap_ctx = world +
  cc_config :: lcap_cfg
  cc_rdr_info :: "subtask_info list option"
  cc_zctx :: bool \<comment> \<open>not NULL\<close>
  cc_sock :: bool \<comment> \<open>not NULL\<close>
  cc_rcid :: "conn_id option list" \<comment> \<open>an array of MAX_MDT pointers\<close>

text \<open>An element of an array of pointers, a fault outside its bounds.\<close>

definition arr_get :: "'b list \<Rightarrow> nat \<Rightarrow> 's \<Rightarrow> ('b, 's) res" where
  "arr_get xs i s = (if i < length xs then Ok (xs ! i) s else Bad Out_of_bounds s)"

lemma arr_get_in [simp]: "i < length xs \<Longrightarrow> arr_get xs i s = Ok (xs ! i) s"
  by (simp add: arr_get_def)

subsection \<open>Operations\<close>

text \<open>\<^verbatim>\<open>strcmp\<close> reads past an array without NUL when the other string starts with all of it.\<close>

definition strcmp_overrun :: "bytes \<Rightarrow> bytes \<Rightarrow> bool" where
  "strcmp_overrun arr n \<longleftrightarrow> 0 \<notin> set arr \<and> take (length arr) n = arr"

lemma strcmp_in_bounds: "length n < length arr \<Longrightarrow> \<not> strcmp_overrun arr n"
  by (auto simp: strcmp_overrun_def)

text \<open>After the loop an error message prints the name with \<^verbatim>\<open>%s\<close>, which reads past an array without NUL.\<close>

fun register_from ::
    "libs \<Rightarrow> bytes \<Rightarrow> conn_id option \<Rightarrow> nat list \<Rightarrow> lcap_ctx \<Rightarrow> (int, lcap_ctx) res" where
  "register_from L mdt c [] ctx = (if 0 \<notin> set mdt then Bad Out_of_bounds ctx else Ok (- EINVAL) ctx)"
| "register_from L mdt c (i # js) ctx =
     bindR (arr_get (ccf_mdt (cc_config ctx)) i ctx) (\<lambda>name ctx.
     case name of
       None \<Rightarrow> Bad Null_deref ctx
     | Some n \<Rightarrow>
         if strcmp_overrun mdt n then Bad Out_of_bounds ctx
         else if c_str mdt = n then
           (case c of
              None \<Rightarrow> Bad Null_deref ctx
            | Some c \<Rightarrow>
                (case alloc L (sizeof_conn_id + ci_length c) ctx of
                   (ok, ctx) \<Rightarrow>
                     if \<not> ok then Ok (- ENOMEM) ctx
                     else if i < length (cc_rcid ctx)
                     then Ok 0 (ctx\<lparr>cc_rcid := (cc_rcid ctx)[i := Some c]\<rparr>)
                     else Bad Out_of_bounds ctx))
         else register_from L mdt c js ctx)"

definition changelog_reader_register ::
    "libs \<Rightarrow> bytes \<Rightarrow> conn_id option \<Rightarrow> lcap_ctx \<Rightarrow> (int, lcap_ctx) res" where
  "changelog_reader_register L mdt c ctx =
     register_from L mdt c [0..<ccf_mdtcount (cc_config ctx)] ctx"

fun deregister_from :: "conn_id option \<Rightarrow> nat list \<Rightarrow> lcap_ctx \<Rightarrow> (int, lcap_ctx) res" where
  "deregister_from c [] ctx = Ok 0 ctx"
| "deregister_from c (i # js) ctx =
     bindR (arr_get (cc_rcid ctx) i ctx) (\<lambda>r ctx.
     case r of
       None \<Rightarrow> deregister_from c js ctx
     | Some r \<Rightarrow>
         (case c of
            None \<Rightarrow> Bad Null_deref ctx
          | Some c \<Rightarrow>
              if \<not> cid_compare r c then Ok 0 (ctx\<lparr>cc_rcid := (cc_rcid ctx)[i := None]\<rparr>)
              else deregister_from (Some c) js ctx))"

definition changelog_reader_deregister :: "conn_id option \<Rightarrow> lcap_ctx \<Rightarrow> (int, lcap_ctx) res" where
  "changelog_reader_deregister c ctx = deregister_from c [0..<ccf_mdtcount (cc_config ctx)] ctx"

text \<open>
  A debug message prints the reader's identity with \<^verbatim>\<open>%.*s\<close> and its length, cast to \<^verbatim>\<open>int\<close>. A negative
  precision counts as none (printf(3)): the bytes are then read up to a NUL.
\<close>

definition id_overrun :: "conn_id \<Rightarrow> bool" where
  "id_overrun c \<longleftrightarrow> to_int32 (int (ci_length c)) < 0 \<and> 0 \<notin> set (ci_data c)"

definition log_forward :: "lcap_cfg \<Rightarrow> conn_id option \<Rightarrow> 's \<Rightarrow> (unit, 's) res" where
  "log_forward cfg c s =
     (if \<not> debug_logged cfg then Ok () s
      else case c of
             None \<Rightarrow> Bad Null_deref s
           | Some c \<Rightarrow> if id_overrun c then Bad Out_of_bounds s else Ok () s)"

definition broker_reader_send :: "libs \<Rightarrow> lcapnet_request \<Rightarrow> lcap_ctx \<Rightarrow> (int, lcap_ctx) res" where
  "broker_reader_send L req ctx =
     (if lr_body_len req < rpc_expected_length (body_op (lr_body req)) then Ok (- EINVAL) ctx
      else bindR (log_forward (cc_config ctx) (lr_forward req) ctx) (\<lambda>_ ctx.
           peer_rpc_send L (lr_forward req) (lr_remote req)
             (take (lr_body_len req) (lr_body req)) ctx))"

definition broker_client_send :: "libs \<Rightarrow> lcapnet_request \<Rightarrow> lcap_ctx \<Rightarrow> (int, lcap_ctx) res" where
  "broker_client_send L req ctx =
     peer_rpc_send L None (lr_forward req) (take (lr_body_len req) (lr_body req)) ctx"

text \<open>The error message of a failed reader negates the code, cast to \<^verbatim>\<open>int\<close>.\<close>

definition broker_handle_signal :: "libs \<Rightarrow> lcapnet_request \<Rightarrow> lcap_ctx \<Rightarrow> (int, lcap_ctx) res" where
  "broker_handle_signal L req ctx =
     (if lr_body_len req < sizeof_signal then Ok (- EINVAL) ctx
      else let rpc = dec_signal (lr_body req)
           in if sig_ret rpc = 0
              then changelog_reader_register L (sig_mdtname rpc) (lr_remote req) ctx
              else bindR (changelog_reader_deregister (lr_remote req) ctx) (\<lambda>_ ctx.
                   if to_int32 (uint (sig_ret rpc)) = - (2 ^ 31) then Bad Signed_overflow ctx else Ok 0 ctx))"

text \<open>The array of handlers: every entry of the broker's is set.\<close>

definition broker_rpc_handle ::
    "rpc_op_type \<Rightarrow> (libs \<Rightarrow> lcapnet_request \<Rightarrow> lcap_ctx \<Rightarrow> (int, lcap_ctx) res) option" where
  "broker_rpc_handle t =
     (case t of
        RPC_OP_START \<Rightarrow> Some broker_reader_send
      | RPC_OP_DEQUEUE \<Rightarrow> Some broker_reader_send
      | RPC_OP_CLEAR \<Rightarrow> Some broker_reader_send
      | RPC_OP_FINI \<Rightarrow> Some broker_reader_send
      | RPC_OP_ENQUEUE \<Rightarrow> Some broker_client_send
      | RPC_OP_ACK \<Rightarrow> Some broker_client_send
      | RPC_OP_SIGNAL \<Rightarrow> Some broker_handle_signal)"

definition broker_rpc_handle_one ::
    "libs \<Rightarrow> nat \<Rightarrow> lcapnet_request \<Rightarrow> lcap_ctx \<Rightarrow> (int, lcap_ctx) res" where
  "broker_rpc_handle_one L op req ctx =
     (case rpc_op_of op of
        None \<Rightarrow> Bad Out_of_bounds ctx
      | Some t \<Rightarrow>
          (case broker_rpc_handle t of
             None \<Rightarrow> Ok (- EPROTO) ctx
           | Some hdl \<Rightarrow> hdl L req ctx))"

definition lcapd_process_request ::
    "libs \<Rightarrow> lcapnet_request \<Rightarrow> lcap_ctx \<Rightarrow> (int, lcap_ctx) res" where
  "lcapd_process_request L req ctx =
     bindR (if lr_body_len req < sizeof_hdr then Ok (- EPROTO) ctx
            else let op = body_op (lr_body req)
                 in if op < RPC_OP_FIRST \<or> op > RPC_OP_LAST then Ok (- EINVAL) ctx
                    else broker_rpc_handle_one L op req ctx) (\<lambda>rc ctx.
     bindR (log_op (cc_config ctx) req ctx) (\<lambda>_ ctx.
     if rc < 0 then ack_retcode L None (lr_remote req) rc ctx else Ok rc ctx))"

subsection \<open>Invariant\<close>

definition cfg_wf :: "lcap_cfg \<Rightarrow> bool" where
  "cfg_wf cfg \<longleftrightarrow> length (ccf_mdt cfg) = MAX_MDT \<and> ccf_mdtcount cfg \<le> MAX_MDT \<and>
     (\<forall>i < ccf_mdtcount cfg. \<exists>n. ccf_mdt cfg ! i = Some n \<and> length n < sizeof_mdtname)"

definition broker_inv :: "lcap_ctx \<Rightarrow> bool" where
  "broker_inv ctx \<longleftrightarrow> cfg_wf (cc_config ctx) \<and> length (cc_rcid ctx) = MAX_MDT \<and>
     (\<forall>c. Some c \<in> set (cc_rcid ctx) \<longrightarrow> wf_cid c)"

subsection \<open>What a request does\<close>

definition first_index :: "(nat \<Rightarrow> bool) \<Rightarrow> nat \<Rightarrow> nat option" where
  "first_index P n = find P [0..<n]"

definition broker_spec ::
    "lcap_cfg \<Rightarrow> conn_id option list \<Rightarrow> conn_id \<Rightarrow> conn_id \<Rightarrow> bytes \<Rightarrow>
      conn_id option list \<times> bytes list list" where
  "broker_spec cfg rcid remote forward body =
     (let err = (\<lambda>e. (rcid, [peer_frames None remote (ack_msg (- e))]))
      in if length body < sizeof_hdr then err EPROTO
         else case rpc_op_of (body_op body) of
                None \<Rightarrow> err EINVAL
              | Some RPC_OP_ENQUEUE \<Rightarrow> (rcid, [peer_frames None forward body])
              | Some RPC_OP_ACK \<Rightarrow> (rcid, [peer_frames None forward body])
              | Some RPC_OP_SIGNAL \<Rightarrow>
                  (if length body < sizeof_signal then err EINVAL
                   else if sig_ret (dec_signal body) = 0 then
                     (case first_index (\<lambda>i. ccf_mdt cfg ! i = Some (c_str (sig_mdtname (dec_signal body))))
                             (ccf_mdtcount cfg) of
                        None \<Rightarrow> err EINVAL
                      | Some i \<Rightarrow> (rcid[i := Some remote], []))
                   else
                     (case first_index (\<lambda>i. rcid ! i = Some remote) (ccf_mdtcount cfg) of
                        None \<Rightarrow> (rcid, [])
                      | Some i \<Rightarrow> (rcid[i := None], [])))
              | Some _ \<Rightarrow>
                  (if length body < rpc_expected_length (body_op body) then err EINVAL
                   else (rcid, [peer_frames (Some forward) remote body])))"

text \<open>
  The requests the broker does not survive: in a SIGNAL, a name without NUL, which matches no MDT and is printed
  past its end, and the one error code that cannot be negated; when debug messages are formed, a body too short for
  an operation, and a request for a reader whose name is so long that its length turns negative as an \<^verbatim>\<open>int\<close>.
\<close>

definition signal_fault :: "bytes \<Rightarrow> fault option" where
  "signal_fault body =
     (if length body < sizeof_signal then None
      else if sig_ret (dec_signal body) = 0
      then if 0 \<in> set (sig_mdtname (dec_signal body)) then None else Some Out_of_bounds
      else if to_int32 (uint (sig_ret (dec_signal body))) = - (2 ^ 31) then Some Signed_overflow else None)"

definition broker_fault :: "lcap_cfg \<Rightarrow> conn_id \<Rightarrow> bytes \<Rightarrow> fault option" where
  "broker_fault cfg forward body =
     (if length body < sizeof_hdr
      then if debug_logged cfg \<and> length body < 4 then Some Out_of_bounds else None
      else case rpc_op_of (body_op body) of
             None \<Rightarrow> None
           | Some RPC_OP_ENQUEUE \<Rightarrow> None
           | Some RPC_OP_ACK \<Rightarrow> None
           | Some RPC_OP_SIGNAL \<Rightarrow> signal_fault body
           | Some _ \<Rightarrow>
               if rpc_expected_length (body_op body) \<le> length body \<and> debug_logged cfg \<and> id_overrun forward
               then Some Out_of_bounds else None)"

subsection \<open>The loops find the first matching entry\<close>

lemma register_from_find:
  assumes "\<forall>i \<in> set js. i < length (ccf_mdt (cc_config ctx)) \<and> i < length (cc_rcid ctx)
      \<and> (\<exists>n. ccf_mdt (cc_config ctx) ! i = Some n \<and> length n < length mdt)"
  shows "register_from L mdt (Some c) js ctx =
    (case find (\<lambda>i. ccf_mdt (cc_config ctx) ! i = Some (c_str mdt)) js of
       None \<Rightarrow> if 0 \<notin> set mdt then Bad Out_of_bounds ctx else Ok (- EINVAL) ctx
     | Some i \<Rightarrow>
         (case alloc L (sizeof_conn_id + ci_length c) ctx of
            (ok, ctx) \<Rightarrow> if ok then Ok 0 (ctx\<lparr>cc_rcid := (cc_rcid ctx)[i := Some c]\<rparr>)
                         else Ok (- ENOMEM) ctx))"
  using assms
proof (induction js)
  case (Cons i js)
  then have "alloc L n ctx = (ok, ctx') \<Longrightarrow> length (cc_rcid ctx') = length (cc_rcid ctx)" for n ok ctx'
    by (auto simp: alloc_def Let_def)
  with Cons show ?case by (auto simp: strcmp_in_bounds split: option.splits prod.splits)
qed simp

lemma deregister_from_find:
  assumes "\<forall>i \<in> set js. i < length (cc_rcid ctx)" "wf_cid c"
    "\<And>c. Some c \<in> set (cc_rcid ctx) \<Longrightarrow> wf_cid c"
  shows "deregister_from (Some c) js ctx =
    (case find (\<lambda>i. cc_rcid ctx ! i = Some c) js of
       None \<Rightarrow> Ok 0 ctx
     | Some i \<Rightarrow> Ok 0 (ctx\<lparr>cc_rcid := (cc_rcid ctx)[i := None]\<rparr>))"
  using assms(1)
proof (induction js)
  case (Cons i js)
  have "cid_compare r c \<longleftrightarrow> r \<noteq> c" if "cc_rcid ctx ! i = Some r" for r
    using that Cons.prems assms(2,3) cid_compare_eq by (metis list.set_intros(1) nth_mem)
  with Cons show ?case by (auto split: option.splits)
qed simp

lemma find_upt_less: "find P [0..<n] = Some i \<Longrightarrow> i < n"
  by (auto simp: find_Some_iff)

lemma broker_inv_upd:
  assumes "broker_inv ctx" "i < MAX_MDT" "pred_option wf_cid r"
  shows "broker_inv (ctx\<lparr>cc_rcid := (cc_rcid ctx)[i := r]\<rparr>)"
  using assms by (auto simp: broker_inv_def dest!: set_update_subset_insert [THEN subsetD])

lemma changelog_reader_register_find:
  assumes "broker_inv ctx" "length mdt = sizeof_mdtname"
  shows "changelog_reader_register L mdt (Some c) ctx =
    (case first_index (\<lambda>i. ccf_mdt (cc_config ctx) ! i = Some (c_str mdt)) (ccf_mdtcount (cc_config ctx)) of
       None \<Rightarrow> if 0 \<notin> set mdt then Bad Out_of_bounds ctx else Ok (- EINVAL) ctx
     | Some i \<Rightarrow>
         (case alloc L (sizeof_conn_id + ci_length c) ctx of
            (ok, ctx) \<Rightarrow> if ok then Ok 0 (ctx\<lparr>cc_rcid := (cc_rcid ctx)[i := Some c]\<rparr>)
                         else Ok (- ENOMEM) ctx))"
  unfolding changelog_reader_register_def first_index_def
  by (rule register_from_find) (use assms in \<open>auto simp: broker_inv_def cfg_wf_def\<close>)

text \<open>The names of the configuration are shorter than the array, so a name without NUL is none of them.\<close>

lemma register_found_NUL:
  assumes "broker_inv ctx" "length mdt = sizeof_mdtname"
    and "first_index (\<lambda>i. ccf_mdt (cc_config ctx) ! i = Some (c_str mdt)) (ccf_mdtcount (cc_config ctx)) = Some i"
  shows "0 \<in> set mdt"
proof (rule ccontr)
  assume "0 \<notin> set mdt"
  then have "c_str mdt = mdt" by (auto simp: c_str_def)
  moreover have "i < ccf_mdtcount (cc_config ctx)" "ccf_mdt (cc_config ctx) ! i = Some (c_str mdt)"
    using assms(3) by (auto simp: first_index_def find_Some_iff)
  ultimately show False using assms(1,2) by (auto simp: broker_inv_def cfg_wf_def)
qed

lemma changelog_reader_deregister_find:
  assumes "broker_inv ctx" "wf_cid c"
  shows "changelog_reader_deregister (Some c) ctx =
    (case first_index (\<lambda>i. cc_rcid ctx ! i = Some c) (ccf_mdtcount (cc_config ctx)) of
       None \<Rightarrow> Ok 0 ctx
     | Some i \<Rightarrow> Ok 0 (ctx\<lparr>cc_rcid := (cc_rcid ctx)[i := None]\<rparr>))"
  unfolding changelog_reader_deregister_def first_index_def
  by (rule deregister_from_find) (use assms in \<open>auto simp: broker_inv_def cfg_wf_def\<close>)

subsection \<open>Every request is handled\<close>

lemma broker_inv_more: "broker_inv ctx \<Longrightarrow> world.more t = world.more ctx \<Longrightarrow> broker_inv t"
  by (cases ctx; cases t) (simp add: broker_inv_def)

lemma broker_inv_log [simp]:
  "broker_inv (ctx\<lparr>w_log := l\<rparr>) = broker_inv ctx"
  "broker_inv (ctx\<lparr>w_log := l, cc_rcid := r\<rparr>) = broker_inv (ctx\<lparr>cc_rcid := r\<rparr>)"
  by (simp_all add: broker_inv_def)

lemma more_config:
  fixes s t :: lcap_ctx
  shows "world.more t = world.more s \<Longrightarrow> cc_config t = cc_config s"
  by (cases s; cases t) simp

definition kept_ctx :: "lcap_ctx \<Rightarrow> lcap_ctx \<Rightarrow> bool" where
  "kept_ctx ctx t \<longleftrightarrow> broker_inv t \<and> cc_config t = cc_config ctx \<and> w_in t = w_in ctx"

definition handled :: "fault option \<Rightarrow> lcap_ctx \<Rightarrow> (int, lcap_ctx) res \<Rightarrow> bool" where
  "handled f ctx r \<longleftrightarrow>
     (case f of None \<Rightarrow> \<exists>rc t. r = Ok rc t \<and> kept_ctx ctx t | Some e \<Rightarrow> \<exists>t. r = Bad e t \<and> kept_ctx ctx t)"

lemma handled_Ok: "broker_inv ctx \<Longrightarrow> handled None ctx (Ok e ctx)"
  by (simp add: handled_def kept_ctx_def)

lemma handled_peer_send:
  assumes "broker_inv ctx"
  shows "handled None ctx (peer_rpc_send L src (Some d) m ctx)"
proof -
  obtain rc t where "peer_rpc_send L src (Some d) m ctx = Ok rc t" "world.more t = world.more ctx" "w_in t = w_in ctx"
    using peer_rpc_send_returns [of L src d m ctx] by blast
  with broker_inv_more [OF assms, of t] more_config [of t ctx] show ?thesis by (simp add: handled_def kept_ctx_def)
qed

lemma handled_ack:
  assumes "broker_inv ctx"
  shows "handled None ctx (ack_retcode L None (Some d) rc ctx)"
proof -
  obtain rc' t where "ack_retcode L None (Some d) rc ctx = Ok rc' t" "world.more t = world.more ctx" "w_in t = w_in ctx"
    using ack_retcode_returns [of L None d rc ctx] by blast
  with broker_inv_more [OF assms, of t] more_config [of t ctx] show ?thesis by (simp add: handled_def kept_ctx_def)
qed

lemma handled_bind:
  assumes "handled f ctx m" "\<And>rc t. broker_inv t \<Longrightarrow> handled None t (k rc t)"
  shows "handled f ctx (bindR m k)"
proof (cases f)
  case None
  then obtain rc t where t: "m = Ok rc t" "kept_ctx ctx t" using assms(1) by (auto simp: handled_def)
  then have "handled None t (k rc t)" by (intro assms(2)) (simp add: kept_ctx_def)
  with t None show ?thesis by (auto simp: handled_def kept_ctx_def)
next
  case (Some e)
  then show ?thesis using assms(1) by (auto simp: handled_def)
qed

lemma length_sig_mdtname: "sizeof_signal \<le> length b \<Longrightarrow> length (sig_mdtname (dec_signal b)) = sizeof_mdtname"
  by (simp add: dec_signal_def)

lemma first_index_bound:
  assumes "broker_inv ctx" "first_index P (ccf_mdtcount (cc_config ctx)) = Some i"
  shows "i < MAX_MDT"
proof -
  have "i < ccf_mdtcount (cc_config ctx)" using assms(2) unfolding first_index_def by (rule find_upt_less)
  then show ?thesis using assms(1) by (simp add: broker_inv_def cfg_wf_def)
qed

lemma handled_signal:
  assumes inv: "broker_inv ctx" and req: "lr_remote req = Some c" "wf_cid c" "lr_body_len req = length (lr_body req)"
  shows "handled (signal_fault (lr_body req)) ctx (broker_handle_signal L req ctx)"
proof -
  let ?rpc = "dec_signal (lr_body req)"
  consider "length (lr_body req) < sizeof_signal" | "sizeof_signal \<le> length (lr_body req)" "sig_ret ?rpc = 0"
    | "sizeof_signal \<le> length (lr_body req)" "sig_ret ?rpc \<noteq> 0" by linarith
  then show ?thesis
  proof cases
    case 1
    with handled_Ok [OF inv] req show ?thesis by (simp add: signal_fault_def broker_handle_signal_def)
  next
    case 2
    let ?mdt = "sig_mdtname ?rpc"
    note len = length_sig_mdtname [OF 2(1)]
    have eq: "broker_handle_signal L req ctx = changelog_reader_register L ?mdt (Some c) ctx"
      using 2 req by (simp add: broker_handle_signal_def)
    have "handled (if 0 \<in> set ?mdt then None else Some Out_of_bounds) ctx (changelog_reader_register L ?mdt (Some c) ctx)"
    proof (cases "first_index (\<lambda>i. ccf_mdt (cc_config ctx) ! i = Some (c_str ?mdt)) (ccf_mdtcount (cc_config ctx))")
      case None
      with inv show ?thesis by (simp add: changelog_reader_register_find [OF inv len] handled_def kept_ctx_def)
    next
      case (Some i)
      note i = first_index_bound [OF inv Some] and nul = register_found_NUL [OF inv len Some]
      have "broker_inv (ctx\<lparr>cc_rcid := (cc_rcid ctx)[i := Some c]\<rparr>)" using req(2) by (intro broker_inv_upd [OF inv i]) simp
      with inv Some nul show ?thesis
        by (simp add: changelog_reader_register_find [OF inv len] handled_def kept_ctx_def alloc_def Let_def)
    qed
    with 2 eq show ?thesis by (simp add: signal_fault_def)
  next
    case 3
    let ?over = "to_int32 (uint (sig_ret ?rpc)) = - (2 ^ 31)"
    obtain t where t: "changelog_reader_deregister (Some c) ctx = Ok 0 t" "kept_ctx ctx t"
    proof (cases "first_index (\<lambda>i. cc_rcid ctx ! i = Some c) (ccf_mdtcount (cc_config ctx))")
      case None
      with inv req(2) show thesis by (intro that [of ctx]) (simp_all add: changelog_reader_deregister_find kept_ctx_def)
    next
      case (Some i)
      have "broker_inv (ctx\<lparr>cc_rcid := (cc_rcid ctx)[i := None]\<rparr>)" by (intro broker_inv_upd [OF inv first_index_bound [OF inv Some]]) simp
      with Some inv req(2) show thesis
        by (intro that [of "ctx\<lparr>cc_rcid := (cc_rcid ctx)[i := None]\<rparr>"]) (simp_all add: changelog_reader_deregister_find kept_ctx_def)
    qed
    have "broker_handle_signal L req ctx = (if ?over then Bad Signed_overflow t else Ok 0 t)"
      using 3 req t(1) by (simp add: broker_handle_signal_def Let_def)
    moreover have "signal_fault (lr_body req) = (if ?over then Some Signed_overflow else None)"
      using 3 by (simp add: signal_fault_def)
    ultimately show ?thesis using t(2) by (simp add: handled_def)
  qed
qed

text \<open>A request whose operation can be logged.\<close>

lemma process_request_logged:
  assumes "\<not> op_overrun (cc_config ctx) req"
  shows "lcapd_process_request L req ctx =
     bindR (if lr_body_len req < sizeof_hdr then Ok (- EPROTO) ctx
            else let op = body_op (lr_body req)
                 in if op < RPC_OP_FIRST \<or> op > RPC_OP_LAST then Ok (- EINVAL) ctx
                    else broker_rpc_handle_one L op req ctx) (\<lambda>rc ctx.
     if rc < 0 then ack_retcode L None (lr_remote req) rc ctx else Ok rc ctx)"
  using assms unfolding lcapd_process_request_def by (cases "lr_body_len req < sizeof_hdr") simp_all

lemma lcapd_process_request_handled:
  assumes inv: "broker_inv ctx" and req: "req_ok LCAP_RECV_NONBLOCK req" "lr_forward req = Some f"
  shows "handled (broker_fault (cc_config ctx) f (lr_body req)) ctx (lcapd_process_request L req ctx)"
proof -
  let ?fault = "broker_fault (cc_config ctx) f (lr_body req)"
  from req(1) obtain r where ids: "lr_remote req = Some r" "wf_cid r" "lr_body_len req = length (lr_body req)"
    by (auto simp: req_ok_def)
  let ?body = "if lr_body_len req < sizeof_hdr then Ok (- EPROTO) ctx
            else let op = body_op (lr_body req)
                 in if op < RPC_OP_FIRST \<or> op > RPC_OP_LAST then Ok (- EINVAL) ctx
                    else broker_rpc_handle_one L op req ctx"
  show ?thesis
  proof (cases "op_overrun (cc_config ctx) req")
    case True
    then have "lr_body_len req < sizeof_hdr" "?fault = Some Out_of_bounds"
      using ids(3) by (simp_all add: op_overrun_def broker_fault_def)
    with True inv show ?thesis by (simp add: lcapd_process_request_def log_op_def handled_def kept_ctx_def)
  next
    case False
    note err = handled_Ok [OF inv]
    have "handled ?fault ctx ?body"
    proof (cases "lr_body_len req < sizeof_hdr \<or> rpc_op_of (body_op (lr_body req)) = None")
      case True
      then have "lr_body_len req < sizeof_hdr \<or> body_op (lr_body req) > RPC_OP_LAST"
        using rpc_op_of_range by (metis not_le option.distinct(1))
      moreover have "?fault = None" using True False ids(3) by (auto simp: broker_fault_def op_overrun_def)
      ultimately show ?thesis using err by (auto simp: Let_def)
    next
      case known: False
      then obtain t where t: "body_op (lr_body req) = rpc_op_code t" using rpc_op_of_eq_Some by auto
      have "handled ?fault ctx (broker_rpc_handle_one L (rpc_op_code t) req ctx)"
        using handled_signal [OF inv ids(1,2,3), of L] handled_peer_send [OF inv, of L] ids req(2) err known t inv
        by (cases t) (auto simp: broker_rpc_handle_one_def broker_rpc_handle_def broker_reader_send_def
            broker_client_send_def broker_fault_def log_forward_def handled_def kept_ctx_def)
      moreover have "rpc_op_code t \<le> RPC_OP_LAST" by (cases t) simp_all
      ultimately show ?thesis using known t by (simp add: Let_def)
    qed
    then show ?thesis
      unfolding process_request_logged [OF False] ids(1)
      by (rule handled_bind) (simp add: handled_Ok handled_ack)
  qed
qed

text \<open>
  The loop keeps the invariant and the configuration, and the faults of the broker are those of messages that
  were waiting when it began: \<open>es\<close> is what the socket delivers.
\<close>

definition broker_bad :: "lcap_cfg \<Rightarrow> in_event list \<Rightarrow> fault \<Rightarrow> lcap_ctx \<Rightarrow> bool" where
  "broker_bad cfg es e ctx \<longleftrightarrow> (\<exists>req f. made_of es req \<and> lr_forward req = Some f \<and> broker_fault cfg f (lr_body req) = Some e) \<and> broker_inv ctx \<and> cc_config ctx = cfg"

interpretation broker: rpc_server L LCAP_RECV_NONBLOCK "lcapd_process_request L"
    "\<lambda>ctx. broker_inv ctx \<and> cc_config ctx = cfg \<and> suffix (w_in ctx) es" "broker_bad cfg es" for L cfg es
proof unfold_locales
  fix req s rc s' assume "req_ok LCAP_RECV_NONBLOCK req" "broker_inv s \<and> cc_config s = cfg \<and> suffix (w_in s) es"
    "lcapd_process_request L req s = Ok rc s'"
  with lcapd_process_request_handled [of s req _ L]
  show "(broker_inv s' \<and> cc_config s' = cfg \<and> suffix (w_in s') es) \<and> w_in s' = w_in s"
    by (fastforce simp: handled_def kept_ctx_def req_ok_def split: option.splits)
next
  fix req r s e s' assume req: "req_ok LCAP_RECV_NONBLOCK req" and r: "broker_inv r \<and> cc_config r = cfg \<and> suffix (w_in r) es"
    and b: "made_of (w_in r) req" and s: "broker_inv s \<and> cc_config s = cfg \<and> suffix (w_in s) es"
    and bad: "lcapd_process_request L req s = Bad e s'"
  obtain f where f: "lr_forward req = Some f" using req by (auto simp: req_ok_def)
  have "broker_fault cfg f (lr_body req) = Some e" "kept_ctx s s'"
    using lcapd_process_request_handled [of s req f L] s req f bad by (auto simp: handled_def split: option.splits)
  with s made_of_suffix [OF b] r f show "broker_bad cfg es e s'" by (auto simp: broker_bad_def kept_ctx_def)
next
  fix s t :: lcap_ctx
  assume "broker_inv s \<and> cc_config s = cfg \<and> suffix (w_in s) es" "world.more t = world.more s" "suffix (w_in t) (w_in s)"
  with broker_inv_more [of s t] more_config [of t s] suffix_order.trans [of "w_in t" "w_in s" es]
  show "broker_inv t \<and> cc_config t = cfg \<and> suffix (w_in t) es" by simp
qed

subsection \<open>Refinement\<close>

definition refines_spec :: "lcap_ctx \<Rightarrow> (int, lcap_ctx) res \<Rightarrow> conn_id option list \<times> bytes list list \<Rightarrow> bool" where
  "refines_spec ctx r out \<longleftrightarrow>
     (\<exists>t. r = Ok 0 t \<and> cc_config t = cc_config ctx \<and> cc_rcid t = fst out \<and> emits ctx t (snd out))"

lemma refines_peer_send:
  assumes "sends_ok L" "wf_cid d" "pred_option wf_cid src"
  shows "refines_spec ctx (peer_rpc_send L src (Some d) m ctx) (cc_rcid ctx, [peer_frames src d m])"
  using peer_rpc_send_ok [OF assms, of m ctx] by (auto simp: refines_spec_def emits_def)

lemma refines_ack:
  assumes "sends_ok L" "wf_cid d"
  shows "refines_spec ctx (ack_retcode L None (Some d) e ctx)
    (cc_rcid ctx, [peer_frames None d (ack_msg e)])"
  using ack_retcode_ok [OF assms, of None e ctx] by (auto simp: refines_spec_def emits_def)

text \<open>The reply to an error is the last step of every request.\<close>

definition error_reply :: "libs \<Rightarrow> conn_id option \<Rightarrow> int \<Rightarrow> lcap_ctx \<Rightarrow> (int, lcap_ctx) res" where
  "error_reply L d rc ctx = (if rc < 0 then ack_retcode L None d rc ctx else Ok rc ctx)"

lemma refines_error_reply:
  "refines_spec ctx r out \<Longrightarrow> refines_spec ctx (bindR r (error_reply L d)) out"
  by (auto simp: refines_spec_def error_reply_def)

lemma refines_signal:
  assumes "sends_ok L" "allocs_ok L" "broker_inv ctx" "lr_remote req = Some r" "wf_cid r"
    "ci_length r + 8 < 2 ^ 63" "lr_body_len req = length (lr_body req)"
    "8 \<le> length (lr_body req)" "body_op (lr_body req) = 6" "signal_fault (lr_body req) = None"
  shows "refines_spec ctx (bindR (broker_handle_signal L req ctx) (error_reply L (Some r)))
    (broker_spec (cc_config ctx) (cc_rcid ctx) r f (lr_body req))"
proof -
  let ?rpc = "dec_signal (lr_body req)"
  let ?err = "(cc_rcid ctx, [peer_frames None r (ack_msg (- EINVAL))])"
  have einval: "refines_spec ctx (ack_retcode L None (Some r) (- EINVAL) ctx) ?err"
    by (rule refines_ack) (use assms in simp_all)
  have al: "alloc L (8 + ci_length r) ctx =
      (True, ctx\<lparr>w_log := Ev_alloc (8 + ci_length r) True # w_log ctx\<rparr>)"
    using assms by (simp add: alloc_def allocs_ok_def)
  have reg: "refines_spec ctx (Ok 0 (ctx\<lparr>w_log := Ev_alloc (8 + ci_length r) True # w_log ctx,
      cc_rcid := (cc_rcid ctx)[i := Some r]\<rparr>)) ((cc_rcid ctx)[i := Some r], [])" for i
    by (auto simp: refines_spec_def intro!: emits_quiet [of _ "[Ev_alloc (8 + ci_length r) True]"]
        simp: quiet_event_def)
  have dereg: "refines_spec ctx (Ok 0 (ctx\<lparr>cc_rcid := (cc_rcid ctx)[i := None]\<rparr>))
      ((cc_rcid ctx)[i := None], [])" "refines_spec ctx (Ok 0 ctx) (cc_rcid ctx, [])" for i
    by (auto simp: refines_spec_def emits_def)
  consider "length (lr_body req) < 144" | "144 \<le> length (lr_body req)" "sig_ret ?rpc = 0"
    | "144 \<le> length (lr_body req)" "sig_ret ?rpc \<noteq> 0" by linarith
  then show ?thesis
  proof cases
    case 1
    with einval assms show ?thesis
      by (simp add: broker_handle_signal_def broker_spec_def error_reply_def)
  next
    case 2
    with einval reg al assms show ?thesis
      by (auto simp: broker_handle_signal_def broker_spec_def changelog_reader_register_find signal_fault_def
          length_sig_mdtname error_reply_def split: option.splits if_splits)
  next
    case 3
    with dereg assms show ?thesis
      by (auto simp: broker_handle_signal_def broker_spec_def changelog_reader_deregister_find signal_fault_def
          error_reply_def split: option.splits if_splits)
  qed
qed

lemma lcapd_process_request_refines:
  assumes "sends_ok L" "allocs_ok L" "broker_inv ctx"
    and req: "lr_remote req = Some r" "wf_cid r" "lr_forward req = Some f" "wf_cid f"
      "lr_body_len req = length (lr_body req)" "ci_length r + 8 < 2 ^ 63"
    and safe: "broker_fault (cc_config ctx) f (lr_body req) = None"
  shows "refines_spec ctx (lcapd_process_request L req ctx)
    (broker_spec (cc_config ctx) (cc_rcid ctx) r f (lr_body req))"
proof -
  let ?b = "lr_body req" and ?op = "body_op (lr_body req)"
  have err: "refines_spec ctx (bindR (Ok (- e) ctx) (error_reply L (Some r)))
      (cc_rcid ctx, [peer_frames None r (ack_msg (- e))])" if "0 < e" for e
    using refines_ack [OF assms(1) req(2), of ctx "- e"] that by (simp add: error_reply_def)
  note send = refines_error_reply [OF refines_peer_send [OF assms(1)]]
  have pr: "lcapd_process_request L req ctx =
     bindR (if length ?b < 8 then Ok (- EPROTO) ctx
            else if ?op > 6 then Ok (- EINVAL) ctx
            else broker_rpc_handle_one L ?op req ctx) (error_reply L (Some r))"
  proof -
    have "\<not> op_overrun (cc_config ctx) req"
      using safe req(5) by (auto simp: broker_fault_def op_overrun_def split: if_splits)
    from process_request_logged [OF this] show ?thesis
      unfolding error_reply_def [abs_def] req(1,5) Let_def by simp
  qed
  show ?thesis
  proof (cases "length ?b < 8 \<or> ?op > 6")
    case True
    then have "\<not> length ?b < 8 \<Longrightarrow> rpc_op_of ?op = None"
      using rpc_op_of_range [of ?op] by (cases "rpc_op_of ?op") auto
    with True err [of EPROTO] err [of EINVAL] show ?thesis
      by (auto simp: pr broker_spec_def)
  next
    case False
    then obtain t where t: "?op = rpc_op_code t"
      using rpc_op_of_range [of ?op] rpc_op_of_eq_Some by auto
    show ?thesis
    proof (cases "t = RPC_OP_SIGNAL")
      case True
      with False t safe refines_signal [OF assms(1-3) req(1,2) req(6,5)] show ?thesis
        by (simp add: pr broker_rpc_handle_one_def broker_rpc_handle_def broker_fault_def)
    next
      case nosig: False
      have "refines_spec ctx (bindR (broker_rpc_handle_one L (rpc_op_code t) req ctx)
          (error_reply L (Some r))) (broker_spec (cc_config ctx) (cc_rcid ctx) r f ?b)"
        using False nosig req t safe err [of EINVAL] send [of f None ctx ?b] send [of r "Some f" ctx ?b]
        by (cases t) (auto simp: broker_rpc_handle_one_def broker_rpc_handle_def log_forward_def
            broker_reader_send_def broker_client_send_def broker_spec_def broker_fault_def not_less)
      with False t show ?thesis by (simp add: pr)
    qed
  qed
qed

subsection \<open>Properties\<close>

text \<open>(C12) The broker implements its specification on every request the receive loop can hand
  it, whatever its bytes: client operations go to the reader named in the message, preceded by
  the client's identity; ENQUEUE and ACK replies go to the client; a SIGNAL of a reader of a
  configured MDT registers its identity at the first entry of that name, and one with an error
  removes the first entry holding the identity; requests that are too short, have no known
  operation or name an unknown MDT leave the table alone and are answered with one negative
  acknowledgement. The exceptions are the requests of \<open>broker_fault\<close>, in which forming a log message ends
  in a fault.\<close>

theorem broker_implements_spec:
  assumes "sends_ok L" "allocs_ok L" "broker_inv ctx" "req_ok LCAP_RECV_NONBLOCK req"
    and "lr_remote req = Some r" "lr_forward req = Some f" "ci_length r + 8 < 2 ^ 63"
  shows "case broker_fault (cc_config ctx) f (lr_body req) of
      Some e \<Rightarrow> \<exists>ctx'. lcapd_process_request L req ctx = Bad e ctx'
    | None \<Rightarrow> \<exists>ctx'. lcapd_process_request L req ctx = Ok 0 ctx' \<and>
        cc_config ctx' = cc_config ctx \<and>
        (cc_rcid ctx', snd (broker_spec (cc_config ctx) (cc_rcid ctx) r f (lr_body req))) =
          broker_spec (cc_config ctx) (cc_rcid ctx) r f (lr_body req) \<and>
        emits ctx ctx' (snd (broker_spec (cc_config ctx) (cc_rcid ctx) r f (lr_body req)))"
proof (cases "broker_fault (cc_config ctx) f (lr_body req)")
  case None
  with lcapd_process_request_refines [OF assms(1-3), of req r f] assms(4-7) show ?thesis
    by (auto simp: refines_spec_def req_ok_def)
next
  case (Some e)
  with lcapd_process_request_handled [OF assms(3,4,6), of L] show ?thesis by (auto simp: handled_def)
qed

definition demo_ctx :: lcap_ctx where
  "demo_ctx = \<lparr>w_log = [], w_errno = 0, w_in = [], cc_config = demo_cfg, cc_rdr_info = None,
     cc_zctx = True, cc_sock = True, cc_rcid = replicate 128 None\<rparr>"

lemma demo_ctx_inv: "broker_inv demo_ctx"
  by (simp add: broker_inv_def demo_ctx_def cfg_wf_def demo_cfg_def nth_Cons')

definition demo_dequeue :: lcapnet_request where
  "demo_dequeue = \<lparr>lr_flags = 0, lr_remote = Some (cid [5]), lr_forward = Some (cid [77, 48]),
     lr_body = enc_dequeue \<lparr>deq_hdr = mk_hdr RPC_OP_DEQUEUE\<rparr>, lr_body_len = 8\<rparr>"

lemma demo_dequeue_ok: "req_ok LCAP_RECV_NONBLOCK demo_dequeue"
  by (simp add: req_ok_def demo_dequeue_def flip: length_0_conv)

theorem broker_implements_spec_witness:
  "\<exists>ctx'. lcapd_process_request demo_libs demo_dequeue demo_ctx = Ok 0 ctx' \<and>
     cc_rcid ctx' = replicate 128 None \<and>
     emits demo_ctx ctx' [[[77, 48], [], [5], [], lr_body demo_dequeue]]"
proof -
  have op: "body_op (lr_body demo_dequeue) = 1" "length (lr_body demo_dequeue) = 8"
    using body_op_mk_hdr [of "lr_body demo_dequeue" RPC_OP_DEQUEUE]
    by (simp_all add: demo_dequeue_def)
  have "broker_spec (cc_config demo_ctx) (cc_rcid demo_ctx) (cid [5]) (cid [77, 48])
      (lr_body demo_dequeue) =
    (replicate 128 None, [[[77, 48], [], [5], [], lr_body demo_dequeue]])"
    by (simp add: broker_spec_def op rpc_expected_length_def peer_frames_def demo_ctx_def)
  moreover have "lr_remote demo_dequeue = Some (cid [5])" "lr_forward demo_dequeue = Some (cid [77, 48])"
    by (simp_all add: demo_dequeue_def)
  moreover have "broker_fault (cc_config demo_ctx) (cid [77, 48]) (lr_body demo_dequeue) = None"
    by (simp add: broker_fault_def op debug_logged_def demo_ctx_def demo_cfg_def)
  ultimately show ?thesis
    using broker_implements_spec [of demo_libs demo_ctx demo_dequeue "cid [5]" "cid [77, 48]"]
      demo_ctx_inv demo_dequeue_ok by auto
qed

text \<open>(C14) From a good table, whatever frames are waiting and however the libraries behave, the receive loop
  returns or waits for messages for ever, with a good table and the same configuration, or it ends in the fault of
  a request made of the waiting frames that \<open>broker_fault\<close> describes. No other message can make the broker
  fault or lose its invariant.\<close>

theorem broker_receive_safe:
  assumes "broker_inv ctx"
  shows "case lcap_rpc_recv L LCAP_RECV_NONBLOCK (lcapd_process_request L) ctx of
      Ok n ctx' \<Rightarrow> broker_inv ctx' \<and> cc_config ctx' = cc_config ctx \<and> 0 \<le> n
    | Bad e ctx' \<Rightarrow> (e = No_return \<and> LCAP_RECV_NONBLOCK AND ZMQ_DONTWAIT L = 0) \<or>
        (broker_inv ctx' \<and> (\<exists>req f. made_of (w_in ctx) req \<and> lr_forward req = Some f \<and>
           broker_fault (cc_config ctx) f (lr_body req) = Some e))"
  using broker.lcap_rpc_recv_served [of ctx "cc_config ctx" "w_in ctx" L] assms
  by (auto simp: broker.served_def broker_bad_def split: res.splits)

lemma length_request_remote:
  assumes "lr_remote (request_of True m) = Some r"
  shows "ci_length r \<le> length (concat m)"
proof -
  obtain g gs where g: "filter (\<lambda>f. f \<noteq> []) m = g # gs" "r = cid g"
    using assms by (cases "filter (\<lambda>f. f \<noteq> []) m") (auto simp: request_of_def Let_def)
  then have "g \<in> set m" by (metis filter_is_subset list.set_intros(1) subsetD)
  with g(2) show ?thesis by (auto dest!: split_list)
qed

text \<open>A name that fills its array and is no MDT's.\<close>

definition demo_signal :: bytes where
  "demo_signal = enc_signal \<lparr>sig_hdr = mk_hdr RPC_OP_SIGNAL, sig_ret = 0, sig_mdtname = replicate 128 7\<rparr>"

theorem broker_receive_safe_witness:
  "case lcap_rpc_recv demo_libs LCAP_RECV_NONBLOCK
       (lcapd_process_request demo_libs) (demo_ctx\<lparr>w_in := wire [[5], [6], demo_signal]\<rparr>) of
      Ok n ctx' \<Rightarrow> broker_inv ctx' \<and> 0 \<le> n
    | Bad e ctx' \<Rightarrow> e = No_return \<or>
       (\<exists>req f. made_of (wire [[5], [6], demo_signal]) req \<and> broker_fault demo_cfg f (lr_body req) = Some e)"
proof -
  have "broker_inv (demo_ctx\<lparr>w_in := wire [[5], [6], demo_signal]\<rparr>)" "cc_config demo_ctx = demo_cfg"
    using demo_ctx_inv by (simp_all add: broker_inv_def) (simp add: demo_ctx_def)
  from broker_receive_safe [OF this(1), of demo_libs] this(2) show ?thesis by (auto split: res.splits)
qed

text \<open>(C29) The broker asks for LCAP_RECV_NONBLOCK alone. Its value 2 reaches \<^verbatim>\<open>zmq_msg_recv\<close> unchanged, where
  ZMQ_DONTWAIT is 1: whatever complete messages are waiting that it survives, once it has served them all the
  broker's receive loop blocks instead of returning to the poll loop, when memory and its messages are accepted.\<close>

theorem broker_receive_blocks:
  assumes "ZMQ_DONTWAIT L = 1" "allocs_ok L" "sends_ok L" "broker_inv ctx"
    and msgs: "\<forall>m \<in> set msgs. m \<noteq> [] \<and> length (concat m) + 8 < 2 ^ 63"
    and safe: "\<forall>m \<in> set msgs. \<forall>f. lr_forward (request_of True m) = Some f \<longrightarrow>
      broker_fault (cc_config ctx) f (lr_body (request_of True m)) = None"
    and "w_in ctx = concat (map wire msgs)"
  shows "\<exists>t. lcap_rpc_recv L LCAP_RECV_NONBLOCK (lcapd_process_request L) ctx = Bad No_return t \<and> broker_inv t \<and> w_in t = []"
proof -
  let ?P = "\<lambda>t. broker_inv t \<and> cc_config t = cc_config ctx"
  have serve: "\<exists>rc t. lcapd_process_request L (request_of True m) s = Ok rc t \<and> 0 \<le> rc \<and> w_in t = w_in s \<and> ?P t"
    if m: "m \<in> set msgs" "lr_body (request_of True m) \<noteq> []" and s: "?P s" for m s
  proof -
    let ?req = "request_of True m"
    have ok: "req_ok LCAP_RECV_NONBLOCK ?req" by (rule request_of_req_ok [OF m(2)]) simp
    then obtain r f where ids: "lr_remote ?req = Some r" "wf_cid r" "lr_forward ?req = Some f" "wf_cid f"
        "lr_body_len ?req = length (lr_body ?req)" by (auto simp: req_ok_def)
    have len: "ci_length r + 8 < 2 ^ 63" using length_request_remote [OF ids(1)] msgs m(1) by force
    have none: "broker_fault (cc_config s) f (lr_body ?req) = None" using safe m(1) ids(3) s by simp
    have "broker_inv s" using s by blast
    from lcapd_process_request_refines [OF assms(3,2) this ids len none]
      lcapd_process_request_handled [OF this ok ids(3), of L] none s
    show ?thesis by (auto simp: refines_spec_def handled_def kept_ctx_def)
  qed
  have more: "?P t" if "?P s" "world.more t = world.more s" for s t :: lcap_ctx
    using that broker_inv_more [of s t] more_config [of t s] by simp
  have P: "?P ctx" using assms(4) by simp
  have "\<exists>t. lcap_rpc_recv L LCAP_RECV_NONBLOCK (lcapd_process_request L) ctx = Bad No_return t \<and> ?P t \<and> w_in t = []"
  proof (rule lcap_rpc_recv_blocks [where P = ?P and msgs = msgs])
    show "\<exists>rc t. lcapd_process_request L (request_of True m) s = Ok rc t \<and> 0 \<le> rc \<and> w_in t = w_in s \<and> ?P t"
      if "m \<in> set msgs" "lr_body (request_of True m) \<noteq> []" "?P s" for m s using that by (rule serve)
    show "?P t" if "?P s" "world.more t = world.more s" for s t :: lcap_ctx using that by (rule more)
  qed (use assms(1,2) msgs assms(7) P in simp_all)
  then show ?thesis by blast
qed

theorem broker_receive_blocks_witness:
  "\<exists>t. lcap_rpc_recv demo_libs LCAP_RECV_NONBLOCK (lcapd_process_request demo_libs)
     (demo_ctx\<lparr>w_in := wire [[5], [77, 48], lr_body demo_dequeue] @ wire [[6], [7]]\<rparr>) = Bad No_return t \<and> w_in t = []"
proof -
  let ?b = "lr_body demo_dequeue" and ?s = "demo_ctx\<lparr>w_in := wire [[5], [77, 48], lr_body demo_dequeue] @ wire [[6], [7]]\<rparr>"
  have b: "body_op ?b = 1" "length ?b = 8"
    using body_op_mk_hdr [of ?b RPC_OP_DEQUEUE] by (simp_all add: demo_dequeue_def)
  then have ne: "?b \<noteq> []" by auto
  have "broker_inv ?s" using demo_ctx_inv by (simp add: broker_inv_def)
  moreover have "broker_fault (cc_config ?s) f ?b = None" "broker_fault (cc_config ?s) f [] = None" for f
    using b by (simp_all add: broker_fault_def debug_logged_def demo_ctx_def demo_cfg_def)
  ultimately have "\<exists>t. lcap_rpc_recv demo_libs LCAP_RECV_NONBLOCK (lcapd_process_request demo_libs) ?s = Bad No_return t \<and>
      broker_inv t \<and> w_in t = []"
    using ne b(2)
    by (intro broker_receive_blocks [where msgs = "[[[5], [77, 48], ?b], [[6], [7]]]"])
      (auto simp: request_of_def body_of_def Let_def)
  then show ?thesis by blast
qed

end
