(* ===== verification/Queue.thy ===== *)
theory Queue
  imports Prelude
begin

text \<open>
  \<^verbatim>\<open>src/include/queue.h\<close>: the intrusive doubly linked list every component uses. Nodes live in
  a heap (a partial map from addresses); the operations follow and write \<^verbatim>\<open>ln_prev\<close> and
  \<^verbatim>\<open>ln_next\<close> pointer by pointer, and touching a node that is not in the heap is a fault.

  \<open>list_rep h l xs\<close> says that the header \<open>l\<close> and the heap \<open>h\<close> hold the sequence \<open>xs\<close> of
  node addresses. The operations refine the functions on sequences: \<open>list_append\<close> appends,
  \<open>list_remove\<close> is \<open>remove1\<close>, \<open>list_pop_head\<close> is \<open>tl\<close>, \<open>list_insert_before\<close> inserts before the
  given node and \<open>list_empty\<close> ends with the empty sequence. The interface the reader uses is
  the locale \<open>linked_list\<close>, interpreted here on these operations.
\<close>

subsection \<open>Structures and heap\<close>

record list_node =
  ln_prev :: ptr
  ln_next :: ptr

record list_hdr =
  l_count :: int
  l_first :: ptr
  l_last :: ptr

type_synonym nodes = "addr \<rightharpoonup> list_node"

definition EMPTY_LIST_INITIALIZER :: list_hdr where
  "EMPTY_LIST_INITIALIZER = \<lparr>l_count = 0, l_first = None, l_last = None\<rparr>"

definition get_node :: "addr \<Rightarrow> nodes \<Rightarrow> (list_node, nodes) res" where
  "get_node a h = (case h a of None \<Rightarrow> Bad Use_after_free h | Some n \<Rightarrow> Ok n h)"

definition upd_node :: "addr \<Rightarrow> (list_node \<Rightarrow> list_node) \<Rightarrow> nodes \<Rightarrow> (unit, nodes) res" where
  "upd_node a f h =
     (case h a of None \<Rightarrow> Bad Use_after_free h | Some n \<Rightarrow> Ok () (h(a \<mapsto> f n)))"

subsection \<open>Operations\<close>

definition list_append :: "list_hdr \<Rightarrow> addr \<Rightarrow> nodes \<Rightarrow> (list_hdr, nodes) res" where
  "list_append lst n h =
     bindR (case l_last lst of
              None \<Rightarrow> Ok () h
            | Some la \<Rightarrow> upd_node la (\<lambda>x. x\<lparr>ln_next := Some n\<rparr>) h) (\<lambda>_ h.
     bindR (upd_node n (\<lambda>x. x\<lparr>ln_prev := l_last lst, ln_next := None\<rparr>) h) (\<lambda>_ h.
     Ok (lst\<lparr>l_first := (if l_count lst = 0 then Some n else l_first lst),
             l_last := Some n, l_count := l_count lst + 1\<rparr>) h))"

definition list_remove :: "list_hdr \<Rightarrow> addr \<Rightarrow> nodes \<Rightarrow> (list_hdr, nodes) res" where
  "list_remove lst n h =
     bindR (get_node n h) (\<lambda>nd h.
     bindR (case ln_prev nd of
              Some p \<Rightarrow> bindR (upd_node p (\<lambda>x. x\<lparr>ln_next := ln_next nd\<rparr>) h) (\<lambda>_ h. Ok lst h)
            | None \<Rightarrow> Ok (lst\<lparr>l_first := ln_next nd\<rparr>) h) (\<lambda>lst h.
     bindR (case ln_next nd of
              Some q \<Rightarrow> bindR (upd_node q (\<lambda>x. x\<lparr>ln_prev := ln_prev nd\<rparr>) h) (\<lambda>_ h. Ok lst h)
            | None \<Rightarrow> Ok (lst\<lparr>l_last := ln_prev nd\<rparr>) h) (\<lambda>lst h.
     bindR (upd_node n (\<lambda>x. x\<lparr>ln_prev := None, ln_next := None\<rparr>) h) (\<lambda>_ h.
     Ok (lst\<lparr>l_count := l_count lst - 1\<rparr>) h))))"

definition list_pop_head :: "list_hdr \<Rightarrow> nodes \<Rightarrow> (ptr \<times> list_hdr, nodes) res" where
  "list_pop_head lst h =
     (case l_first lst of
        None \<Rightarrow> Ok (None, lst) h
      | Some n \<Rightarrow>
          bindR (get_node n h) (\<lambda>nd h.
          bindR (case ln_next nd of
                   None \<Rightarrow> Ok () h
                 | Some q \<Rightarrow> upd_node q (\<lambda>x. x\<lparr>ln_prev := None\<rparr>) h) (\<lambda>_ h.
          bindR (upd_node n (\<lambda>x. x\<lparr>ln_prev := None, ln_next := None\<rparr>) h) (\<lambda>_ h.
          Ok (Some n,
              lst\<lparr>l_first := ln_next nd, l_count := l_count lst - 1,
                  l_last := (if l_count lst - 1 = 1 \<or> l_count lst - 1 = 0
                             then ln_next nd else l_last lst)\<rparr>) h))))"

definition list_insert_before ::
    "list_hdr \<Rightarrow> addr \<Rightarrow> addr \<Rightarrow> nodes \<Rightarrow> (list_hdr, nodes) res" where
  "list_insert_before lst n ins h =
     bindR (get_node n h) (\<lambda>nd h.
     bindR (upd_node ins (\<lambda>x. x\<lparr>ln_prev := ln_prev nd, ln_next := Some n\<rparr>) h) (\<lambda>_ h.
     bindR (case ln_prev nd of
              Some p \<Rightarrow> bindR (upd_node p (\<lambda>x. x\<lparr>ln_next := Some ins\<rparr>) h) (\<lambda>_ h. Ok lst h)
            | None \<Rightarrow> Ok (lst\<lparr>l_first := Some ins\<rparr>) h) (\<lambda>lst h.
     bindR (upd_node n (\<lambda>x. x\<lparr>ln_prev := Some ins\<rparr>) h) (\<lambda>_ h.
     Ok (lst\<lparr>l_count := l_count lst + 1\<rparr>) h))))"

text \<open>
  \<^verbatim>\<open>list_empty\<close> pops while the count is positive. On a list whose count and nodes disagree
  \<^verbatim>\<open>list_pop_head\<close> returns NULL and leaves the count, so the C loop would not end: the fuel is
  the initial count, which a pop decreases by one, and running out is \<open>No_return\<close>.
\<close>

fun list_empty_loop :: "nat \<Rightarrow> list_hdr \<Rightarrow> nodes \<Rightarrow> (list_hdr, nodes) res" where
  "list_empty_loop fuel lst h =
     (if l_count lst \<le> 0 then Ok lst h
      else case fuel of
             0 \<Rightarrow> Bad No_return h
           | Suc k \<Rightarrow> bindR (list_pop_head lst h) (\<lambda>(_, lst) h. list_empty_loop k lst h))"

declare list_empty_loop.simps [simp del]

definition list_empty :: "list_hdr \<Rightarrow> nodes \<Rightarrow> (list_hdr, nodes) res" where
  "list_empty lst h = list_empty_loop (nat (l_count lst)) lst h"

subsection \<open>What a list in memory holds\<close>

definition head_or :: "addr list \<Rightarrow> ptr \<Rightarrow> ptr" where
  "head_or xs q = (case xs of [] \<Rightarrow> q | x # _ \<Rightarrow> Some x)"

definition last_or :: "addr list \<Rightarrow> ptr \<Rightarrow> ptr" where
  "last_or xs p = (if xs = [] then p else Some (last xs))"

lemma head_or_simps [simp]: "head_or [] q = q" "head_or (x # xs) q = Some x"
  by (simp_all add: head_or_def)

lemma last_or_simps [simp]: "last_or [] p = p" "last_or (x # xs) p = last_or xs (Some x)"
  "last_or (xs @ [y]) p = Some y"
  by (simp_all add: last_or_def)

lemma head_or_append: "head_or (xs @ ys) q = head_or xs (head_or ys q)"
  by (cases xs) simp_all

lemma last_or_append [simp]: "last_or (xs @ ys) p = last_or ys (last_or xs p)"
  by (auto simp: last_or_def)

lemma last_or_eq_Some: "xs \<noteq> [] \<Longrightarrow> last_or xs p = Some (last xs)"
  by (simp add: last_or_def)

lemma head_or_eq_Some: "xs \<noteq> [] \<Longrightarrow> head_or xs q = Some (hd xs)"
  by (cases xs) simp_all

lemma list_node_upd_both [simp]:
  "(x :: list_node)\<lparr>ln_prev := p, ln_next := q\<rparr> = \<lparr>ln_prev = p, ln_next = q\<rparr>"
  by (cases x) simp

text \<open>A segment: \<open>p\<close> before its first node, \<open>q\<close> after its last one.\<close>

primrec dseg :: "nodes \<Rightarrow> ptr \<Rightarrow> addr list \<Rightarrow> ptr \<Rightarrow> bool" where
  "dseg h p [] q \<longleftrightarrow> True"
| "dseg h p (x # xs) q \<longleftrightarrow>
     h x = Some \<lparr>ln_prev = p, ln_next = head_or xs q\<rparr> \<and> dseg h (Some x) xs q"

lemma dseg_append:
  "dseg h p (xs @ ys) q \<longleftrightarrow> dseg h p xs (head_or ys q) \<and> dseg h (last_or xs p) ys q"
  by (induction xs arbitrary: p) (auto simp: head_or_append)

lemma dseg_upd [simp]: "a \<notin> set xs \<Longrightarrow> dseg (h(a := v)) p xs q = dseg h p xs q"
  by (induction xs arbitrary: p) auto

lemma dseg_cong: "(\<And>a. a \<in> set xs \<Longrightarrow> h a = h' a) \<Longrightarrow> dseg h p xs q = dseg h' p xs q"
  by (induction xs arbitrary: p) auto

lemma dseg_dom: "dseg h p xs q \<Longrightarrow> set xs \<subseteq> dom h"
  by (induction xs arbitrary: p) auto

text \<open>Rewriting the two ends of a segment.\<close>

lemma dseg_set_next:
  assumes "dseg h p (xs @ [x]) q" "x \<notin> set xs"
  shows "dseg (h(x \<mapsto> \<lparr>ln_prev = last_or xs p, ln_next = q'\<rparr>)) p (xs @ [x]) q'"
  using assms by (auto simp: dseg_append)

lemma dseg_set_prev:
  assumes "dseg h p (x # xs) q" "x \<notin> set xs"
  shows "dseg (h(x \<mapsto> \<lparr>ln_prev = p', ln_next = head_or xs q\<rparr>)) p' (x # xs) q"
  using assms by auto

definition list_rep :: "nodes \<Rightarrow> list_hdr \<Rightarrow> addr list \<Rightarrow> bool" where
  "list_rep h lst xs \<longleftrightarrow>
     distinct xs \<and> l_count lst = int (length xs) \<and>
     l_first lst = head_or xs None \<and> l_last lst = last_or xs None \<and> dseg h None xs None"

lemma list_rep_empty [simp]: "list_rep h EMPTY_LIST_INITIALIZER []"
  by (simp add: list_rep_def EMPTY_LIST_INITIALIZER_def)

lemma list_rep_cong: "(\<And>a. a \<in> set xs \<Longrightarrow> h a = h' a) \<Longrightarrow> list_rep h lst xs = list_rep h' lst xs"
  using dseg_cong [of xs h h'] by (simp add: list_rep_def)

lemma list_rep_upd [simp]: "a \<notin> set xs \<Longrightarrow> list_rep (h(a := v)) lst xs = list_rep h lst xs"
  by (simp add: list_rep_def)

lemma list_rep_distinct: "list_rep h lst xs \<Longrightarrow> distinct xs"
  by (simp add: list_rep_def)

lemma list_rep_dom: "list_rep h lst xs \<Longrightarrow> set xs \<subseteq> dom h"
  unfolding list_rep_def using dseg_dom by blast

lemma list_rep_first: "list_rep h lst xs \<Longrightarrow> l_first lst = head_or xs None"
  by (simp add: list_rep_def)

lemma list_rep_node:
  "list_rep h lst (as @ x # bs) \<Longrightarrow>
     h x = Some \<lparr>ln_prev = last_or as None, ln_next = head_or bs None\<rparr>"
  by (auto simp: list_rep_def dseg_append)

subsection \<open>The operations refine the functions on sequences\<close>

text \<open>What an operation leaves alone: every node outside the list it works on.\<close>

definition frame :: "addr set \<Rightarrow> nodes \<Rightarrow> nodes \<Rightarrow> bool" where
  "frame A h h' \<longleftrightarrow> dom h' = dom h \<and> (\<forall>a. a \<notin> A \<longrightarrow> h' a = h a)"

lemma frameD: "frame A h h' \<Longrightarrow> a \<notin> A \<Longrightarrow> h' a = h a"
  by (simp add: frame_def)

lemma frame_dom: "frame A h h' \<Longrightarrow> dom h' = dom h"
  by (simp add: frame_def)

lemma frame_list_rep:
  "frame A h h' \<Longrightarrow> set ys \<inter> A = {} \<Longrightarrow> list_rep h lst ys \<Longrightarrow> list_rep h' lst ys"
  using list_rep_cong [of ys h' h lst] by (metis disjoint_iff frameD)

lemma list_append_rep:
  assumes rep: "list_rep h lst xs" and n: "n \<notin> set xs" "n \<in> dom h"
  shows "\<exists>lst' h'. list_append lst n h = Ok lst' h' \<and> list_rep h' lst' (xs @ [n])
           \<and> frame (insert n (set xs)) h h'"
proof (cases xs rule: rev_cases)
  case Nil
  with rep n show ?thesis
    by (auto simp: list_rep_def list_append_def upd_node_def frame_def)
next
  case (snoc ys y)
  let ?h1 = "h(y \<mapsto> \<lparr>ln_prev = last_or ys None, ln_next = Some n\<rparr>)"
  let ?h2 = "?h1(n \<mapsto> \<lparr>ln_prev = Some y, ln_next = None\<rparr>)"
  let ?lst = "lst\<lparr>l_last := Some n, l_count := l_count lst + 1\<rparr>"
  from rep snoc have y: "h y = Some \<lparr>ln_prev = last_or ys None, ln_next = None\<rparr>"
    and seg: "dseg h None (ys @ [y]) None" and d: "distinct (ys @ [y])"
    by (auto simp: list_rep_def dseg_append)
  have "dseg ?h1 None (ys @ [y]) (Some n)"
    using seg d by (intro dseg_set_next) auto
  then have "dseg ?h2 None (ys @ [y]) (Some n)"
    using n snoc by (simp del: fun_upd_apply)
  then have "dseg ?h2 None ((ys @ [y]) @ [n]) None"
    unfolding dseg_append by simp
  then have "list_rep ?h2 ?lst (xs @ [n])"
    using rep n snoc by (auto simp: list_rep_def head_or_append)
  moreover have "list_append lst n h = Ok ?lst ?h2"
    using rep n snoc y by (auto simp: list_rep_def list_append_def upd_node_def)
  moreover have "frame (insert n (set xs)) h ?h2"
    using n snoc y by (auto simp: frame_def)
  ultimately show ?thesis by blast
qed

text \<open>Unlinking a node joins the segments before and after it.\<close>

lemma dseg_unlink:
  assumes "dseg h p (as @ x # bs) q" "distinct (as @ x # bs)"
    and h': "\<And>a. a \<in> set as \<Longrightarrow> h' a =
      (if Some a = last_or as None then map_option (ln_next_update (\<lambda>_. head_or bs q)) (h a) else h a)"
    and h'': "\<And>a. a \<in> set bs \<Longrightarrow> h' a =
      (if Some a = head_or bs None then map_option (ln_prev_update (\<lambda>_. last_or as p)) (h a) else h a)"
  shows "dseg h' p (as @ bs) q"
proof -
  have as: "dseg h' p as (head_or bs q)"
  proof (cases as rule: rev_cases)
    case (snoc cs c)
    with assms(1,2) have c: "h c = Some \<lparr>ln_prev = last_or cs p, ln_next = Some x\<rparr>"
      and cs: "dseg h p cs (Some c)" and d: "c \<notin> set cs"
      by (auto simp: dseg_append)
    have "dseg h' p cs (Some c) = dseg h p cs (Some c)"
      using d snoc h' by (intro dseg_cong) auto
    with cs c snoc h' [of c] show ?thesis by (simp add: dseg_append)
  qed simp
  have bs: "dseg h' (last_or as p) bs q"
  proof (cases bs)
    case (Cons d ds)
    with assms(1,2) have d: "h d = Some \<lparr>ln_prev = Some x, ln_next = head_or ds q\<rparr>"
      and ds: "dseg h (Some d) ds q" and nd: "d \<notin> set ds"
      by (auto simp: dseg_append)
    have "dseg h' (Some d) ds q = dseg h (Some d) ds q"
      using nd Cons h'' by (intro dseg_cong) auto
    with ds d Cons h'' [of d] show ?thesis by simp
  qed simp
  from as bs show ?thesis by (simp add: dseg_append)
qed

lemma list_remove_rep:
  assumes rep: "list_rep h lst (as @ n # bs)"
  shows "\<exists>lst' h'. list_remove lst n h = Ok lst' h' \<and> list_rep h' lst' (as @ bs)
           \<and> h' n = Some \<lparr>ln_prev = None, ln_next = None\<rparr>
           \<and> frame (set (as @ n # bs)) h h'"
proof -
  define h1 where "h1 = (case last_or as None of None \<Rightarrow> h
     | Some p \<Rightarrow> h(p := map_option (ln_next_update (\<lambda>_. head_or bs None)) (h p)))"
  define h2 where "h2 = (case head_or bs None of None \<Rightarrow> h1
     | Some q \<Rightarrow> h1(q := map_option (ln_prev_update (\<lambda>_. last_or as None)) (h1 q)))"
  define h3 where "h3 = h2(n \<mapsto> \<lparr>ln_prev = None, ln_next = None\<rparr>)"
  define lst' where "lst' = \<lparr>l_count = l_count lst - 1, l_first = head_or (as @ bs) None,
     l_last = last_or (as @ bs) None\<rparr>"
  note defs = h1_def h2_def h3_def
  have d: "distinct (as @ n # bs)" and seg: "dseg h None (as @ n # bs) None"
    and dom: "set (as @ n # bs) \<subseteq> dom h"
    using rep list_rep_dom [OF rep] by (auto simp: list_rep_def)
  have last_as: "last_or as None = Some p \<Longrightarrow> p \<in> set as" for p
    by (auto simp: last_or_def split: if_splits)
  have head_bs: "head_or bs None = Some q \<Longrightarrow> q \<in> set bs" for q
    by (cases bs) auto
  have node: "h n = Some \<lparr>ln_prev = last_or as None, ln_next = head_or bs None\<rparr>"
    by (rule list_rep_node [OF rep])
  have "dseg h3 None (as @ bs) None"
    by (rule dseg_unlink [OF seg d])
      (use d last_as head_bs in \<open>auto simp: defs split: option.splits\<close>)
  then have "list_rep h3 lst' (as @ bs)"
    using rep d by (simp add: list_rep_def lst'_def)
  moreover have "frame (set (as @ n # bs)) h h3"
    using dom node last_as head_bs
    by (fastforce simp: frame_def defs split: option.splits)
  moreover have "list_remove lst n h = Ok lst' h3"
    using rep d node dom
    by (cases as rule: rev_cases; cases bs)
      (auto simp: list_rep_def list_remove_def get_node_def upd_node_def defs lst'_def
        head_or_append)
  ultimately show ?thesis by (auto simp: h3_def)
qed

lemma list_pop_head_nil: "list_rep h lst [] \<Longrightarrow> list_pop_head lst h = Ok (None, lst) h"
  by (simp add: list_rep_def list_pop_head_def)

lemma list_pop_head_rep:
  assumes rep: "list_rep h lst (x # xs)"
  shows "\<exists>lst' h'. list_pop_head lst h = Ok (Some x, lst') h' \<and> list_rep h' lst' xs
           \<and> h' x = Some \<lparr>ln_prev = None, ln_next = None\<rparr> \<and> frame (set (x # xs)) h h'"
proof (cases xs)
  case Nil
  with rep show ?thesis
    by (auto simp: list_rep_def list_pop_head_def get_node_def upd_node_def frame_def)
next
  case (Cons y ys)
  let ?h1 = "h(y \<mapsto> \<lparr>ln_prev = None, ln_next = head_or ys None\<rparr>)"
  let ?h2 = "?h1(x \<mapsto> \<lparr>ln_prev = None, ln_next = None\<rparr>)"
  let ?lst = "\<lparr>l_count = l_count lst - 1, l_first = Some y, l_last = last_or xs None\<rparr>"
  from rep Cons have nodes: "h x = Some \<lparr>ln_prev = None, ln_next = Some y\<rparr>"
      "h y = Some \<lparr>ln_prev = Some x, ln_next = head_or ys None\<rparr>"
    and seg: "dseg h (Some x) (y # ys) None" and d: "distinct (x # y # ys)"
    by (auto simp: list_rep_def)
  have "dseg ?h2 None xs None"
    using dseg_set_prev [OF seg, of None] d Cons by simp
  then have "list_rep ?h2 ?lst xs"
    using rep d Cons by (simp add: list_rep_def)
  moreover have "list_pop_head lst h = Ok (Some x, ?lst) ?h2"
    using rep d Cons nodes
    by (cases ys) (auto simp: list_rep_def list_pop_head_def get_node_def upd_node_def)
  moreover have "frame (set (x # xs)) h ?h2"
    using Cons nodes by (auto simp: frame_def)
  ultimately show ?thesis by auto
qed

lemma list_insert_before_rep:
  assumes rep: "list_rep h lst (as @ n # bs)"
    and i: "i \<notin> set (as @ n # bs)" "i \<in> dom h"
  shows "\<exists>lst' h'. list_insert_before lst n i h = Ok lst' h' \<and> list_rep h' lst' (as @ i # n # bs)
           \<and> frame (insert i (set (as @ n # bs))) h h'"
proof -
  define h1 where "h1 = h(i \<mapsto> \<lparr>ln_prev = last_or as None, ln_next = Some n\<rparr>)"
  define h2 where "h2 = (case last_or as None of None \<Rightarrow> h1
     | Some p \<Rightarrow> h1(p := map_option (ln_next_update (\<lambda>_. Some i)) (h1 p)))"
  define h3 where "h3 = h2(n \<mapsto> \<lparr>ln_prev = Some i, ln_next = head_or bs None\<rparr>)"
  define lst' where "lst' = \<lparr>l_count = l_count lst + 1, l_first = head_or (as @ [i]) None,
     l_last = last_or (n # bs) None\<rparr>"
  note defs = h1_def h2_def h3_def
  have d: "distinct (as @ n # bs)" and seg: "dseg h None (as @ n # bs) None"
    and dom: "set (as @ n # bs) \<subseteq> dom h"
    using rep list_rep_dom [OF rep] by (auto simp: list_rep_def)
  have node: "h n = Some \<lparr>ln_prev = last_or as None, ln_next = head_or bs None\<rparr>"
    by (rule list_rep_node [OF rep])
  have seg3: "dseg h3 None (as @ i # n # bs) None"
    using seg d i
    by (cases as rule: rev_cases) (auto simp: dseg_append defs head_or_append)
  have "list_rep h3 lst' (as @ i # n # bs)"
    using rep d i seg3 by (simp add: list_rep_def lst'_def head_or_append)
  moreover have "frame (insert i (set (as @ n # bs))) h h3"
    using dom node i
    by (cases as rule: rev_cases) (fastforce simp: frame_def defs)+
  moreover have "list_insert_before lst n i h = Ok lst' h3"
    using rep d node dom i
    by (cases as rule: rev_cases)
      (auto simp: list_rep_def list_insert_before_def get_node_def upd_node_def defs lst'_def
        head_or_append)
  ultimately show ?thesis by auto
qed

lemma list_empty_loop_rep:
  "list_rep h lst xs \<Longrightarrow>
     \<exists>lst' h'. list_empty_loop (length xs) lst h = Ok lst' h' \<and> list_rep h' lst' []
        \<and> frame (set xs) h h'"
proof (induction xs arbitrary: h lst)
  case Nil
  then show ?case by (simp add: list_empty_loop.simps list_rep_def frame_def)
next
  case (Cons x xs)
  from list_pop_head_rep [OF Cons.prems] obtain lst1 h1
    where pop: "list_pop_head lst h = Ok (Some x, lst1) h1" and rep1: "list_rep h1 lst1 xs"
      and fr: "frame (set (x # xs)) h h1" by blast
  from Cons.IH [OF rep1] obtain lst' h' where
    "list_empty_loop (length xs) lst1 h1 = Ok lst' h'" "list_rep h' lst' []"
    "frame (set xs) h1 h'" by blast
  moreover have "l_count lst > 0" using Cons.prems by (simp add: list_rep_def)
  ultimately show ?case
    using pop fr by (subst list_empty_loop.simps) (auto simp: frame_def)
qed

subsection \<open>The interface the clients of the list use\<close>

text \<open>
  A client holds a header and a heap, appends live nodes that are not yet linked, unlinks
  linked ones and follows \<^verbatim>\<open>ln_next\<close>.
\<close>

locale linked_list =
  fixes rep :: "'h \<Rightarrow> 'l \<Rightarrow> addr list \<Rightarrow> bool"
    and live :: "'h \<Rightarrow> addr set"
    and same_outside :: "addr set \<Rightarrow> 'h \<Rightarrow> 'h \<Rightarrow> bool"
    and append :: "'l \<Rightarrow> addr \<Rightarrow> 'h \<Rightarrow> ('l, 'h) res"
    and remove :: "'l \<Rightarrow> addr \<Rightarrow> 'h \<Rightarrow> ('l, 'h) res"
  assumes rep_distinct: "rep h l xs \<Longrightarrow> distinct xs"
    and rep_live: "rep h l xs \<Longrightarrow> set xs \<subseteq> live h"
    and append_spec: "rep h l xs \<Longrightarrow> n \<notin> set xs \<Longrightarrow> n \<in> live h \<Longrightarrow>
      \<exists>l' h'. append l n h = Ok l' h' \<and> rep h' l' (xs @ [n]) \<and> same_outside (insert n (set xs)) h h'"
    and remove_spec: "rep h l (as @ n # bs) \<Longrightarrow>
      \<exists>l' h'. remove l n h = Ok l' h' \<and> rep h' l' (as @ bs) \<and> same_outside (set (as @ n # bs)) h h'"
    and outside_live: "same_outside A h h' \<Longrightarrow> live h' = live h"
    and outside_rep: "same_outside A h h' \<Longrightarrow> set ys \<inter> A = {} \<Longrightarrow> rep h l ys \<Longrightarrow> rep h' l ys"
begin

text \<open>Removal by value, as the callers do it.\<close>

lemma remove_member:
  assumes rep: "rep h l xs" and n: "n \<in> set xs"
  shows "\<exists>l' h'. remove l n h = Ok l' h' \<and> rep h' l' (remove1 n xs) \<and> same_outside (set xs) h h'"
proof -
  from n obtain as bs where xs: "xs = as @ n # bs" by (meson split_list)
  have "n \<notin> set as" using rep_distinct [OF rep] xs by auto
  then have "remove1 n xs = as @ bs" using xs by (simp add: remove1_append)
  with remove_spec [of h l as n bs] rep xs show ?thesis by simp
qed

text \<open>Removing what was just appended gives the list back.\<close>

lemma append_remove:
  assumes rep: "rep h l xs" and n: "n \<notin> set xs" "n \<in> live h"
  shows "\<exists>l' h'. bindR (append l n h) (\<lambda>l h. remove l n h) = Ok l' h' \<and> rep h' l' xs"
proof -
  from append_spec [OF rep n] obtain l1 h1
    where app: "append l n h = Ok l1 h1" and rep1: "rep h1 l1 (xs @ [n])" by blast
  from remove_member [OF rep1, of n] n app show ?thesis by (auto simp: remove1_append)
qed

text \<open>Two lists in one heap do not disturb each other.\<close>

lemma append_other:
  assumes "rep h l xs" "rep h m ys" "set xs \<inter> set ys = {}" "n \<in> live h" "n \<notin> set xs" "n \<notin> set ys"
  shows "\<exists>l' h'. append l n h = Ok l' h' \<and> rep h' l' (xs @ [n]) \<and> rep h' m ys \<and> live h' = live h"
proof -
  from append_spec [OF assms(1,5,4)] obtain l' h'
    where 1: "append l n h = Ok l' h'" "rep h' l' (xs @ [n])"
      and fr: "same_outside (insert n (set xs)) h h'" by blast
  have "rep h' m ys" using outside_rep [OF fr _ assms(2)] assms(3,6) by blast
  with 1 outside_live [OF fr] show ?thesis by blast
qed

lemma remove_other:
  assumes "rep h l xs" "rep h m ys" "set xs \<inter> set ys = {}" "n \<in> set xs"
  shows "\<exists>l' h'. remove l n h = Ok l' h' \<and> rep h' l' (remove1 n xs) \<and> rep h' m ys \<and> live h' = live h"
proof -
  from remove_member [OF assms(1,4)] obtain l' h'
    where 1: "remove l n h = Ok l' h'" "rep h' l' (remove1 n xs)"
      and fr: "same_outside (set xs) h h'" by blast
  have "rep h' m ys" using outside_rep [OF fr _ assms(2)] assms(3) by blast
  with 1 outside_live [OF fr] show ?thesis by blast
qed

end

interpretation dl: linked_list list_rep dom frame list_append list_remove
proof unfold_locales
  show "\<exists>l' h'. list_remove l n h = Ok l' h' \<and> list_rep h' l' (as @ bs)
      \<and> frame (set (as @ n # bs)) h h'" if "list_rep h l (as @ n # bs)" for h l as n bs
    using list_remove_rep [OF that] by blast
qed (fact list_rep_distinct list_rep_dom list_append_rep frame_dom frame_list_rep)+

subsection \<open>Properties\<close>

definition demo_nodes :: nodes where
  "demo_nodes = [1 \<mapsto> \<lparr>ln_prev = None, ln_next = Some 2\<rparr>, 2 \<mapsto> \<lparr>ln_prev = Some 1, ln_next = None\<rparr>,
     3 \<mapsto> \<lparr>ln_prev = None, ln_next = None\<rparr>]"

definition demo_list :: list_hdr where
  "demo_list = \<lparr>l_count = 2, l_first = Some 1, l_last = Some 2\<rparr>"

lemma demo_list_rep: "list_rep demo_nodes demo_list [1, 2]" "3 \<in> dom demo_nodes"
  by (simp_all add: list_rep_def demo_nodes_def demo_list_def)

text \<open>(C39) \<^verbatim>\<open>list_append\<close> on a well-formed list and a live node that is not on it succeeds and
  appends the node, and \<^verbatim>\<open>list_remove\<close> then gives a list with the elements it had before; another
  list in the same memory is not disturbed by either.\<close>

theorem append_remove_round_trip:
  assumes "list_rep h l xs" "list_rep h m ys" "set xs \<inter> set ys = {}"
    and "n \<in> dom h" "n \<notin> set xs" "n \<notin> set ys"
  shows "\<exists>l' h'. list_append l n h = Ok l' h' \<and> list_rep h' l' (xs @ [n]) \<and> list_rep h' m ys \<and>
    (\<exists>l'' h''. list_remove l' n h' = Ok l'' h'' \<and> list_rep h'' l'' xs \<and> list_rep h'' m ys)"
proof -
  from dl.append_other [OF assms] obtain l' h' where
    app: "list_append l n h = Ok l' h'" "list_rep h' l' (xs @ [n])" "list_rep h' m ys" by blast
  moreover have "set (xs @ [n]) \<inter> set ys = {}" using assms(3,6) by auto
  moreover have "remove1 n (xs @ [n]) = xs" using assms(5) by (simp add: remove1_append)
  ultimately show ?thesis
    using dl.remove_other [OF app(2,3), of n] by auto
qed

theorem append_remove_round_trip_witness:
  "\<exists>l' h'. list_append demo_list 3 demo_nodes = Ok l' h' \<and> list_rep h' l' [1, 2, 3] \<and>
     (\<exists>l'' h''. list_remove l' 3 h' = Ok l'' h'' \<and> list_rep h'' l'' [1, 2])"
  using append_remove_round_trip [OF demo_list_rep(1) list_rep_empty _ demo_list_rep(2)] by auto

text \<open>\<^verbatim>\<open>list_remove\<close> of any element, first, middle or last, succeeds, leaves the others in order,
  clears the links of the removed node and writes no node outside the list.\<close>

theorem list_remove_unlinks:
  assumes "list_rep h l (as @ n # bs)"
  shows "\<exists>l' h'. list_remove l n h = Ok l' h' \<and> list_rep h' l' (as @ bs) \<and>
    h' n = Some \<lparr>ln_prev = None, ln_next = None\<rparr> \<and> (\<forall>a. a \<notin> set (as @ n # bs) \<longrightarrow> h' a = h a)"
  using list_remove_rep [OF assms] by (auto simp: frame_def)

theorem list_remove_unlinks_witness:
  "\<exists>l' h'. list_remove demo_list 1 demo_nodes = Ok l' h' \<and> list_rep h' l' [2] \<and>
     h' 1 = Some \<lparr>ln_prev = None, ln_next = None\<rparr> \<and> h' 3 = demo_nodes 3"
  using list_remove_unlinks [of demo_nodes demo_list "[]" 1 "[2]"] demo_list_rep by auto

text \<open>The list is a queue: \<^verbatim>\<open>list_pop_head\<close> takes the first element off a list that is not empty
  and returns NULL on an empty one, and \<^verbatim>\<open>list_empty\<close>, whose loop pops while the count is
  positive, ends with the empty list.\<close>

theorem list_pop_and_empty:
  assumes "list_rep h l xs"
  shows "(\<exists>l' h'. list_pop_head l h = Ok (head_or xs None, l') h' \<and> list_rep h' l' (tl xs)) \<and>
    (\<exists>l' h'. list_empty l h = Ok l' h' \<and> list_rep h' l' [] \<and> l_count l' = 0)"
proof -
  have "\<exists>l' h'. list_pop_head l h = Ok (head_or xs None, l') h' \<and> list_rep h' l' (tl xs)"
  proof (cases xs)
    case Nil
    with assms show ?thesis by (auto simp: list_pop_head_def list_rep_def)
  next
    case (Cons x ys)
    with assms list_pop_head_rep [of h l x ys] show ?thesis by auto
  qed
  moreover have "nat (l_count l) = length xs" using assms by (simp add: list_rep_def)
  ultimately show ?thesis
    using list_empty_loop_rep [OF assms] by (auto simp: list_empty_def list_rep_def)
qed

theorem list_pop_and_empty_witness:
  "(\<exists>l' h'. list_pop_head demo_list demo_nodes = Ok (Some 1, l') h' \<and> list_rep h' l' [2]) \<and>
   (\<exists>l' h'. list_empty demo_list demo_nodes = Ok l' h' \<and> l_count l' = 0)"
  using list_pop_and_empty [OF demo_list_rep(1)] by auto

end
