(* ===== verification/Reader.thy ===== *)
theory Reader
  imports Broker Queue
begin

text \<open>
  \<^verbatim>\<open>src/lcapd/reader.c\<close>: the thread that reads the changelog records of one MDT into buckets
  and serves them to clients. This theory holds its state and every operation, in the order of
  the source.

  Buckets and client states are heap objects. Their list nodes are in \<open>m_nodes\<close>, under the
  address of the object that embeds them (\<^verbatim>\<open>container_of\<close> is the identity on addresses), so the
  operations of \<open>Queue\<close> apply to them as they are; their other fields are in \<open>m_bkts\<close> and
  \<open>m_clients\<close>. \<^verbatim>\<open>free\<close> removes an object; reading or writing it afterwards is the fault
  \<open>Use_after_free\<close>. Addresses are never given out twice. A record is the byte region it occupies,
  read through the accessors of the Lustre headers (fields of \<open>libs\<close>). A log message has no
  effect on the reader and is left out, but for the two whose arguments may not be readable:
  the name of an identity that could not be set (\<open>changelog_reader_init\<close>), and the operation
  of a request shorter than an operation code (\<open>log_op\<close>).

  Walks along \<^verbatim>\<open>ln_next\<close> take as fuel the number of addresses given out: a longer walk would
  visit a node twice and never end.
\<close>

subsection \<open>State\<close>

record lcap_rec_bucket =
  lrb_index :: int
  lrb_expiry :: timespec
  lrb_ready :: bool
  lrb_size :: nat
  lrb_rec_count :: int
  lrb_records :: "bytes option list" \<comment> \<open>the flexible array of record pointers\<close>

record reader_stats =
  rs_start_time :: timeval
  rs_rec_read :: int
  rs_rec_sent :: int

record client_state =
  cs_start :: int
  cs_bucket :: ptr
  cs_ident :: "conn_id option"

record reader_env = world +
  re_cfg :: lcap_cfg
  re_clpriv :: bool \<comment> \<open>not NULL\<close>
  re_zctx :: bool \<comment> \<open>not NULL\<close>
  re_sock :: bool \<comment> \<open>not NULL\<close>
  re_ident :: "conn_id option"
  re_stats :: reader_stats
  re_index :: nat
  re_srec :: "64 word"
  re_bkt_idx :: int
  re_rec_cnt :: int
  re_current_open :: ptr
  re_deliver_next :: ptr
  re_cleanup_next :: ptr
  re_buckets :: list_hdr
  re_peers :: list_hdr
  m_nodes :: nodes
  m_bkts :: "addr \<rightharpoonup> lcap_rec_bucket"
  m_clients :: "addr \<rightharpoonup> client_state"
  m_brk :: addr \<comment> \<open>the next address to give out\<close>
  m_changelog :: "(int + bytes) list" \<comment> \<open>what \<^verbatim>\<open>llapi_changelog_recv\<close> will return\<close>

type_synonym 'a reader_op = "reader_env \<Rightarrow> ('a, reader_env) res"

text \<open>Memory accesses.\<close>

definition get_bkt :: "addr \<Rightarrow> lcap_rec_bucket reader_op" where
  "get_bkt a s = (case m_bkts s a of None \<Rightarrow> Bad Use_after_free s | Some b \<Rightarrow> Ok b s)"

definition upd_bkt :: "addr \<Rightarrow> (lcap_rec_bucket \<Rightarrow> lcap_rec_bucket) \<Rightarrow> unit reader_op" where
  "upd_bkt a f s =
     (case m_bkts s a of None \<Rightarrow> Bad Use_after_free s
      | Some b \<Rightarrow> Ok () (s\<lparr>m_bkts := (m_bkts s)(a \<mapsto> f b)\<rparr>))"

definition get_client :: "addr \<Rightarrow> client_state reader_op" where
  "get_client a s = (case m_clients s a of None \<Rightarrow> Bad Use_after_free s | Some c \<Rightarrow> Ok c s)"

definition upd_client :: "addr \<Rightarrow> (client_state \<Rightarrow> client_state) \<Rightarrow> unit reader_op" where
  "upd_client a f s =
     (case m_clients s a of None \<Rightarrow> Bad Use_after_free s
      | Some c \<Rightarrow> Ok () (s\<lparr>m_clients := (m_clients s)(a \<mapsto> f c)\<rparr>))"

definition node_next :: "addr \<Rightarrow> ptr reader_op" where
  "node_next a s = (case m_nodes s a of None \<Rightarrow> Bad Use_after_free s | Some n \<Rightarrow> Ok (ln_next n) s)"

text \<open>A list operation on the header \<open>get\<close> of the environment.\<close>

definition on_list ::
    "(reader_env \<Rightarrow> list_hdr) \<Rightarrow> (list_hdr \<Rightarrow> reader_env \<Rightarrow> reader_env) \<Rightarrow>
      (list_hdr \<Rightarrow> addr \<Rightarrow> nodes \<Rightarrow> (list_hdr, nodes) res) \<Rightarrow> addr \<Rightarrow> unit reader_op" where
  "on_list get put f a s =
     (case f (get s) a (m_nodes s) of
        Ok lst h \<Rightarrow> Ok () (put lst (s\<lparr>m_nodes := h\<rparr>))
      | Bad e h \<Rightarrow> Bad e (s\<lparr>m_nodes := h\<rparr>))"

abbreviation (input) "on_buckets \<equiv> on_list re_buckets (\<lambda>x s. s\<lparr>re_buckets := x\<rparr>)"
abbreviation (input) "on_peers \<equiv> on_list re_peers (\<lambda>x s. s\<lparr>re_peers := x\<rparr>)"

definition null_node :: list_node where
  "null_node = \<lparr>ln_prev = None, ln_next = None\<rparr>"

subsection \<open>Buckets\<close>

text \<open>
  \<^verbatim>\<open>sizeof(struct lcap_rec_bucket)\<close> is 64 on x86_64. The size handed to \<^verbatim>\<open>calloc\<close> is computed in
  \<^verbatim>\<open>size_t\<close>; with a small negative batch count it wraps to less than the structure.
\<close>

definition bucket_alloc_size :: "int \<Rightarrow> nat" where
  "bucket_alloc_size slot_cnt = nat ((64 + slot_cnt * 8) mod 2 ^ 64)"

definition rec_bucket_add :: "libs \<Rightarrow> int reader_op" where
  "rec_bucket_add L s =
     (let slot_cnt = ccf_rec_batch_count (re_cfg s)
      in case alloc L (bucket_alloc_size slot_cnt) s of
           (ok, s) \<Rightarrow>
             if \<not> ok then Ok (- ENOMEM) s
             else if bucket_alloc_size slot_cnt < 64 then Bad Out_of_bounds s
             else let a = m_brk s;
                      bkt = \<lparr>lrb_index = re_bkt_idx s, lrb_expiry = \<lparr>tv_sec = 0, tv_nsec = 0\<rparr>,
                             lrb_ready = False, lrb_size = 0, lrb_rec_count = 0,
                             lrb_records = replicate (nat slot_cnt) None\<rparr>;
                      s = s\<lparr>m_brk := a + 1, m_bkts := (m_bkts s)(a \<mapsto> bkt),
                            m_nodes := (m_nodes s)(a \<mapsto> null_node),
                            re_bkt_idx := re_bkt_idx s + 1\<rparr>
                  in bindR (on_buckets list_append a s) (\<lambda>_ s.
                     Ok 0 (s\<lparr>re_current_open := Some a\<rparr>)))"

definition conn_id_dup :: "libs \<Rightarrow> conn_id option \<Rightarrow> conn_id option reader_op" where
  "conn_id_dup L c s =
     (case c of
        None \<Rightarrow> Bad Null_deref s
      | Some c \<Rightarrow>
          (case alloc L (sizeof_conn_id + ci_length c) s of
             (ok, s) \<Rightarrow>
               Ok (if ok then Some \<lparr>ci_length = ci_length c, ci_data = take (ci_length c) (ci_data c)\<rparr>
                   else None) s))"

text \<open>The product of the two counts is an \<^verbatim>\<open>int\<close>.\<close>

definition changelog_reader_full :: "bool reader_op" where
  "changelog_reader_full s =
     (let n = ccf_rec_batch_count (re_cfg s) * ccf_max_bkt (re_cfg s)
      in if in_int32 n then Ok (re_rec_cnt s \<ge> n) s else Bad Signed_overflow s)"

definition reader_device :: "reader_env \<Rightarrow> bytes option" where
  "reader_device s =
     (if re_index s < length (ccf_mdt (re_cfg s)) then ccf_mdt (re_cfg s) ! re_index s else None)"

subsection \<open>Start and stop\<close>

definition build_reader_identity :: "libs \<Rightarrow> int reader_op" where
  "build_reader_identity L s =
     (case reader_device s of
        None \<Rightarrow> Bad Null_deref s
      | Some dev \<Rightarrow>
          (case alloc L (sizeof_conn_id + length dev) s of
             (ok, s) \<Rightarrow> if ok then Ok 0 (s\<lparr>re_ident := Some (cid dev)\<rparr>)
                        else Ok (- ENOMEM) (s\<lparr>re_ident := None\<rparr>)))"

definition changelog_reader_set_identity :: "libs \<Rightarrow> int reader_op" where
  "changelog_reader_set_identity L s =
     bindR (build_reader_identity L s) (\<lambda>rc s.
     if rc < 0 then Ok rc s
     else case re_ident s of
            None \<Rightarrow> Bad Null_deref s
          | Some c \<Rightarrow>
              let e = lib_identity L (w_log s);
                  s = s\<lparr>w_log := Ev_zmq_identity (ci_data c) e # w_log s\<rparr>
              in if e \<noteq> 0 then Ok (- int e) (s\<lparr>w_errno := e\<rparr>) else Ok 0 s)"

definition reader_zero :: "lcap_cfg \<Rightarrow> nat \<Rightarrow> timeval \<Rightarrow> reader_env \<Rightarrow> reader_env" where
  "reader_zero cfg idx now s =
     s\<lparr>re_cfg := cfg, re_clpriv := False, re_zctx := False, re_sock := False, re_ident := None,
       re_stats := \<lparr>rs_start_time = now, rs_rec_read = 0, rs_rec_sent = 0\<rparr>, re_index := idx, re_srec := 0,
       re_bkt_idx := 0, re_rec_cnt := 0, re_current_open := None, re_deliver_next := None,
       re_cleanup_next := None, re_buckets := EMPTY_LIST_INITIALIZER,
       re_peers := EMPTY_LIST_INITIALIZER\<rparr>"

text \<open>
  When the identity cannot be set, the error message prints it with \<^verbatim>\<open>%s\<close>: it is NULL when its
  allocation failed, and otherwise the name without its final zero, which is read past its end.
\<close>

definition changelog_reader_init :: "libs \<Rightarrow> lcap_cfg \<Rightarrow> nat \<Rightarrow> int reader_op" where
  "changelog_reader_init L cfg idx s =
     (case gettimeofday L s of (now, s) \<Rightarrow>
     bindR (rec_bucket_add L (reader_zero cfg idx now s)) (\<lambda>rc s.
     if rc \<noteq> 0 then Ok rc s
     else let first = l_first (re_buckets s);
              s = s\<lparr>re_current_open := first, re_deliver_next := first, re_cleanup_next := first\<rparr>;
              e = lib_ctx_new L (w_log s);
              s = s\<lparr>w_log := Ev_zmq_ctx (e = 0) # w_log s, re_zctx := (e = 0)\<rparr>
          in if e \<noteq> 0 then Ok (- int e) s
             else let e = lib_socket L (w_log s);
                      s = s\<lparr>w_log := Ev_zmq_socket (e = 0) # w_log s, re_sock := (e = 0)\<rparr>
                  in if e \<noteq> 0 then Ok (- int e) s
                     else bindR (changelog_reader_set_identity L s) (\<lambda>rc s.
                          if rc < 0 then Bad (if re_ident s = None then Null_deref else Out_of_bounds) s
                          else let e = lib_connect L (w_log s);
                                   s = s\<lparr>w_log := Ev_zmq_connect e # w_log s\<rparr>
                               in Ok (- int e) s)))"

definition signal_msg :: "bytes \<Rightarrow> int \<Rightarrow> bytes" where
  "signal_msg dev errcode =
     enc_signal \<lparr>sig_hdr = mk_hdr RPC_OP_SIGNAL, sig_ret = word_of_int errcode,
                 sig_mdtname = dev @ replicate (sizeof_mdtname - length dev) 0\<rparr>"

definition changelog_reader_signal :: "libs \<Rightarrow> int \<Rightarrow> int reader_op" where
  "changelog_reader_signal L errcode s =
     (case reader_device s of
        None \<Rightarrow> Bad Null_deref s
      | Some dev \<Rightarrow>
          if length dev + 1 > sizeof_mdtname then Bad Out_of_bounds s
          else (case send_frames L [([], True), (dev, True), (signal_msg dev errcode, False)] s of
                  (rc, s) \<Rightarrow> Ok rc s))"

text \<open>
  The statistics: the duration in milliseconds, computed in an \<^verbatim>\<open>int\<close> whose product with 1000 may
  overflow (\<open>None\<close>). The rate derived from it is only logged.
\<close>

definition stats_duration :: "timeval \<Rightarrow> timeval \<Rightarrow> int option" where
  "stats_duration start fin =
     (let duration = to_int32 (tval_sec fin - tval_sec start)
      in if \<not> in_int32 (duration * 1000) then None
         else Some (to_int32 (duration * 1000 + (tval_usec fin div 1000 - tval_usec start div 1000))))"

definition changelog_reader_print_stats :: "libs \<Rightarrow> int reader_op" where
  "changelog_reader_print_stats L s =
     (case gettimeofday L s of
        (fin, s) \<Rightarrow>
          (case stats_duration (rs_start_time (re_stats s)) fin of
             None \<Rightarrow> Bad Signed_overflow s | Some _ \<Rightarrow> Ok 0 s))"

definition changelog_reader_release :: "libs \<Rightarrow> int reader_op" where
  "changelog_reader_release L s =
     (let s = (if re_sock s then s\<lparr>w_log := Ev_zmq_close # w_log s, re_sock := False\<rparr> else s);
          s = (if re_zctx s then s\<lparr>w_log := Ev_zmq_term # w_log s, re_zctx := False\<rparr> else s)
      in bindR (changelog_reader_print_stats L s) (\<lambda>rc s. if rc < 0 then Ok rc s else Ok 0 s))"

subsection \<open>Delivering and clearing buckets\<close>

definition bucket_next :: "ptr \<Rightarrow> ptr reader_op" where
  "bucket_next p s = (case p of None \<Rightarrow> Ok None s | Some a \<Rightarrow> node_next a s)"

text \<open>The loop of \<^verbatim>\<open>rec_bucket_get\<close> that marks buckets not ready, up to \<^verbatim>\<open>re_deliver_next\<close>.\<close>

fun mark_non_ready :: "nat \<Rightarrow> ptr \<Rightarrow> unit reader_op" where
  "mark_non_ready k None s = Ok () s"
| "mark_non_ready 0 (Some t) s = Bad No_return s"
| "mark_non_ready (Suc k) (Some t) s =
     (if Some t = re_deliver_next s then Ok () s
      else bindR (upd_bkt t (\<lambda>b. b\<lparr>lrb_ready := False\<rparr>) s) (\<lambda>_ s.
           bindR (node_next t s) (\<lambda>n s. mark_non_ready k n s)))"

definition rec_bucket_get :: "libs \<Rightarrow> ptr reader_op" where
  "rec_bucket_get L s =
     (case re_cleanup_next s of
        None \<Rightarrow> Bad Assert_fail s
      | Some c \<Rightarrow>
          (case clock_gettime L s of
             (now, s) \<Rightarrow>
               bindR (get_bkt c s) (\<lambda>b s.
               if tv_sec now > tv_sec (lrb_expiry b) then
                 bindR (mark_non_ready (m_brk s) (Some c) s) (\<lambda>_ s.
                 bindR (bucket_next (Some c) (s\<lparr>re_deliver_next := Some c\<rparr>)) (\<lambda>n s.
                 Ok (Some c) (s\<lparr>re_deliver_next := n\<rparr>)))
               else
                 case re_deliver_next s of
                   None \<Rightarrow> Ok None s
                 | Some d \<Rightarrow>
                     bindR (bucket_next (Some d) s) (\<lambda>n s.
                     Ok (Some d) (s\<lparr>re_deliver_next := n\<rparr>)))))"

definition rec_bucket_destroy :: "addr \<Rightarrow> unit reader_op" where
  "rec_bucket_destroy a s =
     bindR (get_bkt a s) (\<lambda>b s.
     if nat (lrb_rec_count b) > length (lrb_records b) then Bad Out_of_bounds s
     else Ok () (s\<lparr>w_log := rev (map Ev_ll_free (take (nat (lrb_rec_count b)) (lrb_records b))) @ w_log s,
                   m_bkts := (m_bkts s)(a := None), m_nodes := (m_nodes s)(a := None)\<rparr>))"

definition rec_bucket_max_index :: "libs \<Rightarrow> addr \<Rightarrow> int reader_op" where
  "rec_bucket_max_index L a s =
     bindR (get_bkt a s) (\<lambda>b s.
     if lrb_rec_count b = 0 then Ok (- 1) s
     else let i = nat (lrb_rec_count b - 1)
          in if i < length (lrb_records b) then
               (case lrb_records b ! i of
                  None \<Rightarrow> Bad Null_deref s
                | Some r \<Rightarrow> Ok (sint (cr_index L r)) s)
             else Bad Out_of_bounds s)"

text \<open>Bytes of a record that are sent: its fixed part, its extensions and its name.\<close>

definition rec_len :: "libs \<Rightarrow> bytes \<Rightarrow> nat" where
  "rec_len L r = changelog_rec_size L r + unat (cr_namelen L r)"

definition changelog_reader_rec_store :: "libs \<Rightarrow> bytes \<Rightarrow> int reader_op" where
  "changelog_reader_rec_store L r s =
     (let batch_size = ccf_rec_batch_count (re_cfg s)
      in bindR (case re_current_open s of
                  None \<Rightarrow> rec_bucket_add L s
                | Some c \<Rightarrow>
                    bindR (get_bkt c s) (\<lambda>b s.
                    if lrb_rec_count b = batch_size then rec_bucket_add L s else Ok 0 s)) (\<lambda>rc s.
         if rc \<noteq> 0 then Ok rc s
         else case re_current_open s of
                None \<Rightarrow> Bad Assert_fail s
              | Some c \<Rightarrow>
                  bindR (get_bkt c s) (\<lambda>b s.
                  if \<not> lrb_rec_count b < batch_size then Bad Assert_fail s
                  else let idx = nat (lrb_rec_count b)
                       in if idx < length (lrb_records b) then
                            bindR (upd_bkt c (\<lambda>b. b\<lparr>lrb_rec_count := lrb_rec_count b + 1,
                                     lrb_records := (lrb_records b)[idx := Some r],
                                     lrb_size := lrb_size b + rec_len L r\<rparr>) s) (\<lambda>_ s. Ok 0 s)
                          else Bad Out_of_bounds s)))"

subsection \<open>Clients\<close>

fun client_walk :: "nat \<Rightarrow> conn_id \<Rightarrow> ptr \<Rightarrow> ptr reader_op" where
  "client_walk k c None s = Ok None s"
| "client_walk 0 c (Some a) s = Bad No_return s"
| "client_walk (Suc k) c (Some a) s =
     bindR (get_client a s) (\<lambda>cs s.
     case cs_ident cs of
       None \<Rightarrow> Bad Null_deref s
     | Some i \<Rightarrow>
         if ci_length i = ci_length c \<and> take (ci_length c) (ci_data i) = take (ci_length c) (ci_data c)
         then Ok (Some a) s
         else bindR (node_next a s) (\<lambda>n s. client_walk k c n s))"

definition client_state_get :: "conn_id option \<Rightarrow> ptr reader_op" where
  "client_state_get c s =
     (case l_first (re_peers s) of
        None \<Rightarrow> Ok None s
      | Some a \<Rightarrow>
          (case c of None \<Rightarrow> Bad Null_deref s | Some c \<Rightarrow> client_walk (m_brk s) c (Some a) s))"

definition client_state_release :: "addr \<Rightarrow> unit reader_op" where
  "client_state_release a s =
     bindR (get_client a s) (\<lambda>_ s.
     Ok () (s\<lparr>m_clients := (m_clients s)(a := None), m_nodes := (m_nodes s)(a := None)\<rparr>))"

subsection \<open>Request handlers\<close>

abbreviation (input) sizeof_client_state :: nat where "sizeof_client_state \<equiv> 40"

definition reader_handle_start :: "libs \<Rightarrow> lcapnet_request \<Rightarrow> int reader_op" where
  "reader_handle_start L req s =
     (if lr_body_len req < sizeof_register then Ok (- EINVAL) s
      else bindR (client_state_get (lr_forward req) s) (\<lambda>cs s.
           if cs \<noteq> None then Ok (- EALREADY) s
           else case alloc L sizeof_client_state s of
                  (ok, s) \<Rightarrow>
                    if \<not> ok then Ok (- ENOMEM) s
                    else bindR (conn_id_dup L (lr_forward req) s) (\<lambda>ident s.
                         if ident = None then Ok (- ENOMEM) s
                         else let a = m_brk s;
                                  c = \<lparr>cs_start = sint (reg_start (dec_register (lr_body req))),
                                       cs_bucket = None, cs_ident = ident\<rparr>;
                                  s = s\<lparr>m_brk := a + 1, m_clients := (m_clients s)(a \<mapsto> c),
                                        m_nodes := (m_nodes s)(a \<mapsto> null_node)\<rparr>
                              in bindR (on_peers list_append a s) (\<lambda>_ s.
                                 bindR (ack_retcode L None (lr_forward req) 0 s) (\<lambda>rc s.
                                 if rc < 0 then Ok rc s else Ok 0 s)))))"

abbreviation (input) ACK_TIMEOUT_MSEC :: int where "ACK_TIMEOUT_MSEC \<equiv> 10000"

definition bucket_set_expiry_time :: "libs \<Rightarrow> addr \<Rightarrow> unit reader_op" where
  "bucket_set_expiry_time L a s =
     (case clock_gettime L s of
        (t, s) \<Rightarrow>
          upd_bkt a (\<lambda>b. b\<lparr>lrb_expiry := t\<lparr>tv_sec := tv_sec t + ACK_TIMEOUT_MSEC div 1000\<rparr>\<rparr>) s)"

text \<open>The \<^verbatim>\<open>memcpy\<close> loop of \<^verbatim>\<open>enqueue_rec\<close>: the records one after the other.\<close>

fun pack_records :: "libs \<Rightarrow> bytes option list \<Rightarrow> fault + bytes" where
  "pack_records L [] = Inr []"
| "pack_records L (None # rs) = Inl Null_deref"
| "pack_records L (Some r # rs) =
     (if length r < rec_len L r then Inl Out_of_bounds
      else case pack_records L rs of
             Inl e \<Rightarrow> Inl e
           | Inr b \<Rightarrow> Inr (take (rec_len L r) r @ b))"

definition enqueue_msg :: "int \<Rightarrow> bytes \<Rightarrow> bytes" where
  "enqueue_msg count recs =
     enc_enqueue \<lparr>enq_hdr = mk_hdr RPC_OP_ENQUEUE, enq_count = word_of_int count, enq_records = recs\<rparr>"

definition enqueue_rec :: "libs \<Rightarrow> addr \<Rightarrow> lcapnet_request \<Rightarrow> int reader_op" where
  "enqueue_rec L cs req s =
     bindR (get_client cs s) (\<lambda>c s.
     case cs_bucket c of
       None \<Rightarrow> Bad Null_deref s
     | Some a \<Rightarrow>
         bindR (get_bkt a s) (\<lambda>b s.
         case alloc L (sizeof_enqueue + lrb_size b) s of
           (ok, s) \<Rightarrow>
             if \<not> ok then Ok (- ENOMEM) s
             else if nat (lrb_rec_count b) > length (lrb_records b) then Bad Out_of_bounds s
             else case pack_records L (take (nat (lrb_rec_count b)) (lrb_records b)) of
                    Inl e \<Rightarrow> Bad e s
                  | Inr recs \<Rightarrow>
                      if length recs > lrb_size b then Bad Out_of_bounds s
                      else bindR (bucket_set_expiry_time L a s) (\<lambda>_ s.
                           peer_rpc_send L None (lr_forward req)
                             (enqueue_msg (lrb_rec_count b)
                                (recs @ replicate (lrb_size b - length recs) 0)) s)))"

definition reader_handle_dequeue :: "libs \<Rightarrow> lcapnet_request \<Rightarrow> int reader_op" where
  "reader_handle_dequeue L req s =
     (if lr_body_len req < sizeof_dequeue then Ok (- EPROTO) s
      else bindR (client_state_get (lr_forward req) s) (\<lambda>cs s.
           case cs of
             None \<Rightarrow> Ok (- EPROTO) s
           | Some a \<Rightarrow>
               bindR (get_client a s) (\<lambda>c s.
               if cs_bucket c \<noteq> None then Ok (- EPROTO) s
               else bindR (rec_bucket_get L s) (\<lambda>bkt s.
                    if bkt = None then Ok 1 s
                    else bindR (if bkt = re_current_open s then rec_bucket_add L s else Ok 0 s) (\<lambda>rc s.
                         if rc \<noteq> 0 then Ok rc s
                         else bindR (upd_client a (\<lambda>c. c\<lparr>cs_bucket := bkt\<rparr>) s) (\<lambda>_ s.
                              enqueue_rec L a req s))))))"

text \<open>
  The loop of \<^verbatim>\<open>reader_handle_clear\<close>: \<open>Some rc\<close> for the \<^verbatim>\<open>return rc\<close> in its body, \<open>None\<close> when it
  falls through. Its step reads \<^verbatim>\<open>bkt->lrb_node.ln_next\<close> after the body, where the bucket has
  been freed.
\<close>

fun clear_loop :: "nat \<Rightarrow> libs \<Rightarrow> ptr \<Rightarrow> int option reader_op" where
  "clear_loop k L None s = Ok None s"
| "clear_loop 0 L (Some a) s = Bad No_return s"
| "clear_loop (Suc k) L (Some a) s =
     bindR (get_bkt a s) (\<lambda>b s.
     if \<not> lrb_ready b then Ok None s
     else let s = s\<lparr>re_cleanup_next := Some a\<rparr>
          in bindR (rec_bucket_max_index L a s) (\<lambda>idx s.
             let dev = reader_device s; cli = ccf_clreader (re_cfg s);
                 rc = lib_ll_clear L (w_log s) dev cli idx;
                 s = s\<lparr>w_log := Ev_ll_clear dev cli idx rc # w_log s\<rparr>
             in if rc < 0 then Ok (Some rc) s
                else bindR (on_buckets list_remove a s) (\<lambda>_ s.
                     bindR (rec_bucket_destroy a (s\<lparr>re_rec_cnt := re_rec_cnt s - lrb_rec_count b\<rparr>)) (\<lambda>_ s.
                     bindR (node_next a s) (\<lambda>n s. clear_loop k L n s)))))"

definition reader_handle_clear :: "libs \<Rightarrow> lcapnet_request \<Rightarrow> int reader_op" where
  "reader_handle_clear L req s =
     (if lr_body_len req < sizeof_clear then Ok (- EPROTO) s
      else bindR (client_state_get (lr_forward req) s) (\<lambda>cs s.
           case cs of
             None \<Rightarrow> Ok (- EPROTO) s
           | Some a \<Rightarrow>
               bindR (get_client a s) (\<lambda>c s.
               case cs_bucket c of
                 None \<Rightarrow> Ok 0 s
               | Some bkt \<Rightarrow>
                   bindR (upd_client a (\<lambda>c. c\<lparr>cs_bucket := None\<rparr>) s) (\<lambda>_ s.
                   bindR (upd_bkt bkt (\<lambda>b. b\<lparr>lrb_ready := True\<rparr>) s) (\<lambda>_ s.
                   if re_cleanup_next s = None then Bad Null_deref s
                   else bindR (clear_loop (m_brk s) L (re_cleanup_next s) s) (\<lambda>r s.
                        case r of
                          Some rc \<Rightarrow> Ok rc s
                        | None \<Rightarrow> ack_retcode L None (lr_forward req) 0 s))))))"

definition reader_handle_fini :: "libs \<Rightarrow> lcapnet_request \<Rightarrow> int reader_op" where
  "reader_handle_fini L req s =
     (if lr_body_len req < sizeof_fini then Ok (- EPROTO) s
      else bindR (client_state_get (lr_forward req) s) (\<lambda>cs s.
           case cs of
             None \<Rightarrow> Ok (- EPROTO) s
           | Some a \<Rightarrow>
               bindR (on_peers list_remove a s) (\<lambda>_ s.
               bindR (client_state_release a s) (\<lambda>_ s.
               ack_retcode L None (lr_forward req) 0 s))))"

definition reader_rpc_handle ::
    "rpc_op_type \<Rightarrow> (libs \<Rightarrow> lcapnet_request \<Rightarrow> int reader_op) option" where
  "reader_rpc_handle t =
     (case t of
        RPC_OP_START \<Rightarrow> Some reader_handle_start
      | RPC_OP_DEQUEUE \<Rightarrow> Some reader_handle_dequeue
      | RPC_OP_CLEAR \<Rightarrow> Some reader_handle_clear
      | RPC_OP_FINI \<Rightarrow> Some reader_handle_fini
      | RPC_OP_ENQUEUE \<Rightarrow> None
      | RPC_OP_ACK \<Rightarrow> None
      | RPC_OP_SIGNAL \<Rightarrow> None)"

definition reader_rpc_handle_one :: "libs \<Rightarrow> nat \<Rightarrow> lcapnet_request \<Rightarrow> int reader_op" where
  "reader_rpc_handle_one L op req s =
     (case rpc_op_of op of
        None \<Rightarrow> Bad Out_of_bounds s
      | Some t \<Rightarrow>
          (case reader_rpc_handle t of
             None \<Rightarrow> Ok (- EPROTO) s
           | Some hdl \<Rightarrow> hdl L req s))"

text \<open>The debug message about a request is formed before its reply, and reads the operation again.\<close>

definition changelog_reader_rpc_hdl :: "libs \<Rightarrow> lcapnet_request \<Rightarrow> int reader_op" where
  "changelog_reader_rpc_hdl L req s =
     bindR (if lr_body_len req < sizeof_hdr then Ok (- EPROTO) s
            else let op = body_op (lr_body req)
                 in if op < RPC_OP_FIRST \<or> op > RPC_OP_LAST then Ok (- EINVAL) s
                    else reader_rpc_handle_one L op req s) (\<lambda>rc s.
     bindR (log_op (re_cfg s) req s) (\<lambda>_ s.
     if rc < 0 \<or> rc = 1 then ack_retcode L None (lr_forward req) rc s else Ok rc s))"

subsection \<open>The main loop\<close>

text \<open>After a poll that reports the socket, \<^verbatim>\<open>assert(itm[0].revents & ZMQ_POLLIN)\<close>.\<close>

definition changelog_reader_serve :: "libs \<Rightarrow> int reader_op" where
  "changelog_reader_serve L s =
     (let timeout = (if re_clpriv s then 50 else 1000);
          rc = lib_poll L (w_log s) timeout;
          s = s\<lparr>w_log := Ev_poll timeout rc # w_log s\<rparr>
      in if rc \<le> 0 then Ok rc s
         else if \<not> lib_pollin L (w_log s) then Bad Assert_fail s
         else bindR (lcap_rpc_recv L (LCAP_RECV_NONBLOCK OR LCAP_RECV_NO_ENVELOPE)
                       (changelog_reader_rpc_hdl L) s) (\<lambda>rc s.
              if rc < 0 then Ok rc s else Ok 0 s))"

text \<open>
  The receive loop of \<^verbatim>\<open>changelog_reader_enqueue\<close>: the return code it leaves and the number of
  records stored. \<open>xs\<close> is the changelog still to come; after its last element it is at its end
  (code 1).
\<close>

fun enqueue_loop :: "libs \<Rightarrow> int \<Rightarrow> int \<Rightarrow> (int + bytes) list \<Rightarrow> (int \<times> int) reader_op" where
  "enqueue_loop L batch_size n [] s =
     Ok (1, n) (s\<lparr>w_log := Ev_ll_recv (Inl 1) # w_log s, m_changelog := []\<rparr>)"
| "enqueue_loop L batch_size n (Inl rc # xs) s =
     (let s = s\<lparr>w_log := Ev_ll_recv (Inl rc) # w_log s, m_changelog := xs\<rparr>
      in if rc = 0 then Bad Uninit_read s else Ok (rc, n) s)"
| "enqueue_loop L batch_size n (Inr r # xs) s =
     (let s = s\<lparr>w_log := Ev_ll_recv (Inr r) # w_log s, m_changelog := xs\<rparr>
      in case read_term_sig L s of
           (term, s) \<Rightarrow>
             if term then Ok (0, n) s
             else if cr_index L r < re_srec s then enqueue_loop L batch_size n xs s
             else bindR (changelog_reader_rec_store L r s) (\<lambda>rc s.
                  if rc \<noteq> 0 then Ok (rc, n) s
                  else let s = s\<lparr>re_srec := cr_index L r + 1,
                                 re_stats := (re_stats s)\<lparr>rs_rec_read := rs_rec_read (re_stats s) + 1\<rparr>,
                                 re_rec_cnt := re_rec_cnt s + 1\<rparr>
                       in if n + 1 \<ge> batch_size then Ok (0, n + 1) s
                          else bindR (changelog_reader_full s) (\<lambda>full s.
                               if full then Ok (0, n + 1) s
                               else enqueue_loop L batch_size (n + 1) xs s)))"

definition changelog_reader_enqueue :: "libs \<Rightarrow> int reader_op" where
  "changelog_reader_enqueue L s =
     bindR (changelog_reader_full s) (\<lambda>full s.
     if full then Ok 0 s
     else bindR (if re_clpriv s then Ok 0 s
                 else let flags = CHANGELOG_FLAG_JOBID L;
                          rc = lib_ll_start L (w_log s) flags (reader_device s) (re_srec s)
                      in Ok rc (s\<lparr>w_log := Ev_ll_start flags (reader_device s) (re_srec s) rc # w_log s,
                                  re_clpriv := (rc = 0)\<rparr>)) (\<lambda>rc s.
          if rc \<noteq> 0 then Ok rc s
          else bindR (enqueue_loop L (ccf_rec_batch_count (re_cfg s)) 0 (m_changelog s) s)
                 (\<lambda>(rc, n) s.
               if rc = 1 \<or> rc = - EAGAIN \<or> rc = - EPROTO
               then Ok rc (s\<lparr>w_log := Ev_ll_fini # w_log s, re_clpriv := False\<rparr>)
               else Ok rc s)))"

text \<open>
  The \<^verbatim>\<open>while\<close> of \<^verbatim>\<open>reader_main\<close> runs until a signal or an error: \<open>k\<close> bounds the turns, and \<open>None\<close>
  is the value after \<open>k\<close> turns that did not leave it.
\<close>

fun reader_loop :: "nat \<Rightarrow> libs \<Rightarrow> int \<Rightarrow> int option reader_op" where
  "reader_loop 0 L rc s = Ok None s"
| "reader_loop (Suc k) L rc s =
     (case read_term_sig L s of
        (term, s) \<Rightarrow>
          if term then Ok (Some rc) s
          else bindR (changelog_reader_enqueue L s) (\<lambda>rc s.
               if rc < 0 then Ok (Some rc) s
               else bindR (changelog_reader_serve L s) (\<lambda>rc s.
                    if rc < 0 then Ok (Some rc) s else reader_loop k L rc s)))"

text \<open>The \<^verbatim>\<open>out:\<close> part of \<^verbatim>\<open>reader_main\<close>: the broker is told of an error, then all is released.\<close>

definition reader_out_path :: "libs \<Rightarrow> int \<Rightarrow> int reader_op" where
  "reader_out_path L rc s =
     bindR (if rc \<noteq> 0 then changelog_reader_signal L rc s else Ok 0 s) (\<lambda>_ s.
     bindR (changelog_reader_release L s) (\<lambda>_ s. Ok rc s))"

definition reader_main :: "nat \<Rightarrow> libs \<Rightarrow> lcap_cfg \<Rightarrow> nat \<Rightarrow> int option reader_op" where
  "reader_main k L cfg idx s =
     bindR (changelog_reader_init L cfg idx s) (\<lambda>rc s.
     bindR (if rc \<noteq> 0 then Ok (Some rc) s
            else bindR (changelog_reader_signal L 0 s) (\<lambda>rc s.
                 if rc \<noteq> 0 then Ok (Some rc) s else reader_loop k L rc s)) (\<lambda>r s.
     case r of
       None \<Rightarrow> Ok None s
     | Some rc \<Rightarrow> bindR (reader_out_path L rc s) (\<lambda>rc s. Ok (Some rc) s)))"

subsection \<open>The callback with and without its debug message\<close>

lemma rpc_hdl_logged:
  assumes "\<not> op_overrun (re_cfg s) req"
  shows "changelog_reader_rpc_hdl L req s =
     bindR (if lr_body_len req < sizeof_hdr then Ok (- EPROTO) s
            else let op = body_op (lr_body req)
                 in if op < RPC_OP_FIRST \<or> op > RPC_OP_LAST then Ok (- EINVAL) s
                    else reader_rpc_handle_one L op req s) (\<lambda>rc s.
     if rc < 0 \<or> rc = 1 then ack_retcode L None (lr_forward req) rc s else Ok rc s)"
proof (cases "lr_body_len req < sizeof_hdr")
  case False
  then show ?thesis by (simp add: changelog_reader_rpc_hdl_def op_overrun_long)
qed (use assms in \<open>simp add: changelog_reader_rpc_hdl_def\<close>)

lemma rpc_hdl_overrun:
  assumes "op_overrun (re_cfg s) req"
  shows "changelog_reader_rpc_hdl L req s = Bad Out_of_bounds s"
proof -
  have "lr_body_len req < sizeof_hdr" using assms op_overrun_long [of req "re_cfg s"] by fastforce
  with assms show ?thesis by (simp add: changelog_reader_rpc_hdl_def log_op_def)
qed

lemma rpc_hdl_returned: "changelog_reader_rpc_hdl L req s = Ok rc t \<Longrightarrow> \<not> op_overrun (re_cfg s) req"
  using rpc_hdl_overrun by fastforce

end
