(* ===== verification/Reader_Inv.thy ===== *)
theory Reader_Inv
  imports Reader
begin

text \<open>
  The reader's invariant and, operation by operation, that it holds afterwards and that no
  operation faults under it. \<open>run bad m Q\<close> says that \<open>m\<close> ends in a state where \<open>Q\<close> holds of its
  value, or in a fault satisfying \<open>bad\<close>; it distributes over \<open>bindR\<close>, so the proof of an
  operation follows its text. The invariant relates the pointers of the environment to the two
  sequences of addresses its lists hold.
\<close>

subsection \<open>Running an operation\<close>

definition run :: "(fault \<Rightarrow> 's \<Rightarrow> bool) \<Rightarrow> ('a, 's) res \<Rightarrow> ('a \<Rightarrow> 's \<Rightarrow> bool) \<Rightarrow> bool" where
  "run bad m Q \<longleftrightarrow> (case m of Ok x s \<Rightarrow> Q x s | Bad e s \<Rightarrow> bad e s)"

abbreviation (input) never :: "fault \<Rightarrow> 's \<Rightarrow> bool" where "never \<equiv> (\<lambda>_ _. False)"

lemma run_simps [simp]:
  "run bad (Ok x s) Q = Q x s"
  "run bad (Bad e s) Q = bad e s"
  "run bad (bindR m f) Q = run bad m (\<lambda>x s. run bad (f x s) Q)"
  by (simp_all add: run_def) (cases m; simp)

lemma run_mono:
  "run bad m Q \<Longrightarrow> (\<And>x s. m = Ok x s \<Longrightarrow> Q x s \<Longrightarrow> Q' x s) \<Longrightarrow> (\<And>e s. bad e s \<Longrightarrow> bad' e s) \<Longrightarrow> run bad' m Q'"
  by (auto simp: run_def split: res.splits)

lemma run_bind:
  assumes "run bad m P" "\<And>x s. P x s \<Longrightarrow> run bad (f x s) Q"
  shows "run bad (bindR m f) Q"
  using assms by (cases m) simp_all

lemma run_bind_never:
  assumes "run never m P" "\<And>x s. P x s \<Longrightarrow> run bad (f x s) Q"
  shows "run bad (bindR m f) Q"
  using assms by (cases m) simp_all

lemma run_OkD: "run bad m Q \<Longrightarrow> m = Ok x s \<Longrightarrow> Q x s"
  by (simp add: run_def)

lemma run_BadD: "run bad m Q \<Longrightarrow> m = Bad e s \<Longrightarrow> bad e s"
  by (simp add: run_def)

lemma run_never: "run never m Q \<longleftrightarrow> (\<exists>x s. m = Ok x s \<and> Q x s)"
  by (auto simp: run_def split: res.splits)

subsection \<open>What the lists hold\<close>

fun chain :: "nat \<Rightarrow> nodes \<Rightarrow> ptr \<Rightarrow> addr list" where
  "chain k h None = []"
| "chain 0 h (Some a) = []"
| "chain (Suc k) h (Some a) = a # (case h a of None \<Rightarrow> [] | Some n \<Rightarrow> chain k h (ln_next n))"

definition buckets_of :: "reader_env \<Rightarrow> addr list" where
  "buckets_of s = chain (m_brk s) (m_nodes s) (l_first (re_buckets s))"

definition peers_of :: "reader_env \<Rightarrow> addr list" where
  "peers_of s = chain (m_brk s) (m_nodes s) (l_first (re_peers s))"

text \<open>The records of a bucket, of the whole cache, and the bucket and client at an address.\<close>

definition bkt_recs :: "lcap_rec_bucket \<Rightarrow> bytes list" where
  "bkt_recs b = map the (take (nat (lrb_rec_count b)) (lrb_records b))"

definition bkt_at :: "reader_env \<Rightarrow> addr \<Rightarrow> lcap_rec_bucket" where
  "bkt_at s a = the (m_bkts s a)"

definition stored :: "reader_env \<Rightarrow> bytes list" where
  "stored s = concat (map (\<lambda>a. bkt_recs (bkt_at s a)) (buckets_of s))"

lemma chain_dseg: "dseg h p xs None \<Longrightarrow> length xs \<le> k \<Longrightarrow> chain k h (head_or xs None) = xs"
proof (induction xs arbitrary: k p)
  case (Cons x xs)
  then obtain j where "k = Suc j" by (cases k) auto
  with Cons show ?case by auto
qed simp

lemma chain_list_rep: "list_rep h l xs \<Longrightarrow> length xs \<le> k \<Longrightarrow> chain k h (l_first l) = xs"
  by (auto simp: list_rep_def intro: chain_dseg)

subsection \<open>Invariant\<close>

definition cfg_ok :: "lcap_cfg \<Rightarrow> bool" where
  "cfg_ok cfg \<longleftrightarrow> 0 < ccf_rec_batch_count cfg \<and> ccf_rec_batch_count cfg < 2 ^ 31 \<and>
     0 \<le> ccf_max_bkt cfg \<and> in_int32 (ccf_rec_batch_count cfg * ccf_max_bkt cfg)"

definition heap_ok :: "reader_env \<Rightarrow> addr list \<Rightarrow> addr list \<Rightarrow> bool" where
  "heap_ok s bs ps \<longleftrightarrow>
     list_rep (m_nodes s) (re_buckets s) bs \<and> list_rep (m_nodes s) (re_peers s) ps \<and>
     set bs \<inter> set ps = {} \<and> dom (m_bkts s) = set bs \<and> dom (m_clients s) = set ps \<and>
     dom (m_nodes s) = set bs \<union> set ps \<and> (\<forall>a \<in> set bs \<union> set ps. a < m_brk s)"

definition ptrs_ok :: "reader_env \<Rightarrow> addr list \<Rightarrow> bool" where
  "ptrs_ok s bs \<longleftrightarrow>
     bs \<noteq> [] \<and> re_current_open s = Some (last bs) \<and> re_cleanup_next s = Some (hd bs) \<and>
     pred_option (\<lambda>d. d \<in> set bs) (re_deliver_next s)"

definition bucket_ok :: "libs \<Rightarrow> int \<Rightarrow> lcap_rec_bucket \<Rightarrow> bool" where
  "bucket_ok L batch b \<longleftrightarrow>
     0 \<le> lrb_rec_count b \<and> lrb_rec_count b \<le> batch \<and> length (lrb_records b) = nat batch \<and>
     take (nat (lrb_rec_count b)) (lrb_records b) = map Some (bkt_recs b) \<and>
     lrb_size b = sum_list (map (rec_len L) (bkt_recs b)) \<and>
     (\<forall>r \<in> set (bkt_recs b). rec_len L r \<le> length r)"

definition bkts_ok :: "libs \<Rightarrow> reader_env \<Rightarrow> bool" where
  "bkts_ok L s \<longleftrightarrow>
     (\<forall>a b. m_bkts s a = Some b \<longrightarrow> bucket_ok L (ccf_rec_batch_count (re_cfg s)) b)"

definition cnt_ok :: "reader_env \<Rightarrow> addr list \<Rightarrow> bool" where
  "cnt_ok s bs \<longleftrightarrow> re_rec_cnt s = sum_list (map (\<lambda>a. lrb_rec_count (bkt_at s a)) bs)"

definition client_ok :: "addr list \<Rightarrow> client_state \<Rightarrow> bool" where
  "client_ok bs c \<longleftrightarrow>
     (\<exists>i. cs_ident c = Some i \<and> wf_cid i) \<and>
     (\<forall>b. cs_bucket c = Some b \<longrightarrow> b \<in> set bs \<and> b \<noteq> last bs)"

definition ident_at :: "reader_env \<Rightarrow> addr \<Rightarrow> conn_id option" where
  "ident_at s = (\<lambda>a. Option.bind (m_clients s a) cs_ident)"

definition clients_ok :: "reader_env \<Rightarrow> addr list \<Rightarrow> addr list \<Rightarrow> bool" where
  "clients_ok s bs ps \<longleftrightarrow>
     (\<forall>a c. m_clients s a = Some c \<longrightarrow> client_ok bs c) \<and> inj_on (ident_at s) (set ps)"

definition rinv :: "libs \<Rightarrow> reader_env \<Rightarrow> addr list \<Rightarrow> addr list \<Rightarrow> bool" where
  "rinv L s bs ps \<longleftrightarrow> cfg_ok (re_cfg s) \<and> heap_ok s bs ps \<and> ptrs_ok s bs \<and> bkts_ok L s \<and>
     cnt_ok s bs \<and> clients_ok s bs ps"

definition reader_inv :: "libs \<Rightarrow> reader_env \<Rightarrow> bool" where
  "reader_inv L s \<longleftrightarrow> rinv L s (buckets_of s) (peers_of s)"

lemmas rinv_defs = rinv_def heap_ok_def ptrs_ok_def bkts_ok_def cnt_ok_def clients_ok_def
  bkt_at_def ident_at_def

text \<open>Changes the invariant does not see.\<close>

lemma rinv_upd [simp]:
  "rinv L (s\<lparr>w_log := l\<rparr>) bs ps = rinv L s bs ps"
  "rinv L (s\<lparr>w_errno := e\<rparr>) bs ps = rinv L s bs ps"
  "rinv L (s\<lparr>w_in := i\<rparr>) bs ps = rinv L s bs ps"
  "rinv L (s\<lparr>re_clpriv := c\<rparr>) bs ps = rinv L s bs ps"
  "rinv L (s\<lparr>re_zctx := c\<rparr>) bs ps = rinv L s bs ps"
  "rinv L (s\<lparr>re_sock := c\<rparr>) bs ps = rinv L s bs ps"
  "rinv L (s\<lparr>re_ident := c'\<rparr>) bs ps = rinv L s bs ps"
  "rinv L (s\<lparr>re_stats := st\<rparr>) bs ps = rinv L s bs ps"
  "rinv L (s\<lparr>re_srec := w\<rparr>) bs ps = rinv L s bs ps"
  "rinv L (s\<lparr>m_changelog := cl\<rparr>) bs ps = rinv L s bs ps"
  by (simp_all add: rinv_defs)

lemma rinv_more: "world.more t = world.more s \<Longrightarrow> rinv L s bs ps \<Longrightarrow> rinv L t bs ps"
  by (cases s; cases t) (simp add: rinv_defs)

lemma rinv_fuel: "rinv L s bs ps \<Longrightarrow> length bs \<le> m_brk s \<and> length ps \<le> m_brk s"
proof -
  assume a: "rinv L s bs ps"
  have "length xs \<le> m_brk s" if "distinct xs" "set xs \<subseteq> set bs \<union> set ps" for xs
  proof -
    have "set xs \<subseteq> {..<m_brk s}" using that(2) a by (auto simp: rinv_defs)
    then have "card (set xs) \<le> m_brk s" using card_mono [of "{..<m_brk s}"] by fastforce
    then show ?thesis using that(1) by (simp add: distinct_card)
  qed
  moreover have "distinct bs" "distinct ps"
    using a list_rep_distinct by (auto simp: rinv_defs)
  ultimately show ?thesis by auto
qed

lemma rinv_lists:
  assumes "rinv L s bs ps"
  shows "buckets_of s = bs" "peers_of s = ps"
  using rinv_fuel [OF assms] assms chain_list_rep
  by (auto simp: buckets_of_def peers_of_def rinv_defs)

lemma reader_invI: "rinv L s bs ps \<Longrightarrow> reader_inv L s"
  using rinv_lists unfolding reader_inv_def by metis

lemma reader_invE:
  assumes "reader_inv L s"
  obtains bs ps where "rinv L s bs ps" "buckets_of s = bs" "peers_of s = ps"
  using assms by (auto simp: reader_inv_def)

subsection \<open>Walks along the lists\<close>

lemma client_walk_find:
  assumes "dseg (m_nodes s) p xs None" "length xs \<le> k" "wf_cid c"
    and "\<And>a. a \<in> set xs \<Longrightarrow> \<exists>cs i. m_clients s a = Some cs \<and> cs_ident cs = Some i \<and> wf_cid i"
  shows "client_walk k c (head_or xs None) s = Ok (find (\<lambda>a. ident_at s a = Some c) xs) s"
  using assms(1,2,4)
proof (induction xs arbitrary: k p)
  case (Cons x xs)
  then obtain j where k: "k = Suc j" by (cases k) auto
  from Cons.prems(3) [of x] obtain cs i
    where cs: "m_clients s x = Some cs" "cs_ident cs = Some i" "wf_cid i" by auto
  have eq: "ci_length i = ci_length c \<and> take (ci_length c) (ci_data i) = take (ci_length c) (ci_data c)
      \<longleftrightarrow> i = c"
    using cs(3) assms(3) by (cases i; cases c) (auto simp: wf_cid_def)
  from Cons.prems have nx: "node_next x s = Ok (head_or xs None) s"
    by (simp add: node_next_def)
  have IH: "client_walk j c (head_or xs None) s = Ok (find (\<lambda>a. ident_at s a = Some c) xs) s"
    using Cons.prems k by (intro Cons.IH [of "Some x"]) auto
  show ?case
    unfolding k head_or_simps client_walk.simps get_client_def
    using cs nx IH by (simp add: eq ident_at_def)
qed simp

lemma rinv_clients:
  assumes "rinv L s bs ps" "a \<in> set ps"
  obtains cs i where "m_clients s a = Some cs" "cs_ident cs = Some i" "wf_cid i" "client_ok bs cs"
proof -
  have "a \<in> dom (m_clients s)" using assms by (simp add: rinv_def heap_ok_def)
  then obtain cs where cs: "m_clients s a = Some cs" by auto
  with assms(1) have "client_ok bs cs" by (simp add: rinv_def clients_ok_def)
  with cs that show ?thesis by (auto simp: client_ok_def)
qed

text \<open>The client state of a peer: the one whose identity it is.\<close>

lemma client_state_get_find:
  assumes "rinv L s bs ps" "wf_cid c"
  shows "client_state_get (Some c) s = Ok (find (\<lambda>a. ident_at s a = Some c) ps) s"
proof -
  have rep: "list_rep (m_nodes s) (re_peers s) ps" using assms by (simp add: rinv_defs)
  then have first: "l_first (re_peers s) = head_or ps None" by (rule list_rep_first)
  have "client_walk (m_brk s) c (head_or ps None) s = Ok (find (\<lambda>a. ident_at s a = Some c) ps) s"
    using rep rinv_fuel [OF assms(1)] assms(2)
    by (intro client_walk_find) (auto simp: list_rep_def elim: rinv_clients [OF assms(1)])
  with first show ?thesis
    by (cases ps) (simp_all add: client_state_get_def)
qed

definition unready :: "addr list \<Rightarrow> (addr \<rightharpoonup> lcap_rec_bucket) \<Rightarrow> addr \<rightharpoonup> lcap_rec_bucket" where
  "unready as m = (\<lambda>a. if a \<in> set as then map_option (\<lambda>b. b\<lparr>lrb_ready := False\<rparr>) (m a) else m a)"

lemma unready_Nil [simp]: "unready [] m = m"
  by (simp add: unready_def)

lemma unready_upd:
  "a \<notin> set as \<Longrightarrow> m a = Some b \<Longrightarrow> unready as (m(a \<mapsto> b\<lparr>lrb_ready := False\<rparr>)) = unready (a # as) m"
  by (auto simp: unready_def)

lemma mark_non_ready_takeWhile:
  assumes "dseg (m_nodes s) p xs None" "length xs \<le> k" "distinct xs" "set xs \<subseteq> dom (m_bkts s)"
  shows "mark_non_ready k (head_or xs None) s =
    Ok () (s\<lparr>m_bkts := unready (takeWhile (\<lambda>a. Some a \<noteq> re_deliver_next s) xs) (m_bkts s)\<rparr>)"
  using assms
proof (induction xs arbitrary: k p s)
  case (Cons x xs)
  then obtain j where k: "k = Suc j" by (cases k) auto
  from Cons.prems obtain b where b: "m_bkts s x = Some b" by auto
  let ?s = "s\<lparr>m_bkts := (m_bkts s)(x \<mapsto> b\<lparr>lrb_ready := False\<rparr>)\<rparr>"
  have IH: "mark_non_ready j (head_or xs None) ?s =
      Ok () (?s\<lparr>m_bkts := unready (takeWhile (\<lambda>a. Some a \<noteq> re_deliver_next ?s) xs) (m_bkts ?s)\<rparr>)"
    using Cons.prems k by (intro Cons.IH [of _ "Some x"]) auto
  have "x \<notin> set (takeWhile (\<lambda>a. Some a \<noteq> re_deliver_next s) xs)"
    using Cons.prems(3) by (auto dest: set_takeWhileD)
  with Cons.prems b k IH show ?case
    by (simp add: upd_bkt_def node_next_def unready_upd)
qed simp

subsection \<open>Adding a bucket\<close>

definition fresh_bucket :: "int \<Rightarrow> int \<Rightarrow> lcap_rec_bucket" where
  "fresh_bucket idx slots =
     \<lparr>lrb_index = idx, lrb_expiry = \<lparr>tv_sec = 0, tv_nsec = 0\<rparr>, lrb_ready = False, lrb_size = 0,
      lrb_rec_count = 0, lrb_records = replicate (nat slots) None\<rparr>"

text \<open>The state after a bucket was added: the bucket at the next address, last in the list.\<close>

definition bucket_added :: "reader_env \<Rightarrow> reader_env \<Rightarrow> bool" where
  "bucket_added s t \<longleftrightarrow> (\<exists>h lst.
     t = s\<lparr>w_log := Ev_alloc (bucket_alloc_size (ccf_rec_batch_count (re_cfg s))) True # w_log s,
           m_brk := m_brk s + 1,
           m_bkts := (m_bkts s)(m_brk s \<mapsto>
              fresh_bucket (re_bkt_idx s) (ccf_rec_batch_count (re_cfg s))),
           m_nodes := h, re_bkt_idx := re_bkt_idx s + 1, re_buckets := lst,
           re_current_open := Some (m_brk s)\<rparr>)"

lemma rec_bucket_add_heap:
  assumes cfg: "cfg_ok (re_cfg s)" and heap: "heap_ok s bs ps"
  shows "run never (rec_bucket_add L s) (\<lambda>rc t.
    (rc = - ENOMEM \<and> t = s\<lparr>w_log := Ev_alloc (bucket_alloc_size (ccf_rec_batch_count (re_cfg s))) False # w_log s\<rparr>)
    \<or> (rc = 0 \<and> bucket_added s t \<and> heap_ok t (bs @ [m_brk s]) ps))"
proof -
  let ?sz = "bucket_alloc_size (ccf_rec_batch_count (re_cfg s))"
  let ?a = "m_brk s"
  let ?h = "(m_nodes s)(?a \<mapsto> null_node)"
  have sz: "\<not> ?sz < 64" using cfg by (auto simp: cfg_ok_def bucket_alloc_size_def)
  have fresh: "?a \<notin> set bs" "?a \<notin> set ps"
    using heap by (auto simp: heap_ok_def)
  then have rep: "list_rep ?h (re_buckets s) bs" "list_rep ?h (re_peers s) ps"
    using heap by (simp_all add: heap_ok_def)
  from dl.append_other [OF rep, of ?a] fresh heap obtain lst h where
    app: "list_append (re_buckets s) ?a ?h = Ok lst h" "list_rep h lst (bs @ [?a])"
      "list_rep h (re_peers s) ps" "dom h = dom ?h"
    by (auto simp: heap_ok_def)
  show ?thesis
  proof (cases "lib_alloc L (w_log s) ?sz \<and> ?sz < 2 ^ 63")
    case True
    define t where "t = s\<lparr>w_log := Ev_alloc ?sz True # w_log s, m_brk := ?a + 1,
      m_bkts := (m_bkts s)(?a \<mapsto> fresh_bucket (re_bkt_idx s) (ccf_rec_batch_count (re_cfg s))),
      m_nodes := h, re_bkt_idx := re_bkt_idx s + 1, re_buckets := lst,
      re_current_open := Some ?a\<rparr>"
    have "rec_bucket_add L s = Ok 0 t"
      using True app(1) sz
      by (simp add: rec_bucket_add_def alloc_def on_list_def fresh_bucket_def t_def Let_def)
    moreover have "heap_ok t (bs @ [?a]) ps"
      using heap app(2-4) fresh by (auto simp: heap_ok_def t_def less_Suc_eq)
    moreover have "bucket_added s t" by (auto simp: bucket_added_def t_def)
    ultimately show ?thesis by simp
  next
    case False
    then have "rec_bucket_add L s = Ok (- ENOMEM) (s\<lparr>w_log := Ev_alloc ?sz False # w_log s\<rparr>)"
      by (auto simp: rec_bucket_add_def alloc_def Let_def)
    then show ?thesis by simp
  qed
qed

lemma bucket_ok_fresh: "bucket_ok L n (fresh_bucket i n) \<longleftrightarrow> 0 \<le> n"
  by (auto simp: bucket_ok_def fresh_bucket_def bkt_recs_def)

lemma rinv_bucket_added:
  assumes inv: "rinv L s bs ps" and add: "bucket_added s t" and heap: "heap_ok t (bs @ [m_brk s]) ps"
  shows "rinv L t (bs @ [m_brk s]) ps"
proof -
  let ?n = "ccf_rec_batch_count (re_cfg s)"
  have brk: "m_brk s \<notin> set bs" using inv by (auto simp: rinv_defs)
  from add have t: "re_cfg t = re_cfg s" "m_clients t = m_clients s" "re_rec_cnt t = re_rec_cnt s"
    "re_deliver_next t = re_deliver_next s" "re_cleanup_next t = re_cleanup_next s"
    "re_current_open t = Some (m_brk s)"
    "m_bkts t = (m_bkts s)(m_brk s \<mapsto> fresh_bucket (re_bkt_idx s) ?n)"
    by (auto simp: bucket_added_def)
  have "cfg_ok (re_cfg t)" using inv t by (simp add: rinv_def)
  moreover have "ptrs_ok t (bs @ [m_brk s])"
    using inv t by (auto simp: rinv_def ptrs_ok_def elim: option.pred_mono_strong)
  moreover have "bkts_ok L t"
    using inv t by (auto simp: rinv_def bkts_ok_def bucket_ok_fresh cfg_ok_def)
  moreover have "cnt_ok t (bs @ [m_brk s])"
  proof -
    have "map (\<lambda>a. lrb_rec_count (bkt_at t a)) bs = map (\<lambda>a. lrb_rec_count (bkt_at s a)) bs"
      using brk t by (auto simp: bkt_at_def)
    moreover have "lrb_rec_count (bkt_at t (m_brk s)) = 0"
      using t by (simp add: bkt_at_def fresh_bucket_def)
    ultimately show ?thesis using inv t by (simp add: rinv_def cnt_ok_def del: map_eq_conv)
  qed
  moreover have "clients_ok t (bs @ [m_brk s]) ps"
  proof -
    have "client_ok (bs @ [m_brk s]) c" if "client_ok bs c" for c
      using that brk by (auto simp: client_ok_def)
    then show ?thesis using inv t by (auto simp: rinv_def clients_ok_def ident_at_def)
  qed
  ultimately show ?thesis using heap by (simp add: rinv_def)
qed

lemma rec_bucket_add_inv:
  assumes "rinv L s bs ps"
  shows "run never (rec_bucket_add L s) (\<lambda>rc t.
    (rc = - ENOMEM \<and> t = s\<lparr>w_log := Ev_alloc (bucket_alloc_size (ccf_rec_batch_count (re_cfg s))) False # w_log s\<rparr>)
    \<or> (rc = 0 \<and> bucket_added s t \<and> rinv L t (bs @ [m_brk s]) ps))"
proof (rule run_mono [OF rec_bucket_add_heap [of s bs ps L]])
qed (use assms rinv_bucket_added [OF assms] in \<open>auto simp: rinv_def\<close>)

subsection \<open>Changes of the bookkeeping fields of buckets\<close>

definition bkt_core :: "lcap_rec_bucket \<Rightarrow> lcap_rec_bucket" where
  "bkt_core b = b\<lparr>lrb_ready := False, lrb_expiry := \<lparr>tv_sec = 0, tv_nsec = 0\<rparr>\<rparr>"

definition same_core :: "(addr \<rightharpoonup> lcap_rec_bucket) \<Rightarrow> (addr \<rightharpoonup> lcap_rec_bucket) \<Rightarrow> bool" where
  "same_core m m' \<longleftrightarrow> (\<forall>a. map_option bkt_core (m' a) = map_option bkt_core (m a))"

lemma bkt_core_eqD:
  assumes "bkt_core b' = bkt_core b"
  shows "lrb_rec_count b' = lrb_rec_count b" "lrb_records b' = lrb_records b" "lrb_size b' = lrb_size b"
    "lrb_index b' = lrb_index b"
  using assms by (cases b; cases b'; simp add: bkt_core_def)+

lemma bkt_core_simps [simp]:
  "bkt_core (b\<lparr>lrb_ready := r\<rparr>) = bkt_core b" "bkt_core (b\<lparr>lrb_expiry := e\<rparr>) = bkt_core b"
  by (simp_all add: bkt_core_def)

lemma bucket_ok_core: "bkt_core b' = bkt_core b \<Longrightarrow> bucket_ok L n b' = bucket_ok L n b"
  using bkt_core_eqD [of b' b] by (simp add: bucket_ok_def bkt_recs_def)

lemma same_core_dom: "same_core m m' \<Longrightarrow> dom m' = dom m"
  unfolding same_core_def dom_def by (metis map_option_is_None)

lemma same_core_at:
  assumes "same_core m m'"
  shows "lrb_rec_count (the (m' a)) = lrb_rec_count (the (m a))"
    and "bkt_recs (the (m' a)) = bkt_recs (the (m a))"
proof -
  have "map_option bkt_core (m' a) = map_option bkt_core (m a)" using assms by (simp add: same_core_def)
  then have "m' a = m a \<or> bkt_core (the (m' a)) = bkt_core (the (m a))"
    by (cases "m a"; cases "m' a") auto
  then show "lrb_rec_count (the (m' a)) = lrb_rec_count (the (m a))"
    and "bkt_recs (the (m' a)) = bkt_recs (the (m a))"
    using bkt_core_eqD [of "the (m' a)" "the (m a)"] by (auto simp: bkt_recs_def)
qed

lemma rinv_same_core:
  assumes same: "same_core (m_bkts s) m" and inv: "rinv L s bs ps"
  shows "rinv L (s\<lparr>m_bkts := m\<rparr>) bs ps"
proof -
  have "bucket_ok L (ccf_rec_batch_count (re_cfg s)) b" if "m a = Some b" for a b
  proof -
    have "map_option bkt_core (m a) = map_option bkt_core (m_bkts s a)"
      using same by (simp add: same_core_def)
    with that have "map_option bkt_core (m_bkts s a) = Some (bkt_core b)" by simp
    then obtain b' where b': "m_bkts s a = Some b'" "bkt_core b' = bkt_core b" by auto
    have "bucket_ok L (ccf_rec_batch_count (re_cfg s)) b'"
      using inv b'(1) unfolding rinv_def bkts_ok_def by blast
    then show ?thesis unfolding bucket_ok_core [OF b'(2)] .
  qed
  moreover have "cnt_ok (s\<lparr>m_bkts := m\<rparr>) bs"
    using inv same_core_at [OF same] by (simp add: rinv_def cnt_ok_def bkt_at_def)
  ultimately show ?thesis
    using inv same_core_dom [OF same] by (simp add: rinv_defs)
qed

lemma same_core_refl [simp]: "same_core m m"
  by (simp add: same_core_def)

lemma same_core_unready: "same_core m (unready as m)"
  by (simp add: same_core_def unready_def option.map_comp comp_def)

lemma same_core_upd:
  "m a = Some b \<Longrightarrow> bkt_core b' = bkt_core b \<Longrightarrow> same_core m (m(a \<mapsto> b'))"
  by (simp add: same_core_def)

lemma stored_same_core:
  "same_core (m_bkts s) m \<Longrightarrow> stored (s\<lparr>m_bkts := m\<rparr>) = stored s"
  by (simp add: stored_def buckets_of_def bkt_at_def same_core_at)

lemma map_upd_other: "a \<notin> set xs \<Longrightarrow> map (\<lambda>x. f ((m(a := v)) x)) xs = map (\<lambda>x. f (m x)) xs"
  by auto

lemma stored_bucket_added:
  assumes inv: "rinv L s bs ps" and add: "bucket_added s t" and inv': "rinv L t (bs @ [m_brk s]) ps"
  shows "stored t = stored s"
proof -
  have brk: "m_brk s \<notin> set bs" using inv by (auto simp: rinv_defs)
  from add have m: "m_bkts t = (m_bkts s)(m_brk s \<mapsto> fresh_bucket (re_bkt_idx s) (ccf_rec_batch_count (re_cfg s)))"
    by (auto simp: bucket_added_def)
  have "bkt_recs (fresh_bucket i n) = []" for i n by (simp add: bkt_recs_def fresh_bucket_def)
  then show ?thesis
    using map_upd_other [OF brk, of "\<lambda>b. bkt_recs (the b)" "m_bkts s"]
    unfolding stored_def bkt_at_def rinv_lists(1) [OF inv] rinv_lists(1) [OF inv'] m
    by (simp del: map_eq_conv fun_upd_apply) simp
qed

lemma stored_core:
  assumes "rinv L s bs ps" "rinv L t bs ps'" "same_core (m_bkts s) (m_bkts t)"
  shows "stored t = stored s"
  using same_core_at(2) [OF assms(3)] by (simp add: stored_def rinv_lists [OF assms(1)] rinv_lists [OF assms(2)] bkt_at_def)

subsection \<open>Choosing the bucket to deliver\<close>

definition after_in :: "addr list \<Rightarrow> addr \<Rightarrow> ptr" where
  "after_in bs d = head_or (tl (dropWhile (\<lambda>a. a \<noteq> d) bs)) None"

lemma after_in_member: "after_in bs d = Some e \<Longrightarrow> e \<in> set bs"
  unfolding after_in_def
  by (metis dropWhile_eq_Nil_conv head_or_simps(1) head_or_eq_Some list.sel(2) list.set_sel(2)
      option.sel option.distinct(1) hd_in_set set_dropWhileD)

lemma after_in_split: "d \<notin> set as \<Longrightarrow> after_in (as @ d # cs) d = head_or cs None"
  by (induction as) (auto simp: after_in_def)

lemma node_next_after:
  assumes "list_rep (m_nodes s) l xs" "d \<in> set xs"
  shows "node_next d s = Ok (after_in xs d) s"
proof -
  from assms(2) obtain as cs where xs: "xs = as @ d # cs" "d \<notin> set as" by (meson split_list_first)
  with assms(1) list_rep_node [of "m_nodes s" l as d cs] show ?thesis
    by (simp add: node_next_def after_in_split)
qed

text \<open>
  The deadline of the first bucket has passed; the bucket a request for records gets: the first
  one in that case, the one after the last delivered otherwise.
\<close>

definition expired :: "libs \<Rightarrow> reader_env \<Rightarrow> bool" where
  "expired L s \<longleftrightarrow> tv_sec (lib_clock L (w_log s)) > tv_sec (lrb_expiry (bkt_at s (hd (buckets_of s))))"

definition next_bucket :: "libs \<Rightarrow> reader_env \<Rightarrow> ptr" where
  "next_bucket L s = (if expired L s then Some (hd (buckets_of s)) else re_deliver_next s)"

definition bucket_got :: "libs \<Rightarrow> reader_env \<Rightarrow> reader_env" where
  "bucket_got L s =
     s\<lparr>w_log := Ev_clock (lib_clock L (w_log s)) # w_log s,
       m_bkts := (if expired L s
         then unready (takeWhile (\<lambda>a. Some a \<noteq> re_deliver_next s) (buckets_of s)) (m_bkts s)
         else m_bkts s),
       re_deliver_next := Option.bind (next_bucket L s) (after_in (buckets_of s))\<rparr>"

lemma rinv_bkt:
  assumes "rinv L s bs ps" "a \<in> set bs"
  obtains b where "m_bkts s a = Some b" "bucket_ok L (ccf_rec_batch_count (re_cfg s)) b"
proof -
  have "a \<in> dom (m_bkts s)" using assms by (simp add: rinv_def heap_ok_def)
  then obtain b where "m_bkts s a = Some b" by auto
  with assms(1) that show ?thesis by (simp add: rinv_def bkts_ok_def)
qed

lemma rec_bucket_get_eq:
  assumes inv: "rinv L s bs ps"
  shows "rec_bucket_get L s = Ok (next_bucket L s) (bucket_got L s)"
proof -
  have bs: "buckets_of s = bs" using rinv_lists [OF inv] by simp
  have ptrs: "bs \<noteq> []" "re_cleanup_next s = Some (hd bs)"
      "pred_option (\<lambda>d. d \<in> set bs) (re_deliver_next s)"
    and rep: "list_rep (m_nodes s) (re_buckets s) bs" and dom: "dom (m_bkts s) = set bs"
    using inv by (auto simp: rinv_defs)
  obtain b where b: "m_bkts s (hd bs) = Some b"
    using rinv_bkt [OF inv, of "hd bs"] ptrs(1) by auto
  let ?t = "lib_clock L (w_log s)"
  let ?s = "s\<lparr>w_log := Ev_clock ?t # w_log s\<rparr>"
  have mark: "mark_non_ready (m_brk ?s) (Some (hd bs)) ?s =
      Ok () (?s\<lparr>m_bkts := unready (takeWhile (\<lambda>a. Some a \<noteq> re_deliver_next ?s) bs) (m_bkts ?s)\<rparr>)"
    using mark_non_ready_takeWhile [of ?s None bs "m_brk ?s"] rep rinv_fuel [OF inv] dom ptrs(1)
    by (simp add: list_rep_def head_or_eq_Some)
  have nx: "node_next d u = Ok (after_in bs d) u" if "d \<in> set bs" "m_nodes u = m_nodes s" for d u
    using node_next_after [of u "re_buckets s" bs d] rep that by simp
  have "hd bs \<in> set bs" using ptrs(1) by simp
  with ptrs b mark nx show ?thesis
    unfolding rec_bucket_get_def clock_gettime_def bucket_got_def next_bucket_def expired_def bs
    by (cases "re_deliver_next s") (auto simp: get_bkt_def bkt_at_def bucket_next_def Let_def)
qed

lemma rinv_deliver:
  "rinv L s bs ps \<Longrightarrow> pred_option (\<lambda>d. d \<in> set bs) p \<Longrightarrow> rinv L (s\<lparr>re_deliver_next := p\<rparr>) bs ps"
  by (simp add: rinv_defs)

lemma rinv_bucket_got:
  assumes "rinv L s bs ps"
  shows "rinv L (bucket_got L s) bs ps"
proof -
  let ?m = "if expired L s
     then unready (takeWhile (\<lambda>a. Some a \<noteq> re_deliver_next s) (buckets_of s)) (m_bkts s)
     else m_bkts s"
  let ?d = "Option.bind (next_bucket L s) (after_in (buckets_of s))"
  have "pred_option (\<lambda>d. d \<in> set bs) ?d"
    using rinv_lists [OF assms] after_in_member by (auto simp: pred_option_def elim!: Option.bind_eq_Some_conv [THEN iffD1, elim_format])
  moreover have "rinv L (s\<lparr>w_log := l, m_bkts := ?m\<rparr>) bs ps" for l
    using assms same_core_unready by (intro rinv_same_core) auto
  ultimately show ?thesis
    unfolding bucket_got_def by (intro rinv_deliver)
qed

lemma next_bucket_member:
  "rinv L s bs ps \<Longrightarrow> next_bucket L s = Some d \<Longrightarrow> d \<in> set bs"
  using rinv_lists [of L s bs ps] by (auto simp: next_bucket_def rinv_defs split: if_splits)

lemma same_core_got: "same_core (m_bkts s) (m_bkts (bucket_got L s))"
  by (simp add: bucket_got_def same_core_unready)

end
