(* ===== verification/Reader_Handlers.thy ===== *)
theory Reader_Handlers
  imports Reader_Inv
begin

text \<open>
  The request handlers of the reader under its invariant: START, DEQUEUE and FINI return and
  keep it; CLEAR keeps it as long as the first bucket is not ready, or Lustre refuses to clear,
  and otherwise ends in a use of the bucket it has just freed. For each handler an equation or a
  specification gives the state after it and the messages it sends.
\<close>

subsection \<open>The message that carries a bucket\<close>

definition record_bytes :: "libs \<Rightarrow> bytes list \<Rightarrow> bytes" where
  "record_bytes L rs = concat (map (\<lambda>r. take (rec_len L r) r) rs)"

definition bucket_msg :: "libs \<Rightarrow> lcap_rec_bucket \<Rightarrow> bytes" where
  "bucket_msg L b = enqueue_msg (lrb_rec_count b) (record_bytes L (bkt_recs b))"

lemma pack_records_ok:
  "\<forall>r \<in> set rs. rec_len L r \<le> length r \<Longrightarrow> pack_records L (map Some rs) = Inr (record_bytes L rs)"
  by (induction rs) (auto simp: record_bytes_def)

lemma length_record_bytes:
  "\<forall>r \<in> set rs. rec_len L r \<le> length r \<Longrightarrow> length (record_bytes L rs) = sum_list (map (rec_len L) rs)"
  by (induction rs) (auto simp: record_bytes_def)

text \<open>The state in which the message is sent: the deadline of the bucket is ten seconds away.\<close>

definition deadline_set :: "libs \<Rightarrow> addr \<Rightarrow> lcap_rec_bucket \<Rightarrow> reader_env \<Rightarrow> reader_env" where
  "deadline_set L bk b s =
     (let log = Ev_alloc (sizeof_enqueue + lrb_size b) True # w_log s; t = lib_clock L log
      in s\<lparr>w_log := Ev_clock t # log,
           m_bkts := (m_bkts s)(bk \<mapsto> b\<lparr>lrb_expiry := t\<lparr>tv_sec := tv_sec t + 10\<rparr>\<rparr>)\<rparr>)"

lemma enqueue_rec_eq:
  assumes inv: "rinv L s bs ps" and c: "m_clients s a = Some c" "cs_bucket c = Some bk"
    and b: "m_bkts s bk = Some b"
  defines "n \<equiv> sizeof_enqueue + lrb_size b"
  shows "enqueue_rec L a req s =
    (if lib_alloc L (w_log s) n \<and> n < 2 ^ 63
     then peer_rpc_send L None (lr_forward req) (bucket_msg L b) (deadline_set L bk b s)
     else Ok (- ENOMEM) (s\<lparr>w_log := Ev_alloc n False # w_log s\<rparr>))"
proof -
  have ok: "bucket_ok L (ccf_rec_batch_count (re_cfg s)) b"
    using inv b by (simp add: rinv_def bkts_ok_def)
  then have pack: "pack_records L (take (nat (lrb_rec_count b)) (lrb_records b)) =
      Inr (record_bytes L (bkt_recs b))"
    and len: "length (record_bytes L (bkt_recs b)) = lrb_size b"
    and cnt: "\<not> nat (lrb_rec_count b) > length (lrb_records b)"
    by (auto simp: bucket_ok_def pack_records_ok length_record_bytes)
  show ?thesis
    unfolding enqueue_rec_def get_client_def c option.case bindR.simps get_bkt_def b alloc_def n_def
    using pack len cnt b
    by (auto simp: Let_def bucket_set_expiry_time_def clock_gettime_def upd_bkt_def
        deadline_set_def bucket_msg_def)
qed

lemma rinv_deadline_set:
  assumes inv: "rinv L s bs ps" and b: "m_bkts s bk = Some b"
  shows "rinv L (deadline_set L bk b s) bs ps"
proof -
  have "rinv L (s\<lparr>w_log := l, m_bkts := (m_bkts s)(bk \<mapsto> b\<lparr>lrb_expiry := e\<rparr>)\<rparr>) bs ps" for l e
    using inv b by (intro rinv_same_core) (auto intro: same_core_upd)
  then show ?thesis by (simp add: deadline_set_def Let_def)
qed

subsection \<open>Results of a handler\<close>

text \<open>
  The invariant holds again and the socket's input, the configuration, the number of records and
  the changelog are untouched.
\<close>

abbreviation (input) outside :: "reader_env \<Rightarrow> in_event list \<times> lcap_cfg \<times> nat \<times> int \<times> (int + bytes) list" where
  "outside s \<equiv> (w_in s, re_cfg s, re_index s, re_rec_cnt s, m_changelog s)"

lemma outside_more:
  "world.more t = world.more s \<Longrightarrow> w_in t = w_in s \<Longrightarrow> outside t = outside s" for s t :: reader_env
  by (cases s; cases t) simp

definition kept :: "libs \<Rightarrow> reader_env \<Rightarrow> reader_env \<Rightarrow> bool" where
  "kept L s t \<longleftrightarrow> reader_inv L t \<and> outside t = outside s"

lemma keptI: "rinv L t bs ps \<Longrightarrow> outside t = outside s \<Longrightarrow> kept L s t"
  by (simp add: kept_def reader_invI)

lemma peer_rpc_send_kept:
  assumes "rinv L s bs ps"
  shows "run never (peer_rpc_send L src (Some d) m s) (\<lambda>rc t. rinv L t bs ps \<and> outside t = outside s)"
  using peer_rpc_send_returns [of L src d m s] rinv_more [OF _ assms] outside_more
  unfolding run_never by blast

lemma ack_retcode_kept:
  assumes "rinv L s bs ps"
  shows "run never (ack_retcode L src (Some d) m s) (\<lambda>rc t. rinv L t bs ps \<and> outside t = outside s \<and> rc \<le> 0)"
  using ack_retcode_returns [of L src d m s] rinv_more [OF _ assms] outside_more
  unfolding run_never by blast

subsection \<open>Clients\<close>

lemma rinv_upd_client:
  assumes inv: "rinv L s bs ps" and c: "m_clients s a = Some c"
    and c': "cs_ident c' = cs_ident c" "client_ok bs c'"
  shows "rinv L (s\<lparr>m_clients := (m_clients s)(a \<mapsto> c')\<rparr>) bs ps"
proof -
  have "ident_at (s\<lparr>m_clients := (m_clients s)(a \<mapsto> c')\<rparr>) = ident_at s"
    using c c'(1) by (auto simp: ident_at_def fun_eq_iff)
  moreover have "dom ((m_clients s)(a \<mapsto> c')) = dom (m_clients s)" using c by auto
  ultimately show ?thesis
    using inv c'(2) by (simp add: rinv_def heap_ok_def ptrs_ok_def bkts_ok_def cnt_ok_def
        clients_ok_def bkt_at_def)
qed

lemma rinv_set_bucket:
  assumes inv: "rinv L s bs ps" and c: "m_clients s a = Some c"
    and p: "\<And>b. p = Some b \<Longrightarrow> b \<in> set bs \<and> b \<noteq> last bs"
  shows "rinv L (s\<lparr>m_clients := (m_clients s)(a \<mapsto> c\<lparr>cs_bucket := p\<rparr>)\<rparr>) bs ps"
proof (rule rinv_upd_client [OF inv c])
  have "client_ok bs c" using inv c by (simp add: rinv_def clients_ok_def)
  then show "client_ok bs (c\<lparr>cs_bucket := p\<rparr>)" using p by (simp add: client_ok_def)
qed simp

text \<open>The client state registered under an identity.\<close>

definition client_of :: "reader_env \<Rightarrow> conn_id \<Rightarrow> addr option" where
  "client_of s c = find (\<lambda>a. ident_at s a = Some c) (peers_of s)"

lemma client_of_Some:
  assumes "rinv L s bs ps" "client_of s c = Some a"
  obtains cs where "m_clients s a = Some cs" "cs_ident cs = Some c" "client_ok bs cs" "a \<in> set ps"
proof -
  from assms have a: "a \<in> set ps" "ident_at s a = Some c"
    by (auto simp: client_of_def rinv_lists [OF assms(1)] find_Some_iff)
  obtain cs i where "m_clients s a = Some cs" "cs_ident cs = Some i" "client_ok bs cs"
    using rinv_clients [OF assms(1) a(1)] .
  with a that [of cs] show ?thesis by (simp add: ident_at_def)
qed

lemma client_state_get_eq:
  "rinv L s bs ps \<Longrightarrow> wf_cid c \<Longrightarrow> client_state_get (Some c) s = Ok (client_of s c) s"
  by (simp add: client_state_get_find client_of_def rinv_lists)

subsection \<open>START\<close>

definition client_added :: "conn_id \<Rightarrow> int \<Rightarrow> reader_env \<Rightarrow> reader_env \<Rightarrow> bool" where
  "client_added c start s t \<longleftrightarrow> (\<exists>l h lst.
     t = s\<lparr>w_log := l, m_brk := m_brk s + 1,
           m_clients := (m_clients s)(m_brk s \<mapsto>
             \<lparr>cs_start = start, cs_bucket = None, cs_ident = Some c\<rparr>),
           m_nodes := h, re_peers := lst\<rparr>)"

lemma rinv_client_added:
  assumes inv: "rinv L s bs ps" and c: "wf_cid c" "client_of s c = None"
  shows "\<exists>lst h. on_peers list_append (m_brk s)
      (s\<lparr>w_log := l, m_brk := m_brk s + 1,
         m_clients := (m_clients s)(m_brk s \<mapsto> \<lparr>cs_start = st, cs_bucket = None, cs_ident = Some c\<rparr>),
         m_nodes := (m_nodes s)(m_brk s \<mapsto> null_node)\<rparr>) =
    Ok () (s\<lparr>w_log := l, m_brk := m_brk s + 1,
         m_clients := (m_clients s)(m_brk s \<mapsto> \<lparr>cs_start = st, cs_bucket = None, cs_ident = Some c\<rparr>),
         m_nodes := h, re_peers := lst\<rparr>) \<and>
    rinv L (s\<lparr>w_log := l, m_brk := m_brk s + 1,
         m_clients := (m_clients s)(m_brk s \<mapsto> \<lparr>cs_start = st, cs_bucket = None, cs_ident = Some c\<rparr>),
         m_nodes := h, re_peers := lst\<rparr>) bs (ps @ [m_brk s])"
proof -
  let ?a = "m_brk s"
  let ?h = "(m_nodes s)(?a \<mapsto> null_node)"
  let ?c = "\<lparr>cs_start = st, cs_bucket = None, cs_ident = Some c\<rparr>"
  have heap: "heap_ok s bs ps" using inv by (simp add: rinv_def)
  then have fresh: "?a \<notin> set bs" "?a \<notin> set ps" by (auto simp: heap_ok_def)
  then have rep: "list_rep ?h (re_peers s) ps" "list_rep ?h (re_buckets s) bs"
    using heap by (simp_all add: heap_ok_def)
  from dl.append_other [OF rep, of ?a] fresh heap obtain lst h where
    app: "list_append (re_peers s) ?a ?h = Ok lst h" "list_rep h lst (ps @ [?a])"
      "list_rep h (re_buckets s) bs" "dom h = dom ?h"
    by (auto simp: heap_ok_def)
  define t where "t = s\<lparr>w_log := l, m_brk := ?a + 1, m_clients := (m_clients s)(?a \<mapsto> ?c),
      m_nodes := h, re_peers := lst\<rparr>"
  have "heap_ok t bs (ps @ [?a])"
    using heap app(2-4) fresh by (auto simp: heap_ok_def t_def less_Suc_eq)
  moreover have "clients_ok t bs (ps @ [?a])"
  proof -
    have id: "ident_at t = (ident_at s)(?a := Some c)"
      by (auto simp: ident_at_def t_def fun_eq_iff)
    have "Some c \<notin> ident_at s ` set ps"
      using c(2) by (auto simp: client_of_def rinv_lists [OF inv] find_None_iff)
    then have "inj_on (ident_at t) (set (ps @ [?a]))"
      using inv fresh(2) unfolding id by (auto simp: rinv_def clients_ok_def inj_on_def image_iff)
    moreover have "client_ok bs x" if "m_clients t p = Some x" for p x
      using that inv c(1)
      by (auto simp: t_def rinv_def clients_ok_def client_ok_def split: if_splits)
    ultimately show ?thesis by (simp add: clients_ok_def)
  qed
  ultimately have "rinv L t bs (ps @ [?a])"
    using inv by (simp add: rinv_def t_def ptrs_ok_def bkts_ok_def cnt_ok_def bkt_at_def)
  moreover have "on_peers list_append ?a (s\<lparr>w_log := l, m_brk := ?a + 1,
      m_clients := (m_clients s)(?a \<mapsto> ?c), m_nodes := ?h\<rparr>) = Ok () t"
    using app(1) by (simp add: on_list_def t_def)
  ultimately show ?thesis unfolding t_def by blast
qed

text \<open>
  START on a well-formed request: refused for a known client, out of memory, or the client is
  added last and acknowledged.
\<close>

lemma ack_retcode_rc:
  "bindR (ack_retcode L src (Some d) ret s) (\<lambda>rc s. if rc < 0 then Ok rc s else Ok 0 s) =
     ack_retcode L src (Some d) ret s"
  using ack_retcode_returns [of L src d ret s] by auto

lemma conn_id_dup_eq:
  "wf_cid c \<Longrightarrow> conn_id_dup L (Some c) s =
     (case alloc L (sizeof_conn_id + ci_length c) s of (ok, t) \<Rightarrow> Ok (if ok then Some c else None) t)"
  by (cases c) (simp add: conn_id_dup_def wf_cid_def split: prod.splits)

definition start_ok :: "libs \<Rightarrow> conn_id \<Rightarrow> bool" where
  "start_ok L c \<longleftrightarrow> allocs_ok L \<and> ci_length c + 8 < 2 ^ 63"

lemma reader_handle_start_cases:
  assumes inv: "rinv L s bs ps" and req: "lr_body_len req \<ge> sizeof_register"
    "lr_forward req = Some c" "wf_cid c"
  obtains (known) "client_of s c \<noteq> None" "reader_handle_start L req s = Ok (- EALREADY) s"
  | (nomem) l where "client_of s c = None" "\<not> start_ok L c"
      "reader_handle_start L req s = Ok (- ENOMEM) (s\<lparr>w_log := l\<rparr>)" "emits s (s\<lparr>w_log := l\<rparr>) []"
  | (new) t where "client_of s c = None"
      "client_added c (sint (reg_start (dec_register (lr_body req)))) s t" "emits s t []"
      "rinv L t bs (ps @ [m_brk s])"
      "reader_handle_start L req s = ack_retcode L None (Some c) 0 t"
proof (cases "client_of s c")
  case (Some a)
  with known inv req show ?thesis by (simp add: reader_handle_start_def client_state_get_eq)
next
  case None
  let ?n = "sizeof_conn_id + ci_length c"
  let ?l1 = "\<lambda>ok. Ev_alloc sizeof_client_state ok # w_log s"
  let ?ok1 = "lib_alloc L (w_log s) sizeof_client_state"
  let ?ok2 = "lib_alloc L (?l1 True) ?n \<and> ?n < 2 ^ 63"
  let ?l2 = "\<lambda>ok. Ev_alloc ?n ok # ?l1 True"
  let ?st = "sint (reg_start (dec_register (lr_body req)))"
  let ?u = "s\<lparr>w_log := ?l2 True, m_brk := m_brk s + 1,
         m_clients := (m_clients s)(m_brk s \<mapsto> \<lparr>cs_start = ?st, cs_bucket = None, cs_ident = Some c\<rparr>)\<rparr>"
  have quiet: "emits s t []" if "w_log t = ?l1 ok \<or> w_log t = ?l2 ok" for t :: reader_env and ok
    using that by (auto intro: emits_quiet [of _ "[Ev_alloc _ _]"] emits_quiet [of _ "[Ev_alloc _ _, Ev_alloc _ _]"]
        simp: quiet_event_def)
  have head: "reader_handle_start L req s =
    (if \<not> ?ok1 then Ok (- ENOMEM) (s\<lparr>w_log := ?l1 False\<rparr>)
     else if \<not> ?ok2 then Ok (- ENOMEM) (s\<lparr>w_log := ?l2 False\<rparr>)
     else bindR (on_peers list_append (m_brk s) (?u\<lparr>m_nodes := (m_nodes s)(m_brk s \<mapsto> null_node)\<rparr>))
       (\<lambda>_ s. ack_retcode L None (Some c) 0 s))"
    using None req inv
    by (simp add: reader_handle_start_def client_state_get_eq alloc_def conn_id_dup_eq ack_retcode_rc
        Let_def)
  consider "\<not> ?ok1" | "?ok1" "\<not> ?ok2" | "?ok1" "?ok2" by blast
  then show ?thesis
  proof cases
    case 1
    with None head nomem [of "?l1 False"] quiet show ?thesis by (auto simp: start_ok_def allocs_ok_def)
  next
    case 2
    with None head nomem [of "?l2 False"] quiet show ?thesis by (auto simp: start_ok_def allocs_ok_def)
  next
    case 3
    from rinv_client_added [OF inv req(3) None, of ?st "?l2 True"] obtain lst h where
      app: "on_peers list_append (m_brk s) (?u\<lparr>m_nodes := (m_nodes s)(m_brk s \<mapsto> null_node)\<rparr>) =
        Ok () (?u\<lparr>m_nodes := h, re_peers := lst\<rparr>)"
      and r: "rinv L (?u\<lparr>m_nodes := h, re_peers := lst\<rparr>) bs (ps @ [m_brk s])" by blast
    from 3 head app have "reader_handle_start L req s =
      ack_retcode L None (Some c) 0 (?u\<lparr>m_nodes := h, re_peers := lst\<rparr>)" by simp
    with None r show ?thesis
      by (intro new [of "?u\<lparr>m_nodes := h, re_peers := lst\<rparr>"] quiet [of _ True])
        (auto simp: client_added_def)
  qed
qed

subsection \<open>FINI\<close>

definition client_removed :: "addr \<Rightarrow> reader_env \<Rightarrow> reader_env \<Rightarrow> bool" where
  "client_removed a s t \<longleftrightarrow> (\<exists>h lst.
     t = s\<lparr>re_peers := lst, m_clients := (m_clients s)(a := None), m_nodes := h\<rparr>)"

lemma reader_handle_fini_eq:
  assumes inv: "rinv L s bs ps" and req: "lr_body_len req \<ge> sizeof_fini"
    "lr_forward req = Some c" "wf_cid c" and a: "client_of s c = Some a"
  shows "\<exists>t. client_removed a s t \<and> rinv L t bs (remove1 a ps) \<and>
    reader_handle_fini L req s = ack_retcode L None (Some c) 0 t"
proof -
  obtain cs where cs: "m_clients s a = Some cs" and a_ps: "a \<in> set ps"
    using client_of_Some [OF inv a] .
  have heap: "heap_ok s bs ps" using inv by (simp add: rinv_def)
  then have d: "distinct ps" using list_rep_distinct by (auto simp: heap_ok_def)
  from dl.remove_other [of "m_nodes s" "re_peers s" ps "re_buckets s" bs a] heap a_ps obtain lst h where
    rem: "list_remove (re_peers s) a (m_nodes s) = Ok lst h" "list_rep h lst (remove1 a ps)"
      "list_rep h (re_buckets s) bs" "dom h = dom (m_nodes s)"
    by (auto simp: heap_ok_def)
  define t where "t = s\<lparr>re_peers := lst, m_clients := (m_clients s)(a := None), m_nodes := h(a := None)\<rparr>"
  have "a \<notin> set bs" using heap a_ps by (auto simp: heap_ok_def)
  then have "heap_ok t bs (remove1 a ps)"
    using heap rem(2-4) d by (auto simp: heap_ok_def t_def)
  moreover have "clients_ok t bs (remove1 a ps)"
  proof -
    have "inj_on (ident_at s) (set ps)" using inv by (simp add: rinv_def clients_ok_def)
    moreover have "ident_at t x = ident_at s x" if "x \<noteq> a" for x
      using that by (simp add: ident_at_def t_def)
    ultimately have "inj_on (ident_at t) (set (remove1 a ps))"
      using d by (auto simp: inj_on_def)
    then show ?thesis using inv by (auto simp: rinv_def clients_ok_def t_def split: if_splits)
  qed
  ultimately have "rinv L t bs (remove1 a ps)"
    using inv by (simp add: rinv_def t_def ptrs_ok_def bkts_ok_def cnt_ok_def bkt_at_def)
  moreover have "reader_handle_fini L req s = ack_retcode L None (Some c) 0 t"
    using req inv a cs rem(1)
    by (simp add: reader_handle_fini_def client_state_get_eq on_list_def client_state_release_def
        get_client_def t_def)
  moreover have "client_removed a s t" by (auto simp: client_removed_def t_def)
  ultimately show ?thesis by blast
qed

subsection \<open>DEQUEUE\<close>

definition client_bucket :: "reader_env \<Rightarrow> addr \<Rightarrow> ptr" where
  "client_bucket s a = Option.bind (m_clients s a) cs_bucket"

lemma reader_handle_dequeue_eq:
  assumes inv: "rinv L s bs ps" and req: "lr_body_len req \<ge> sizeof_dequeue"
    "lr_forward req = Some c" "wf_cid c" and a: "client_of s c = Some a" "client_bucket s a = None"
  shows "reader_handle_dequeue L req s =
    (case next_bucket L s of
       None \<Rightarrow> Ok 1 (bucket_got L s)
     | Some d \<Rightarrow>
         bindR (if d = last bs then rec_bucket_add L (bucket_got L s) else Ok 0 (bucket_got L s)) (\<lambda>rc s.
         if rc \<noteq> 0 then Ok rc s
         else bindR (upd_client a (\<lambda>c. c\<lparr>cs_bucket := Some d\<rparr>) s) (\<lambda>_ s. enqueue_rec L a req s)))"
proof -
  obtain cs where cs: "m_clients s a = Some cs" using client_of_Some [OF inv a(1)] .
  have cur: "re_current_open s = Some (last bs)" using inv by (simp add: rinv_def ptrs_ok_def)
  have "re_current_open (bucket_got L s) = Some (last bs)" using cur by (simp add: bucket_got_def)
  then show ?thesis
    using req inv a cs rec_bucket_get_eq [OF inv]
    by (cases "next_bucket L s")
      (simp_all add: reader_handle_dequeue_def client_state_get_eq get_client_def client_bucket_def)
qed

text \<open>The state in which a bucket is sent: it is the client's, and it is not the open one.\<close>

definition assigned :: "libs \<Rightarrow> addr \<Rightarrow> addr \<Rightarrow> reader_env \<Rightarrow> reader_env \<Rightarrow> bool" where
  "assigned L a d s t \<longleftrightarrow> (\<exists>u c.
     (if d = last (buckets_of s) then bucket_added (bucket_got L s) u else u = bucket_got L s) \<and>
     m_clients s a = Some c \<and>
     t = u\<lparr>m_clients := (m_clients u)(a \<mapsto> c\<lparr>cs_bucket := Some d\<rparr>)\<rparr>)"

lemma bucket_got_simps [simp]:
  "m_clients (bucket_got L s) = m_clients s" "m_brk (bucket_got L s) = m_brk s"
  "w_in (bucket_got L s) = w_in s" "re_cfg (bucket_got L s) = re_cfg s"
  "re_index (bucket_got L s) = re_index s"
  "re_rec_cnt (bucket_got L s) = re_rec_cnt s" "m_changelog (bucket_got L s) = m_changelog s"
  by (simp_all add: bucket_got_def)

lemma emits_bucket_got: "emits s (bucket_got L s) []"
  by (rule emits_quiet [of _ "[Ev_clock _]"]) (auto simp: bucket_got_def quiet_event_def)

lemma emits_assigned:
  assumes "assigned L a d s t"
  shows "emits s t []"
proof -
  from assms obtain u c where
      "if d = last (buckets_of s) then bucket_added (bucket_got L s) u else u = bucket_got L s"
      "t = u\<lparr>m_clients := (m_clients u)(a \<mapsto> c\<lparr>cs_bucket := Some d\<rparr>)\<rparr>"
    unfolding assigned_def by blast
  then have u: "bucket_added (bucket_got L s) u \<or> u = bucket_got L s" "w_log t = w_log u"
    by (auto split: if_splits)
  then have "w_log t = w_log (bucket_got L s) \<or> (\<exists>n. w_log t = Ev_alloc n True # w_log (bucket_got L s))"
    by (auto simp: bucket_added_def)
  then have "emits (bucket_got L s) t []"
    by (elim disjE exE) (rule emits_quiet [of t "[]"] emits_quiet [of t "[Ev_alloc _ _]"],
      simp, simp add: quiet_event_def)+
  with emits_trans [OF emits_bucket_got] show ?thesis by fastforce
qed

lemma reader_handle_dequeue_cases:
  assumes inv: "rinv L s bs ps" and req: "lr_body_len req \<ge> sizeof_dequeue"
    "lr_forward req = Some c" "wf_cid c" and a: "client_of s c = Some a" "client_bucket s a = None"
    and d: "next_bucket L s = Some d"
  obtains (nomem) l where "\<not> allocs_ok L \<or> bucket_alloc_size (ccf_rec_batch_count (re_cfg s)) \<ge> 2 ^ 63"
      "reader_handle_dequeue L req s = Ok (- ENOMEM) ((bucket_got L s)\<lparr>w_log := l\<rparr>)"
      "emits s ((bucket_got L s)\<lparr>w_log := l\<rparr>) []"
  | (sent) t bs' where "assigned L a d s t" "emits s t []" "rinv L t bs' ps" "d \<in> set bs'" "outside t = outside s"
      "m_bkts t d = m_bkts (bucket_got L s) d" "client_bucket t a = Some d"
      "reader_handle_dequeue L req s = enqueue_rec L a req t"
      "stored t = stored s" "re_deliver_next t = after_in bs d"
      "bs' = (if d = last bs then bs @ [m_brk s] else bs)"
proof -
  let ?s = "bucket_got L s"
  have inv': "rinv L ?s bs ps" by (rule rinv_bucket_got [OF inv])
  have d_bs: "d \<in> set bs" by (rule next_bucket_member [OF inv d])
  have bs: "buckets_of s = bs" by (rule rinv_lists [OF inv])
  have got: "stored ?s = stored s" "re_deliver_next ?s = after_in bs d"
    using stored_core [OF inv inv' same_core_got] d bs by (simp_all add: bucket_got_def)
  have upd: "stored (u\<lparr>m_clients := m\<rparr>) = stored u" for u m
    by (simp add: stored_def buckets_of_def bkt_at_def)
  obtain cs where cs: "m_clients s a = Some cs" using client_of_Some [OF inv a(1)] .
  note eq = reader_handle_dequeue_eq [OF inv req a, unfolded d option.case]
  show ?thesis
  proof (cases "d = last bs")
    case False
    let ?t = "?s\<lparr>m_clients := (m_clients ?s)(a \<mapsto> cs\<lparr>cs_bucket := Some d\<rparr>)\<rparr>"
    have "rinv L ?t bs ps" using inv' cs d_bs False by (intro rinv_set_bucket) auto
    moreover have "reader_handle_dequeue L req s = enqueue_rec L a req ?t"
      using eq False cs by (simp add: upd_client_def)
    ultimately show ?thesis
      using False cs d_bs bs got upd
      by (intro sent [of ?t bs] emits_assigned [of L a d]) (auto simp: assigned_def client_bucket_def)
  next
    case True
    from rec_bucket_add_inv [OF inv', unfolded run_never] obtain rc u where
      add: "rec_bucket_add L ?s = Ok rc u" and
      u: "(rc = - ENOMEM \<and> u = ?s\<lparr>w_log := Ev_alloc (bucket_alloc_size (ccf_rec_batch_count (re_cfg ?s))) False # w_log ?s\<rparr>)
        \<or> (rc = 0 \<and> bucket_added ?s u \<and> rinv L u (bs @ [m_brk ?s]) ps)" by blast
    show ?thesis
    proof (cases "rc = 0")
      case rc: True
      with u have u': "bucket_added ?s u" "rinv L u (bs @ [m_brk s]) ps" by auto
      let ?t = "u\<lparr>m_clients := (m_clients u)(a \<mapsto> cs\<lparr>cs_bucket := Some d\<rparr>)\<rparr>"
      have cu: "m_clients u a = Some cs" "outside u = outside s"
        "m_bkts u = (m_bkts ?s)(m_brk s \<mapsto> fresh_bucket (re_bkt_idx ?s) (ccf_rec_batch_count (re_cfg s)))"
        using u'(1) cs by (auto simp: bucket_added_def)
      have add_state: "stored u = stored ?s" "re_deliver_next u = re_deliver_next ?s"
        using stored_bucket_added [OF inv' u'(1)] u' by (auto simp: bucket_added_def)
      have "d < m_brk s" using inv d_bs by (auto simp: rinv_defs)
      then have "rinv L ?t (bs @ [m_brk s]) ps"
        using u'(2) cu d_bs by (intro rinv_set_bucket) auto
      moreover have "reader_handle_dequeue L req s = enqueue_rec L a req ?t"
        using eq True rc add cu by (simp add: upd_client_def)
      ultimately show ?thesis
        using True cs d_bs bs u' cu \<open>d < m_brk s\<close> got upd add_state
        by (intro sent [of ?t "bs @ [m_brk s]"] emits_assigned [of L a d])
          (auto simp: assigned_def client_bucket_def)
    next
      case rc: False
      let ?n = "bucket_alloc_size (ccf_rec_batch_count (re_cfg s))"
      have "\<not> (allocs_ok L \<and> ?n < 2 ^ 63)"
      proof
        assume "allocs_ok L \<and> ?n < 2 ^ 63"
        then have "fst (alloc L ?n ?s)" by (simp add: alloc_def allocs_ok_def)
        then have "rec_bucket_add L ?s \<noteq> Ok (- ENOMEM) v" for v
          by (auto simp: rec_bucket_add_def on_list_def Let_def split: prod.splits res.splits if_splits)
        with add u rc show False by auto
      qed
      moreover have "emits s (?s\<lparr>w_log := Ev_alloc ?n False # w_log ?s\<rparr>) []"
        by (rule emits_quiet [of _ "[Ev_alloc _ _, Ev_clock _]"]) (auto simp: bucket_got_def quiet_event_def)
      ultimately show ?thesis
        using rc u eq True add by (intro nomem [of "Ev_alloc ?n False # w_log ?s"]) auto
    qed
  qed
qed

subsection \<open>CLEAR\<close>

definition bkt_max :: "libs \<Rightarrow> lcap_rec_bucket \<Rightarrow> int" where
  "bkt_max L b = (if bkt_recs b = [] then - 1 else sint (cr_index L (last (bkt_recs b))))"

lemma rec_bucket_max_index_eq:
  assumes "m_bkts s a = Some b" "bucket_ok L n b"
  shows "rec_bucket_max_index L a s = Ok (bkt_max L b) s"
proof (cases "lrb_rec_count b = 0")
  case True
  with assms show ?thesis by (simp add: rec_bucket_max_index_def get_bkt_def bkt_max_def bkt_recs_def)
next
  case False
  let ?k = "nat (lrb_rec_count b)"
  from False assms(2) have k: "0 < ?k" "?k \<le> length (lrb_records b)"
    and t: "take ?k (lrb_records b) = map Some (bkt_recs b)" and len: "length (bkt_recs b) = ?k"
    by (auto simp: bucket_ok_def bkt_recs_def)
  from k len have ne: "bkt_recs b \<noteq> []" by (cases "bkt_recs b") auto
  from k have "take ?k (lrb_records b) ! (?k - 1) = lrb_records b ! (?k - 1)" by simp
  then have nth: "lrb_records b ! (?k - 1) = Some (last (bkt_recs b))"
    unfolding t using len k last_conv_nth [OF ne] by simp
  have "nat (lrb_rec_count b - 1) = ?k - 1" by simp
  with nth k len assms(1) False show ?thesis
    by (auto simp: rec_bucket_max_index_def get_bkt_def bkt_max_def Let_def)
qed

text \<open>The state once the client's bucket is taken from it and marked ready.\<close>

definition acked :: "addr \<Rightarrow> addr \<Rightarrow> reader_env \<Rightarrow> reader_env" where
  "acked a bk s =
     s\<lparr>m_clients := (m_clients s)(a \<mapsto> (the (m_clients s a))\<lparr>cs_bucket := None\<rparr>),
       m_bkts := (m_bkts s)(bk \<mapsto> (bkt_at s bk)\<lparr>lrb_ready := True\<rparr>)\<rparr>"

lemma rinv_acked:
  assumes inv: "rinv L s bs ps" and c: "m_clients s a = Some c" and bk: "bk \<in> set bs"
  shows "rinv L (acked a bk s) bs ps"
proof -
  obtain b where b: "m_bkts s bk = Some b" using rinv_bkt [OF inv bk] .
  let ?s = "s\<lparr>m_clients := (m_clients s)(a \<mapsto> c\<lparr>cs_bucket := None\<rparr>)\<rparr>"
  have "rinv L ?s bs ps" using inv c by (intro rinv_set_bucket) auto
  then have "rinv L (?s\<lparr>m_bkts := (m_bkts ?s)(bk \<mapsto> b\<lparr>lrb_ready := True\<rparr>)\<rparr>) bs ps"
    using b by (intro rinv_same_core) (auto intro: same_core_upd)
  then show ?thesis using b c by (simp add: acked_def bkt_at_def)
qed

text \<open>One call of \<^verbatim>\<open>llapi_changelog_clear\<close>, for the bucket at the head.\<close>

definition clear_call :: "libs \<Rightarrow> reader_env \<Rightarrow> int" where
  "clear_call L s = lib_ll_clear L (w_log s) (reader_device s) (ccf_clreader (re_cfg s))
     (bkt_max L (bkt_at s (hd (buckets_of s))))"

definition clear_logged :: "libs \<Rightarrow> reader_env \<Rightarrow> reader_env" where
  "clear_logged L s =
     s\<lparr>w_log := Ev_ll_clear (reader_device s) (ccf_clreader (re_cfg s))
          (bkt_max L (bkt_at s (hd (buckets_of s)))) (clear_call L s) # w_log s\<rparr>"

text \<open>The head unlinked and freed with its records; \<^verbatim>\<open>re_cleanup_next\<close> still names it.\<close>

definition head_freed :: "reader_env \<Rightarrow> reader_env \<Rightarrow> bool" where
  "head_freed s t \<longleftrightarrow> (let hb = bkt_at s (hd (buckets_of s)) in \<exists>h lst.
     t = s\<lparr>re_buckets := lst, re_rec_cnt := re_rec_cnt s - lrb_rec_count hb,
           w_log := rev (map (Ev_ll_free \<circ> Some) (bkt_recs hb)) @ w_log s,
           m_bkts := (m_bkts s)(hd (buckets_of s) := None), m_nodes := h\<rparr> \<and>
     heap_ok t (tl (buckets_of s)) (peers_of s))"

lemma head_removed:
  assumes inv: "rinv L s bs ps" and b: "m_bkts s (hd bs) = Some b"
  shows "\<exists>t. bindR (on_buckets list_remove (hd bs) s) (\<lambda>_ s.
      rec_bucket_destroy (hd bs) (s\<lparr>re_rec_cnt := re_rec_cnt s - lrb_rec_count b\<rparr>)) = Ok () t \<and>
    head_freed s t \<and> m_nodes t (hd bs) = None"
proof -
  have heap: "heap_ok s bs ps" and ne: "bs \<noteq> []" using inv by (auto simp: rinv_def ptrs_ok_def)
  have ok: "bucket_ok L (ccf_rec_batch_count (re_cfg s)) b"
    using inv b by (simp add: rinv_def bkts_ok_def)
  have d: "distinct bs" using heap list_rep_distinct by (auto simp: heap_ok_def)
  from dl.remove_other [of "m_nodes s" "re_buckets s" bs "re_peers s" ps "hd bs"] heap ne obtain lst h where
    rem: "list_remove (re_buckets s) (hd bs) (m_nodes s) = Ok lst h" "list_rep h lst (remove1 (hd bs) bs)"
      "list_rep h (re_peers s) ps" "dom h = dom (m_nodes s)"
    by (auto simp: heap_ok_def)
  define t where "t = s\<lparr>re_buckets := lst, re_rec_cnt := re_rec_cnt s - lrb_rec_count b,
     w_log := rev (map (Ev_ll_free \<circ> Some) (bkt_recs b)) @ w_log s,
     m_bkts := (m_bkts s)(hd bs := None), m_nodes := h(hd bs := None)\<rparr>"
  have tl: "remove1 (hd bs) bs = tl bs" "hd bs \<notin> set (tl bs)" "set (tl bs) = set bs - {hd bs}"
    "hd bs \<notin> set ps" "hd bs \<in> set bs"
    using ne d heap by (cases bs; auto simp: heap_ok_def)+
  have t: "heap_ok t (tl bs) ps"
    using heap rem(2-4) tl by (auto simp: heap_ok_def t_def)
  have frees: "rev (map Ev_ll_free (take (nat (lrb_rec_count b)) (lrb_records b))) =
      rev (map (Ev_ll_free \<circ> Some) (bkt_recs b))"
    using ok by (simp add: bucket_ok_def)
  have "bindR (on_buckets list_remove (hd bs) s) (\<lambda>_ s.
      rec_bucket_destroy (hd bs) (s\<lparr>re_rec_cnt := re_rec_cnt s - lrb_rec_count b\<rparr>)) = Ok () t"
    using rem(1) b ok frees
    by (simp add: on_list_def rec_bucket_destroy_def get_bkt_def t_def bucket_ok_def)
  moreover have "m_nodes t (hd bs) = None" by (simp add: t_def)
  moreover have "head_freed s t"
    unfolding head_freed_def Let_def rinv_lists [OF inv] using t b
    by (intro exI conjI) (auto simp: t_def bkt_at_def)
  ultimately show ?thesis by blast
qed

definition clear_result :: "libs \<Rightarrow> conn_id \<Rightarrow> reader_env \<Rightarrow> (int, reader_env) res \<Rightarrow> bool" where
  "clear_result L c s r \<longleftrightarrow>
     (if \<not> lrb_ready (bkt_at s (hd (buckets_of s))) then r = ack_retcode L None (Some c) 0 s
      else if clear_call L s < 0 then r = Ok (clear_call L s) (clear_logged L s)
      else \<exists>t. r = Bad Use_after_free t \<and> head_freed (clear_logged L s) t)"

lemma buckets_of_log [simp]: "buckets_of (s\<lparr>w_log := l\<rparr>) = buckets_of s"
  "peers_of (s\<lparr>w_log := l\<rparr>) = peers_of s" "bkt_at (s\<lparr>w_log := l\<rparr>) = bkt_at s"
  by (simp_all add: buckets_of_def peers_of_def bkt_at_def fun_eq_iff)

lemma clear_loop_result:
  assumes inv: "rinv L s bs ps"
  shows "clear_result L c s (bindR (clear_loop (m_brk s) L (re_cleanup_next s) s) (\<lambda>r s.
      case r of Some rc \<Rightarrow> Ok rc s | None \<Rightarrow> ack_retcode L None (Some c) 0 s))"
proof -
  have ne: "bs \<noteq> []" and cl: "re_cleanup_next s = Some (hd bs)" and bs: "buckets_of s = bs"
    using inv rinv_lists [OF inv] by (auto simp: rinv_def ptrs_ok_def)
  obtain b where b: "m_bkts s (hd bs) = Some b" "bucket_ok L (ccf_rec_batch_count (re_cfg s)) b"
    using rinv_bkt [OF inv, of "hd bs"] ne by auto
  obtain k where k: "m_brk s = Suc k" using rinv_fuel [OF inv] ne by (cases "m_brk s") auto
  have self: "s\<lparr>re_cleanup_next := Some (hd bs)\<rparr> = s" using cl by (cases s) simp
  let ?u = "clear_logged L s"
  note mx = rec_bucket_max_index_eq [OF b]
  have loop: "clear_loop (m_brk s) L (re_cleanup_next s) s =
    (if \<not> lrb_ready b then Ok None s
     else if clear_call L s < 0 then Ok (Some (clear_call L s)) ?u
     else bindR (bindR (on_buckets list_remove (hd bs) ?u) (\<lambda>_ s.
        rec_bucket_destroy (hd bs) (s\<lparr>re_rec_cnt := re_rec_cnt s - lrb_rec_count b\<rparr>))) (\<lambda>_ s.
          bindR (node_next (hd bs) s) (\<lambda>n s. clear_loop k L n s)))"
    unfolding k cl using b(1) mx
    by (simp add: get_bkt_def self clear_call_def clear_logged_def bs bkt_at_def bindR_assoc Let_def)
  have "rinv L ?u bs ps" using inv by (simp add: clear_logged_def)
  moreover have "m_bkts ?u (hd bs) = Some b" using b by (simp add: clear_logged_def)
  ultimately obtain t where "bindR (on_buckets list_remove (hd bs) ?u) (\<lambda>_ s.
        rec_bucket_destroy (hd bs) (s\<lparr>re_rec_cnt := re_rec_cnt s - lrb_rec_count b\<rparr>)) = Ok () t"
      "head_freed ?u t" "m_nodes t (hd bs) = None"
    using head_removed by blast
  with loop b(1) show ?thesis
    by (simp add: clear_result_def bs bkt_at_def node_next_def)
qed

lemma reader_handle_clear_eq:
  assumes inv: "rinv L s bs ps" and req: "lr_body_len req \<ge> sizeof_clear"
    "lr_forward req = Some c" "wf_cid c" and a: "client_of s c = Some a" "client_bucket s a = Some bk"
  shows "clear_result L c (acked a bk s) (reader_handle_clear L req s)"
    and "rinv L (acked a bk s) bs ps"
proof -
  obtain cs where cs: "m_clients s a = Some cs" "client_ok bs cs" using client_of_Some [OF inv a(1)] .
  have bk: "bk \<in> set bs" "cs_bucket cs = Some bk"
    using a(2) cs by (auto simp: client_bucket_def client_ok_def)
  obtain b where b: "m_bkts s bk = Some b" using rinv_bkt [OF inv bk(1)] .
  show inv': "rinv L (acked a bk s) bs ps" by (rule rinv_acked [OF inv cs(1) bk(1)])
  have "re_cleanup_next s \<noteq> None" using inv by (simp add: rinv_def ptrs_ok_def)
  then have "reader_handle_clear L req s =
    bindR (clear_loop (m_brk (acked a bk s)) L (re_cleanup_next (acked a bk s)) (acked a bk s)) (\<lambda>r s.
      case r of Some rc \<Rightarrow> Ok rc s | None \<Rightarrow> ack_retcode L None (Some c) 0 s)"
    unfolding reader_handle_clear_def req(2) using req(1,3) inv a cs b bk
    by (auto simp: client_state_get_eq get_client_def upd_client_def upd_bkt_def acked_def bkt_at_def)
  with clear_loop_result [OF inv', of c] show "clear_result L c (acked a bk s) (reader_handle_clear L req s)"
    by simp
qed

subsection \<open>Every handler keeps the invariant\<close>

text \<open>\<open>uaf\<close>: a request that ends in a use of freed memory is a CLEAR.\<close>

definition uaf :: "lcapnet_request \<Rightarrow> fault \<Rightarrow> reader_env \<Rightarrow> bool" where
  "uaf req e t \<longleftrightarrow> e = Use_after_free \<and> body_op (lr_body req) = rpc_op_code RPC_OP_CLEAR"

lemma start_kept:
  assumes inv: "rinv L s bs ps" and fwd: "lr_forward req = Some c" "wf_cid c"
  shows "run never (reader_handle_start L req s) (\<lambda>rc t. kept L s t)"
proof (cases "lr_body_len req \<ge> sizeof_register")
  case True
  from inv True fwd show ?thesis
  proof (cases rule: reader_handle_start_cases)
    case (new t)
    have "run never (ack_retcode L None (Some c) 0 t) (\<lambda>rc u. rinv L u bs (ps @ [m_brk s]) \<and> outside u = outside t \<and> rc \<le> 0)"
      by (rule ack_retcode_kept [OF new(4)])
    moreover have "outside t = outside s" using new(2) by (auto simp: client_added_def)
    ultimately show ?thesis unfolding new(5) by (elim run_mono) (auto intro: keptI)
  qed (use inv in \<open>auto intro: keptI\<close>)
qed (use inv in \<open>auto intro: keptI simp: reader_handle_start_def\<close>)

lemma fini_kept:
  assumes inv: "rinv L s bs ps" and fwd: "lr_forward req = Some c" "wf_cid c"
  shows "run never (reader_handle_fini L req s) (\<lambda>rc t. kept L s t)"
proof (cases "lr_body_len req \<ge> sizeof_fini \<and> client_of s c \<noteq> None")
  case True
  then obtain a where "client_of s c = Some a" by auto
  from reader_handle_fini_eq [OF inv _ fwd this] True obtain t where
    t: "client_removed a s t" "rinv L t bs (remove1 a ps)"
      "reader_handle_fini L req s = ack_retcode L None (Some c) 0 t" by blast
  have "outside t = outside s" using t(1) by (auto simp: client_removed_def)
  with ack_retcode_kept [OF t(2), of None c 0] show ?thesis
    unfolding t(3) by (elim run_mono) (auto intro: keptI)
next
  case False
  then show ?thesis
    using inv fwd by (auto intro: keptI simp: reader_handle_fini_def client_state_get_eq)
qed

lemma enqueue_rec_kept:
  assumes fwd: "lr_forward req = Some c" and t: "rinv L t bs' ps'" "outside t = outside s" "m_clients t a = Some cs" "cs_bucket cs = Some d"
    "d \<in> set bs'"
  shows "run never (enqueue_rec L a req t) (\<lambda>rc u. kept L s u)"
proof -
  obtain b where b: "m_bkts t d = Some b" using rinv_bkt [OF t(1,5)] .
  have "outside (deadline_set L d b t) = outside s" using t(2) by (simp add: deadline_set_def Let_def)
  with peer_rpc_send_kept [OF rinv_deadline_set [OF t(1) b], of None c "bucket_msg L b"]
  have "run never (peer_rpc_send L None (Some c) (bucket_msg L b) (deadline_set L d b t))
      (\<lambda>rc u. kept L s u)"
    by (elim run_mono) (auto intro: keptI)
  with t(1,2) fwd show ?thesis
    by (auto simp: enqueue_rec_eq [OF t(1,3,4) b] intro: keptI)
qed

lemma dequeue_kept:
  assumes inv: "rinv L s bs ps" and fwd: "lr_forward req = Some c" "wf_cid c"
  shows "run never (reader_handle_dequeue L req s) (\<lambda>rc t. kept L s t)"
proof (cases "lr_body_len req \<ge> sizeof_dequeue \<and> (\<exists>a. client_of s c = Some a \<and> client_bucket s a = None)")
  case True
  then obtain a where len: "lr_body_len req \<ge> sizeof_dequeue"
    and a: "client_of s c = Some a" "client_bucket s a = None" by auto
  have got: "kept L s (bucket_got L s)" "\<And>l. kept L s ((bucket_got L s)\<lparr>w_log := l\<rparr>)"
    using rinv_bucket_got [OF inv] by (auto intro: keptI)
  show ?thesis
  proof (cases "next_bucket L s")
    case None
    with got show ?thesis by (simp add: reader_handle_dequeue_eq [OF inv len fwd a])
  next
    case (Some d)
    from inv len fwd a Some show ?thesis
    proof (cases rule: reader_handle_dequeue_cases)
      case (nomem l)
      with got show ?thesis by simp
    next
      case (sent t bs')
      from sent(7) obtain cs where "m_clients t a = Some cs" "cs_bucket cs = Some d"
        by (auto simp: client_bucket_def bind_eq_Some_conv)
      with enqueue_rec_kept [OF fwd(1) sent(3,5) _ _ sent(4)] sent(8) show ?thesis by simp
    qed
  qed
next
  case False
  then consider "lr_body_len req < sizeof_dequeue" | "client_of s c = None"
    | a where "client_of s c = Some a" "client_bucket s a \<noteq> None" by fastforce
  then show ?thesis
  proof cases
    case 3
    obtain cs where "m_clients s a = Some cs" using client_of_Some [OF inv 3(1)] .
    with 3 inv fwd show ?thesis
      by (auto intro: keptI simp: reader_handle_dequeue_def client_state_get_eq get_client_def
          client_bucket_def)
  qed (use inv fwd in \<open>auto intro: keptI simp: reader_handle_dequeue_def client_state_get_eq\<close>)
qed

lemma clear_result_kept:
  assumes "rinv L t bs ps" "outside t = outside s" "clear_result L c t r"
  shows "run (\<lambda>e _. e = Use_after_free) r (\<lambda>rc u. kept L s u)"
proof -
  have "run never (ack_retcode L None (Some c) 0 t) (\<lambda>rc u. kept L s u)"
    using ack_retcode_kept [OF assms(1), of None c 0] assms(2) by (elim run_mono) (auto intro: keptI)
  then have "run (\<lambda>e _. e = Use_after_free) (ack_retcode L None (Some c) 0 t) (\<lambda>rc u. kept L s u)"
    by (elim run_mono) auto
  moreover have "kept L s (clear_logged L t)"
    using assms(1,2) by (auto intro: keptI simp: clear_logged_def)
  ultimately show ?thesis using assms(3) by (auto simp: clear_result_def split: if_splits)
qed

lemma clear_kept:
  assumes inv: "rinv L s bs ps" and fwd: "lr_forward req = Some c" "wf_cid c"
  shows "run (\<lambda>e _. e = Use_after_free) (reader_handle_clear L req s) (\<lambda>rc t. kept L s t)"
proof (cases "lr_body_len req \<ge> sizeof_clear \<and> (\<exists>a b. client_of s c = Some a \<and> client_bucket s a = Some b)")
  case True
  then obtain a b where len: "lr_body_len req \<ge> sizeof_clear"
    and a: "client_of s c = Some a" "client_bucket s a = Some b" by auto
  note r = reader_handle_clear_eq [OF inv len fwd a]
  show ?thesis by (rule clear_result_kept [OF r(2) _ r(1)]) (simp add: acked_def)
next
  case False
  then consider "lr_body_len req < sizeof_clear" | "client_of s c = None"
    | a where "client_of s c = Some a" "client_bucket s a = None" by fastforce
  then show ?thesis
  proof cases
    case 3
    obtain cs where "m_clients s a = Some cs" using client_of_Some [OF inv 3(1)] .
    with 3 inv fwd show ?thesis
      by (auto intro: keptI simp: reader_handle_clear_def client_state_get_eq get_client_def
          client_bucket_def)
  qed (use inv fwd in \<open>auto intro: keptI simp: reader_handle_clear_def client_state_get_eq\<close>)
qed

lemma handle_one_kept:
  assumes inv: "rinv L s bs ps" and fwd: "lr_forward req = Some c" "wf_cid c"
    and op: "body_op (lr_body req) \<le> RPC_OP_LAST"
  shows "run (uaf req) (reader_rpc_handle_one L (body_op (lr_body req)) req s) (\<lambda>rc t. kept L s t)"
proof -
  from op obtain t where t: "body_op (lr_body req) = rpc_op_code t"
    using rpc_op_of_range rpc_op_of_eq_Some by metis
  have weak: "run (uaf req) m Q" if "run never m Q" for m Q
    using that by (elim run_mono) auto
  have "run (uaf req) (reader_handle_clear L req s) (\<lambda>rc t. kept L s t)" if "t = RPC_OP_CLEAR"
    using clear_kept [OF inv fwd] that t by (elim run_mono) (auto simp: uaf_def)
  moreover have "kept L s s" using inv by (auto intro: keptI)
  ultimately show ?thesis
    unfolding t reader_rpc_handle_one_def rpc_op_of_code option.case
    using start_kept [OF inv fwd, THEN weak] fini_kept [OF inv fwd, THEN weak]
      dequeue_kept [OF inv fwd, THEN weak]
    by (cases t) (simp_all add: reader_rpc_handle_def)
qed

definition rpc_fault :: "lcap_cfg \<Rightarrow> lcapnet_request \<Rightarrow> fault \<Rightarrow> reader_env \<Rightarrow> bool" where
  "rpc_fault cfg req e t \<longleftrightarrow> (if op_overrun cfg req then e = Out_of_bounds else uaf req e t)"

lemma rpc_hdl_kept:
  assumes inv: "reader_inv L s" and fwd: "lr_forward req = Some c" "wf_cid c"
  shows "run (rpc_fault (re_cfg s) req) (changelog_reader_rpc_hdl L req s) (\<lambda>rc t. kept L s t)"
proof (cases "op_overrun (re_cfg s) req")
  case False
  obtain bs ps where r: "rinv L s bs ps" using reader_invE [OF inv] .
  let ?m = "if lr_body_len req < sizeof_hdr then Ok (- EPROTO) s
            else let op = body_op (lr_body req)
                 in if op < RPC_OP_FIRST \<or> op > RPC_OP_LAST then Ok (- EINVAL) s
                    else reader_rpc_handle_one L op req s"
  have reply: "run (uaf req) (ack_retcode L None (Some c) rc t) (\<lambda>_ u. kept L s u)"
    if t: "kept L s t" for rc t
  proof -
    obtain bs' ps' where "rinv L t bs' ps'"
      using t by (auto simp: kept_def elim: reader_invE)
    from ack_retcode_kept [OF this, of None c rc] t show ?thesis
      by (elim run_mono) (auto intro: reader_invI simp: kept_def)
  qed
  have "kept L s s" using inv by (simp add: kept_def)
  then have "run (uaf req) ?m (\<lambda>rc t. kept L s t)"
    using handle_one_kept [OF r fwd] by (auto simp: Let_def)
  then have "run (uaf req) ?m (\<lambda>rc t. run (uaf req)
      (if rc < 0 \<or> rc = 1 then ack_retcode L None (lr_forward req) rc t else Ok rc t) (\<lambda>_ u. kept L s u))"
    using reply fwd(1) by (elim run_mono) auto
  then have "run (uaf req) (changelog_reader_rpc_hdl L req s) (\<lambda>rc t. kept L s t)"
    unfolding rpc_hdl_logged [OF False] run_simps .
  then show ?thesis by (rule run_mono) (use False in \<open>simp_all add: rpc_fault_def\<close>)
qed (simp add: rpc_hdl_overrun rpc_fault_def)

lemma reader_inv_more: "reader_inv L s \<Longrightarrow> world.more t = world.more s \<Longrightarrow> reader_inv L t"
  by (meson reader_invE reader_invI rinv_more)

end
