(* ===== verification/Reader_Enqueue.thy ===== *)
theory Reader_Enqueue
  imports Reader_Handlers
begin

text \<open>
  The other half of the reader: its start, which establishes the invariant, and the loop that
  reads changelog records into buckets. \<open>accepted\<close> is the reference for which records of a
  stretch of the changelog are kept; the loop appends exactly these to the cache, in order.
\<close>

subsection \<open>Storing a record\<close>

definition put_rec :: "libs \<Rightarrow> bytes \<Rightarrow> lcap_rec_bucket \<Rightarrow> lcap_rec_bucket" where
  "put_rec L r b =
     b\<lparr>lrb_rec_count := lrb_rec_count b + 1,
       lrb_records := (lrb_records b)[nat (lrb_rec_count b) := Some r],
       lrb_size := lrb_size b + rec_len L r\<rparr>"

lemma put_rec_ok:
  assumes ok: "bucket_ok L n b" and free: "lrb_rec_count b < n" and r: "rec_len L r \<le> length r"
  shows "bucket_ok L n (put_rec L r b)" "bkt_recs (put_rec L r b) = bkt_recs b @ [r]"
proof -
  let ?k = "nat (lrb_rec_count b)"
  have k: "?k < length (lrb_records b)" "0 \<le> lrb_rec_count b"
    and t: "take ?k (lrb_records b) = map Some (bkt_recs b)"
    using ok free by (auto simp: bucket_ok_def)
  have "nat (lrb_rec_count b + 1) = Suc ?k" using k by simp
  then have take: "take (nat (lrb_rec_count (put_rec L r b))) (lrb_records (put_rec L r b)) =
      map Some (bkt_recs b @ [r])"
    using k(1) t by (simp add: put_rec_def take_Suc_conv_app_nth)
  then show recs: "bkt_recs (put_rec L r b) = bkt_recs b @ [r]"
    unfolding bkt_recs_def [of "put_rec L r b"] by simp
  have "bkt_recs b = map the (take ?k (lrb_records b))" by (simp add: bkt_recs_def)
  show "bucket_ok L n (put_rec L r b)"
    using ok free r take k
    unfolding bucket_ok_def recs by (auto simp: put_rec_def)
qed

text \<open>A state in which the record has been put into the open bucket and counted.\<close>

definition rec_put :: "libs \<Rightarrow> bytes \<Rightarrow> reader_env \<Rightarrow> reader_env" where
  "rec_put L r s =
     (let a = last (buckets_of s)
      in s\<lparr>m_bkts := (m_bkts s)(a \<mapsto> put_rec L r (bkt_at s a))\<rparr>)"

lemma rinv_rec_put:
  assumes inv: "rinv L s bs ps" and r: "rec_len L r \<le> length r"
    and free: "lrb_rec_count (bkt_at s (last bs)) < ccf_rec_batch_count (re_cfg s)"
  shows "rinv L ((rec_put L r s)\<lparr>re_rec_cnt := re_rec_cnt s + 1\<rparr>) bs ps"
    and "stored (rec_put L r s) = stored s @ [r]"
proof -
  let ?a = "last bs" and ?n = "ccf_rec_batch_count (re_cfg s)"
  have bs: "buckets_of s = bs" by (rule rinv_lists [OF inv])
  have ne: "bs \<noteq> []" and d: "distinct bs"
    using inv list_rep_distinct by (auto simp: rinv_defs)
  then obtain as where as: "bs = as @ [?a]" "?a \<notin> set as"
    by (cases bs rule: rev_cases) auto
  obtain b where b: "m_bkts s ?a = Some b" "bucket_ok L ?n b"
    using rinv_bkt [OF inv, of ?a] ne by auto
  note p = put_rec_ok [OF b(2) _ r]
  have free': "lrb_rec_count b < ?n" using free b by (simp add: bkt_at_def)
  let ?m = "(m_bkts s)(?a \<mapsto> put_rec L r b)"
  let ?t = "s\<lparr>m_bkts := ?m, re_rec_cnt := re_rec_cnt s + 1\<rparr>"
  have t: "(rec_put L r s)\<lparr>re_rec_cnt := re_rec_cnt s + 1\<rparr> = ?t"
    using b by (simp add: rec_put_def bs bkt_at_def Let_def)
  have "bkts_ok L ?t"
    using inv p(1) [OF free'] by (auto simp: rinv_def bkts_ok_def)
  moreover have "cnt_ok ?t bs"
  proof -
    have "map (\<lambda>a. lrb_rec_count (the (?m a))) as = map (\<lambda>a. lrb_rec_count (the (m_bkts s a))) as"
      by (rule map_upd_other [OF as(2)])
    then have "sum_list (map (\<lambda>a. lrb_rec_count (bkt_at ?t a)) (as @ [?a])) =
        sum_list (map (\<lambda>a. lrb_rec_count (bkt_at s a)) (as @ [?a])) + 1"
      using b by (simp add: bkt_at_def put_rec_def del: map_eq_conv fun_upd_apply)
        (simp add: put_rec_def)
    then have "sum_list (map (\<lambda>a. lrb_rec_count (bkt_at ?t a)) bs) =
        sum_list (map (\<lambda>a. lrb_rec_count (bkt_at s a)) bs) + 1"
      unfolding as(1) [symmetric] .
    then show ?thesis using inv by (simp add: rinv_def cnt_ok_def)
  qed
  moreover have "dom ?m = dom (m_bkts s)" using b by auto
  ultimately show "rinv L ((rec_put L r s)\<lparr>re_rec_cnt := re_rec_cnt s + 1\<rparr>) bs ps"
    unfolding t using inv by (simp add: rinv_def heap_ok_def ptrs_ok_def clients_ok_def ident_at_def)
  have recs: "map (\<lambda>x. bkt_recs (the (?m x))) as = map (\<lambda>x. bkt_recs (the (m_bkts s x))) as"
    by (rule map_upd_other [OF as(2)])
  have put: "m_bkts (rec_put L r s) = ?m" "buckets_of (rec_put L r s) = bs"
    using b(1) bs by (simp_all add: rec_put_def bkt_at_def buckets_of_def Let_def)
  have "concat (map (\<lambda>x. bkt_recs (the (?m x))) (as @ [?a])) =
      concat (map (\<lambda>x. bkt_recs (the (m_bkts s x))) (as @ [?a])) @ [r]"
    using recs p(2) [OF free'] b(1) by (simp del: map_eq_conv fun_upd_apply) simp
  then show "stored (rec_put L r s) = stored s @ [r]"
    unfolding stored_def bkt_at_def put bs as(1) [symmetric] .
qed

text \<open>What storing a record leaves alone.\<close>

definition store_frame :: "reader_env \<Rightarrow> reader_env \<Rightarrow> bool" where
  "store_frame s t \<longleftrightarrow> re_cfg t = re_cfg s \<and> w_in t = w_in s \<and> m_clients t = m_clients s \<and>
     re_deliver_next t = re_deliver_next s \<and> re_cleanup_next t = re_cleanup_next s \<and>
     re_index t = re_index s"

text \<open>Storing a record: into the open bucket, or into a new one when that is full.\<close>

lemma rec_store_cases:
  assumes inv: "rinv L s bs ps"
  obtains (nomem) l where "changelog_reader_rec_store L r s = Ok (- ENOMEM) (s\<lparr>w_log := l\<rparr>)"
  | (put) u bs' where "changelog_reader_rec_store L r s = Ok 0 (rec_put L r u)" "rinv L u bs' ps"
      "lrb_rec_count (bkt_at u (last bs')) < ccf_rec_batch_count (re_cfg u)"
      "if lrb_rec_count (bkt_at s (last bs)) = ccf_rec_batch_count (re_cfg s)
       then bucket_added s u \<and> bs' = bs @ [m_brk s] else u = s \<and> bs' = bs"
proof -
  let ?n = "ccf_rec_batch_count (re_cfg s)"
  let ?tail = "\<lambda>rc s. if rc \<noteq> 0 then Ok rc s
         else case re_current_open s of
                None \<Rightarrow> Bad Assert_fail s
              | Some c \<Rightarrow>
                  bindR (get_bkt c s) (\<lambda>b s.
                  if \<not> lrb_rec_count b < ?n then Bad Assert_fail s
                  else let idx = nat (lrb_rec_count b)
                       in if idx < length (lrb_records b) then
                            bindR (upd_bkt c (\<lambda>b. b\<lparr>lrb_rec_count := lrb_rec_count b + 1,
                                     lrb_records := (lrb_records b)[idx := Some r],
                                     lrb_size := lrb_size b + rec_len L r\<rparr>) s) (\<lambda>_ s. Ok 0 s)
                          else Bad Out_of_bounds s)"
  have cur: "re_current_open s = Some (last bs)" and ne: "bs \<noteq> []"
    using inv by (auto simp: rinv_def ptrs_ok_def)
  have tail: "?tail 0 t = Ok 0 (rec_put L r t)"
    if t: "rinv L t bs' ps" "lrb_rec_count (bkt_at t (last bs')) < ?n" "re_cfg t = re_cfg s" for t bs'
  proof -
    have c: "re_current_open t = Some (last bs')" and "bs' \<noteq> []"
      using t(1) by (auto simp: rinv_def ptrs_ok_def)
    then obtain b where b: "m_bkts t (last bs') = Some b" "bucket_ok L ?n b"
      using rinv_bkt [OF t(1), of "last bs'"] t(3) by auto
    then have "lrb_rec_count b < ?n" using t(2) by (simp add: bkt_at_def)
    moreover from this b have "nat (lrb_rec_count b) < length (lrb_records b)"
      by (auto simp: bucket_ok_def)
    ultimately show ?thesis using b c rinv_lists(1) [OF t(1)]
      by (simp add: get_bkt_def upd_bkt_def rec_put_def put_rec_def bkt_at_def Let_def)
  qed
  obtain b where b: "m_bkts s (last bs) = Some b" "bucket_ok L ?n b"
    using rinv_bkt [OF inv, of "last bs"] ne by auto
  then have at: "lrb_rec_count (bkt_at s (last bs)) = lrb_rec_count b" by (simp add: bkt_at_def)
  have store: "changelog_reader_rec_store L r s =
      bindR (if lrb_rec_count b = ?n then rec_bucket_add L s else Ok 0 s) ?tail"
    using cur b by (simp add: changelog_reader_rec_store_def get_bkt_def Let_def)
  have pos: "0 < ?n" using inv by (simp add: rinv_def cfg_ok_def)
  show thesis
  proof (cases "lrb_rec_count b = ?n")
    case False
    with b at have free: "lrb_rec_count (bkt_at s (last bs)) < ?n" by (simp add: bucket_ok_def)
    then show thesis using put [OF _ inv free] store tail [OF inv free] False at by simp
  next
    case True
    from rec_bucket_add_inv [OF inv, unfolded run_never] obtain rc u where
      add: "rec_bucket_add L s = Ok rc u" and
      u: "(rc = - ENOMEM \<and> u = s\<lparr>w_log := Ev_alloc (bucket_alloc_size ?n) False # w_log s\<rparr>)
        \<or> (rc = 0 \<and> bucket_added s u \<and> rinv L u (bs @ [m_brk s]) ps)" by blast
    show thesis
    proof (cases "rc = 0")
      case False
      with u add store True nomem show thesis by auto
    next
      case rc: True
      with u have a: "bucket_added s u" "rinv L u (bs @ [m_brk s]) ps" by auto
      then have eqs: "re_cfg u = re_cfg s" "lrb_rec_count (bkt_at u (last (bs @ [m_brk s]))) = 0"
        by (auto simp: bucket_added_def bkt_at_def fresh_bucket_def)
      then have free: "lrb_rec_count (bkt_at u (last (bs @ [m_brk s]))) < ?n"
        using pos by simp
      have "changelog_reader_rec_store L r s = Ok 0 (rec_put L r u)"
        using store tail [OF a(2) free eqs(1)] True rc add by simp
      then show thesis using put [OF _ a(2)] free eqs(1) a(1) True at by simp
    qed
  qed
qed

lemma changelog_reader_rec_store_spec:
  assumes inv: "rinv L s bs ps" and r: "rec_len L r \<le> length r"
  shows "run never (changelog_reader_rec_store L r s) (\<lambda>rc t.
    (rc = - ENOMEM \<and> (\<exists>l. t = s\<lparr>w_log := l\<rparr>)) \<or>
    (rc = 0 \<and> (\<exists>bs'. rinv L (t\<lparr>re_rec_cnt := re_rec_cnt s + 1\<rparr>) bs' ps) \<and> store_frame s t \<and>
     stored t = stored s @ [r] \<and> re_rec_cnt t = re_rec_cnt s \<and> re_srec t = re_srec s \<and>
     re_stats t = re_stats s \<and> m_changelog t = m_changelog s))"
  using inv
proof (cases rule: rec_store_cases [where r = r])
  case (nomem l)
  then show ?thesis by auto
next
  case (put u bs')
  have eqs: "re_rec_cnt u = re_rec_cnt s" "store_frame s u" "re_srec u = re_srec s" "re_stats u = re_stats s"
    "m_changelog u = m_changelog s" "stored u = stored s"
    using put(2,4) stored_bucket_added [OF inv, of u] by (auto simp: bucket_added_def store_frame_def split: if_splits)
  with put(1) rinv_rec_put [OF put(2) r put(3)] show ?thesis
    by (auto simp: rec_put_def store_frame_def Let_def)
qed

subsection \<open>Reading the changelog\<close>

text \<open>
  The records of a stretch that are kept, when the next index wanted is \<open>w\<close>, and the next index
  wanted after it.
\<close>

fun accepted :: "libs \<Rightarrow> 64 word \<Rightarrow> bytes list \<Rightarrow> bytes list" where
  "accepted L w [] = []"
| "accepted L w (r # rs) =
     (if cr_index L r < w then accepted L w rs else r # accepted L (cr_index L r + 1) rs)"

definition next_index :: "libs \<Rightarrow> 64 word \<Rightarrow> bytes list \<Rightarrow> 64 word" where
  "next_index L w rs = (if accepted L w rs = [] then w else cr_index L (last (accepted L w rs)) + 1)"

lemma next_index_Cons:
  "next_index L w (r # rs) =
     (if cr_index L r < w then next_index L w rs else next_index L (cr_index L r + 1) rs)"
  by (simp add: next_index_def)

text \<open>
  The cache after reading: the changelog \<open>xs\<close> splits into the records taken, at most one result
  that was received and not stored, and what is left.
\<close>

definition grown :: "libs \<Rightarrow> (int + bytes) list \<Rightarrow> reader_env \<Rightarrow> int \<Rightarrow> reader_env \<Rightarrow> bool" where
  "grown L xs s k t \<longleftrightarrow> store_frame s t \<and> (\<exists>taken lost.
     xs = map Inr taken @ lost @ m_changelog t \<and> length lost \<le> 1 \<and>
     k = int (length (accepted L (re_srec s) taken)) \<and>
     stored t = stored s @ accepted L (re_srec s) taken \<and>
     re_srec t = next_index L (re_srec s) taken \<and>
     re_rec_cnt t = re_rec_cnt s + k \<and>
     rs_rec_read (re_stats t) = rs_rec_read (re_stats s) + k)"

lemma grown_stop:
  "store_frame s t \<Longrightarrow> stored t = stored s \<Longrightarrow> re_srec t = re_srec s \<Longrightarrow> re_rec_cnt t = re_rec_cnt s \<Longrightarrow>
     re_stats t = re_stats s \<Longrightarrow> xs = lost @ m_changelog t \<Longrightarrow> length lost \<le> 1 \<Longrightarrow> grown L xs s 0 t"
  unfolding grown_def by (auto intro!: exI [of _ "[]"] exI [of _ lost] simp: next_index_def)

lemma grown_skip:
  assumes "grown L xs u k t" "cr_index L r < re_srec s" "store_frame s u" "stored u = stored s"
    "re_srec u = re_srec s" "re_rec_cnt u = re_rec_cnt s" "re_stats u = re_stats s"
  shows "grown L (Inr r # xs) s k t"
proof -
  from assms(1) obtain taken lost where "xs = map Inr taken @ lost @ m_changelog t" "length lost \<le> 1"
     "k = int (length (accepted L (re_srec u) taken))"
     "stored t = stored u @ accepted L (re_srec u) taken" "re_srec t = next_index L (re_srec u) taken"
     "re_rec_cnt t = re_rec_cnt u + k" "rs_rec_read (re_stats t) = rs_rec_read (re_stats u) + k"
     "store_frame u t" by (auto simp: grown_def)
  with assms(2-) show ?thesis
    unfolding grown_def
    by (auto intro!: exI [of _ "r # taken"] exI [of _ lost] simp: next_index_Cons store_frame_def)
qed

lemma grown_store:
  assumes "grown L xs u k t" "\<not> cr_index L r < re_srec s" "store_frame s u" "stored u = stored s @ [r]"
    "re_srec u = cr_index L r + 1" "re_rec_cnt u = re_rec_cnt s + 1"
    "rs_rec_read (re_stats u) = rs_rec_read (re_stats s) + 1"
  shows "grown L (Inr r # xs) s (k + 1) t"
proof -
  from assms(1) obtain taken lost where "xs = map Inr taken @ lost @ m_changelog t" "length lost \<le> 1"
     "k = int (length (accepted L (re_srec u) taken))"
     "stored t = stored u @ accepted L (re_srec u) taken" "re_srec t = next_index L (re_srec u) taken"
     "re_rec_cnt t = re_rec_cnt u + k" "rs_rec_read (re_stats t) = rs_rec_read (re_stats u) + k"
     "store_frame u t" by (auto simp: grown_def)
  with assms(2-) show ?thesis
    unfolding grown_def
    by (auto intro!: exI [of _ "r # taken"] exI [of _ lost] simp: next_index_Cons store_frame_def)
qed

lemma stored_upd [simp]:
  "stored (s\<lparr>w_log := l\<rparr>) = stored s" "stored (s\<lparr>m_changelog := c\<rparr>) = stored s"
  "stored (s\<lparr>re_srec := w\<rparr>) = stored s" "stored (s\<lparr>re_stats := st\<rparr>) = stored s"
  "stored (s\<lparr>re_rec_cnt := n\<rparr>) = stored s" "stored (s\<lparr>re_clpriv := p\<rparr>) = stored s"
  by (simp_all add: stored_def buckets_of_def bkt_at_def)

text \<open>What the changelog delivers: records as long as they say, and no result code 0 with none.\<close>

definition changelog_ok :: "libs \<Rightarrow> (int + bytes) list \<Rightarrow> bool" where
  "changelog_ok L xs \<longleftrightarrow> Inl 0 \<notin> set xs \<and> (\<forall>r. Inr r \<in> set xs \<longrightarrow> rec_len L r \<le> length r)"

definition limit :: "reader_env \<Rightarrow> int" where
  "limit s = ccf_rec_batch_count (re_cfg s) * ccf_max_bkt (re_cfg s)"

lemma changelog_reader_full_eq:
  "cfg_ok (re_cfg s) \<Longrightarrow> changelog_reader_full s = Ok (re_rec_cnt s \<ge> limit s) s"
  by (simp add: changelog_reader_full_def cfg_ok_def limit_def)

definition counted :: "libs \<Rightarrow> bytes \<Rightarrow> reader_env \<Rightarrow> reader_env" where
  "counted L r t = t\<lparr>re_srec := cr_index L r + 1,
     re_stats := (re_stats t)\<lparr>rs_rec_read := rs_rec_read (re_stats t) + 1\<rparr>,
     re_rec_cnt := re_rec_cnt t + 1\<rparr>"

lemma rec_store_counted:
  assumes inv: "rinv L s bs ps" and r: "rec_len L r \<le> length r"
  shows "run never (changelog_reader_rec_store L r s) (\<lambda>rc t.
    (rc = - ENOMEM \<and> (\<exists>l. t = s\<lparr>w_log := l\<rparr>)) \<or>
    (rc = 0 \<and> (\<exists>bs'. rinv L (counted L r t) bs' ps) \<and> store_frame s (counted L r t) \<and>
     stored (counted L r t) = stored s @ [r] \<and> re_rec_cnt (counted L r t) = re_rec_cnt s + 1 \<and>
     re_srec (counted L r t) = cr_index L r + 1 \<and> m_changelog (counted L r t) = m_changelog s \<and>
     rs_rec_read (re_stats (counted L r t)) = rs_rec_read (re_stats s) + 1))"
proof -
  have eq: "counted L r t = t\<lparr>re_rec_cnt := re_rec_cnt t + 1, re_srec := cr_index L r + 1,
     re_stats := (re_stats t)\<lparr>rs_rec_read := rs_rec_read (re_stats t) + 1\<rparr>\<rparr>" for t
    by (simp add: counted_def)
  from changelog_reader_rec_store_spec [OF assms] show ?thesis
    by (elim run_mono) (auto simp: eq store_frame_def)
qed

definition loop_post ::
    "libs \<Rightarrow> (int + bytes) list \<Rightarrow> reader_env \<Rightarrow> addr list \<Rightarrow> int \<Rightarrow> int \<Rightarrow> int \<times> int \<Rightarrow> reader_env \<Rightarrow> bool" where
  "loop_post L xs s ps bsz n = (\<lambda>(rc, n') t. grown L xs s (n' - n) t \<and> (\<exists>bs'. rinv L t bs' ps) \<and>
     re_rec_cnt t \<le> limit s \<and> n' \<le> bsz)"

text \<open>The rest of the loop once a record is stored and counted.\<close>

definition after_store ::
    "libs \<Rightarrow> int \<Rightarrow> int \<Rightarrow> (int + bytes) list \<Rightarrow> (int \<times> int) reader_op" where
  "after_store L bsz n xs t =
     (if n + 1 \<ge> bsz then Ok (0, n + 1) t
      else bindR (changelog_reader_full t) (\<lambda>full s.
           if full then Ok (0, n + 1) s else enqueue_loop L bsz (n + 1) xs s))"

lemma after_store_post:
  assumes g: "\<And>k t'. grown L xs t k t' \<Longrightarrow> grown L (x # xs) s (k + 1) t'"
    and t: "rinv L t bs ps" "limit t = limit s" "re_rec_cnt t \<le> limit s" "m_changelog t = xs" "n < bsz"
    and IH: "n + 1 < bsz \<Longrightarrow> re_rec_cnt t < limit t \<Longrightarrow>
      run never (enqueue_loop L bsz (n + 1) xs t) (loop_post L xs t ps bsz (n + 1))"
  shows "run never (after_store L bsz n xs t) (loop_post L (x # xs) s ps bsz n)"
proof -
  have cfg: "cfg_ok (re_cfg t)" using t(1) by (simp add: rinv_def)
  have "grown L xs t 0 t"
    using t(4) by (intro grown_stop [of _ _ _ "[]"]) (auto simp: store_frame_def)
  with g [of 0 t] have stop: "loop_post L (x # xs) s ps bsz n (0, n + 1) t"
    using t by (auto simp: loop_post_def)
  have "run never (enqueue_loop L bsz (n + 1) xs t) (loop_post L (x # xs) s ps bsz n)"
    if c: "n + 1 < bsz" "re_rec_cnt t < limit t"
  proof (rule run_mono [OF IH [OF c]])
    fix y t' assume "loop_post L xs t ps bsz (n + 1) y t'"
    moreover obtain rc m where "y = (rc, m)" by (cases y)
    ultimately show "loop_post L (x # xs) s ps bsz n y t'"
      using g [of "m - (n + 1)" t'] t(2) by (simp add: loop_post_def)
  qed simp
  with stop show ?thesis by (auto simp: after_store_def changelog_reader_full_eq [OF cfg])
qed

lemma enqueue_loop_Inr:
  fixes s :: reader_env and L :: libs and r :: bytes and xs :: "(int + bytes) list"
  defines "u \<equiv> s\<lparr>w_log := Ev_ll_recv (Inr r) # w_log s, m_changelog := xs\<rparr>"
  defines "v \<equiv> u\<lparr>w_log := Ev_term_sig (lib_term_sig L (w_log u)) # w_log u\<rparr>"
  shows "enqueue_loop L bsz n (Inr r # xs) s =
    (if lib_term_sig L (w_log u) then Ok (0, n) v
     else if cr_index L r < re_srec v then enqueue_loop L bsz n xs v
     else bindR (changelog_reader_rec_store L r v) (\<lambda>rc s.
            if rc \<noteq> 0 then Ok (rc, n) s else after_store L bsz n xs (counted L r s)))"
  unfolding counted_def after_store_def enqueue_loop.simps Let_def
  by (simp add: read_term_sig_def u_def v_def)

lemma enqueue_loop_spec:
  assumes "rinv L s bs ps" "changelog_ok L xs" "m_changelog s = xs" "re_rec_cnt s < limit s" "n < bsz"
  shows "run never (enqueue_loop L bsz n xs s) (loop_post L xs s ps bsz n)"
  using assms
proof (induction xs arbitrary: n s bs)
  case Nil
  then show ?case
    by (auto intro!: grown_stop [of _ _ _ "[]"] simp: store_frame_def loop_post_def)
next
  case (Cons x xs)
  show ?case
  proof (cases x)
    case (Inl rc)
    with Cons.prems show ?thesis
      by (auto intro!: grown_stop [of _ _ _ "[Inl rc]"]
          simp: store_frame_def changelog_ok_def Let_def loop_post_def)
  next
    case (Inr r)
    define u where "u = s\<lparr>w_log := Ev_ll_recv (Inr r) # w_log s, m_changelog := xs\<rparr>"
    define v where "v = u\<lparr>w_log := Ev_term_sig (lib_term_sig L (w_log u)) # w_log u\<rparr>"
    have r: "rec_len L r \<le> length r" and ok: "changelog_ok L xs"
      using Cons.prems Inr by (auto simp: changelog_ok_def)
    have v: "rinv L v bs ps" "m_changelog v = xs" "re_rec_cnt v = re_rec_cnt s" "store_frame s v"
      "stored v = stored s" "re_srec v = re_srec s" "re_stats v = re_stats s" "limit v = limit s"
      using Cons.prems by (auto simp: u_def v_def store_frame_def limit_def)
    note loop = enqueue_loop_Inr [of L bsz n r xs s, folded u_def, folded v_def]
    have stop: "loop_post L (x # xs) s ps bsz n (rc, n) (v\<lparr>w_log := l\<rparr>)" for rc l
    proof -
      have "grown L (x # xs) s 0 (v\<lparr>w_log := l\<rparr>)"
        using v Inr by (intro grown_stop [of _ _ _ "[x]"]) (auto simp: store_frame_def)
      with v Cons.prems show ?thesis by (auto simp: loop_post_def)
    qed
    consider "lib_term_sig L (w_log u)" | "\<not> lib_term_sig L (w_log u)" "cr_index L r < re_srec s"
      | "\<not> lib_term_sig L (w_log u)" "\<not> cr_index L r < re_srec s" by blast
    then show ?thesis
    proof cases
      case 1
      with Inr loop stop [of 0 "w_log v"] show ?thesis by simp
    next
      case 2
      have "run never (enqueue_loop L bsz n xs v) (loop_post L xs v ps bsz n)"
        using v ok Cons.prems by (intro Cons.IH) auto
      then have "run never (enqueue_loop L bsz n xs v) (loop_post L (x # xs) s ps bsz n)"
        using v 2 Inr by (elim run_mono) (auto intro: grown_skip simp: loop_post_def)
      with 2 loop v Inr show ?thesis by simp
    next
      case 3
      have "run never (after_store L bsz n xs (counted L r t)) (loop_post L (x # xs) s ps bsz n)"
        if t: "rinv L (counted L r t) bs' ps" "store_frame v (counted L r t)"
          "stored (counted L r t) = stored v @ [r]" "re_rec_cnt (counted L r t) = re_rec_cnt v + 1"
          "re_srec (counted L r t) = cr_index L r + 1" "m_changelog (counted L r t) = m_changelog v"
          "rs_rec_read (re_stats (counted L r t)) = rs_rec_read (re_stats v) + 1" for t bs'
      proof (rule after_store_post [OF _ t(1)])
        show "grown L (x # xs) s (k + 1) t'" if "grown L xs (counted L r t) k t'" for k t'
          using grown_store [OF that, of r s] t v 3 Inr by (auto simp: store_frame_def)
        show "run never (enqueue_loop L bsz (n + 1) xs (counted L r t))
            (loop_post L xs (counted L r t) ps bsz (n + 1))"
          if "n + 1 < bsz" "re_rec_cnt (counted L r t) < limit (counted L r t)"
          using t v ok that by (intro Cons.IH) auto
      qed (use t v Cons.prems in \<open>auto simp: limit_def store_frame_def\<close>)
      then have "run never (bindR (changelog_reader_rec_store L r v) (\<lambda>rc s.
            if rc \<noteq> 0 then Ok (rc, n) s else after_store L bsz n xs (counted L r s)))
          (loop_post L (x # xs) s ps bsz n)"
        unfolding run_simps(3)
        using rec_store_counted [OF v(1) r] stop by (elim run_mono) auto
      with 3 loop v Inr show ?thesis by simp
    qed
  qed
qed

lemma grown_log:
  assumes "grown L xs u k t" "u = s\<lparr>w_log := l, re_clpriv := p\<rparr>"
  shows "grown L xs s k t"
  using assms(1) unfolding grown_def assms(2) store_frame_def by auto

lemma grown_fini:
  "grown L xs s k t \<Longrightarrow> grown L xs s k (t\<lparr>w_log := l, re_clpriv := p\<rparr>)"
  unfolding grown_def store_frame_def by auto

definition enq_post :: "libs \<Rightarrow> reader_env \<Rightarrow> addr list \<Rightarrow> reader_env \<Rightarrow> bool" where
  "enq_post L s ps t \<longleftrightarrow> (\<exists>k. grown L (m_changelog s) s k t \<and> k \<le> ccf_rec_batch_count (re_cfg s)) \<and>
     (\<exists>bs'. rinv L t bs' ps) \<and> re_rec_cnt t \<le> limit s"

lemma enq_post_fini: "enq_post L s ps t \<Longrightarrow> enq_post L s ps (t\<lparr>w_log := l, re_clpriv := p\<rparr>)"
  by (auto simp: enq_post_def intro: grown_fini)

lemma enq_post_idle:
  assumes "rinv L s bs ps" "re_rec_cnt s \<le> limit s"
  shows "enq_post L s ps s"
proof -
  have "grown L (m_changelog s) s 0 s"
    by (intro grown_stop [of _ _ _ "[]"]) (auto simp: store_frame_def)
  moreover have "0 \<le> ccf_rec_batch_count (re_cfg s)" using assms by (simp add: rinv_def cfg_ok_def)
  ultimately show ?thesis using assms by (auto simp: enq_post_def)
qed

lemma enqueue_run:
  assumes inv: "rinv L s bs ps" and ok: "changelog_ok L (m_changelog s)" and cnt: "re_rec_cnt s < limit s"
    and u: "u = s\<lparr>w_log := l, re_clpriv := p\<rparr>"
  shows "run never (bindR (enqueue_loop L (ccf_rec_batch_count (re_cfg u)) 0 (m_changelog u) u)
      (\<lambda>(rc, n) s. if rc = 1 \<or> rc = - EAGAIN \<or> rc = - EPROTO
         then Ok rc (s\<lparr>w_log := Ev_ll_fini # w_log s, re_clpriv := False\<rparr>) else Ok rc s))
    (\<lambda>rc t. enq_post L s ps t)"
proof -
  let ?n = "ccf_rec_batch_count (re_cfg s)"
  have "0 < ?n" using inv by (simp add: rinv_def cfg_ok_def)
  then have "run never (enqueue_loop L ?n 0 (m_changelog s) u) (loop_post L (m_changelog s) u ps ?n 0)"
    using inv ok cnt u by (intro enqueue_loop_spec [of _ _ bs]) (auto simp: limit_def)
  then have "run never (enqueue_loop L ?n 0 (m_changelog s) u) (\<lambda>_ t. enq_post L s ps t)"
  proof (rule run_mono)
    fix y t assume "loop_post L (m_changelog s) u ps ?n 0 y t"
    then show "enq_post L s ps t"
      using u by (auto simp: loop_post_def enq_post_def limit_def intro: grown_log [OF _ refl])
  qed simp
  then have "run never (enqueue_loop L ?n 0 (m_changelog s) u) (\<lambda>y t. run never
      ((case y of (rc, n) \<Rightarrow> (\<lambda>s. if rc = 1 \<or> rc = - EAGAIN \<or> rc = - EPROTO
         then Ok rc (s\<lparr>w_log := Ev_ll_fini # w_log s, re_clpriv := False\<rparr>) else Ok rc s)) t)
      (\<lambda>rc t. enq_post L s ps t))"
    by (rule run_mono) (simp_all add: enq_post_fini split_def)
  with u show ?thesis by simp
qed

lemma changelog_reader_enqueue_spec:
  assumes inv: "rinv L s bs ps" and ok: "changelog_ok L (m_changelog s)" and cnt: "re_rec_cnt s \<le> limit s"
  shows "run never (changelog_reader_enqueue L s) (\<lambda>rc t. enq_post L s ps t)"
proof -
  have cfg: "cfg_ok (re_cfg s)" using inv by (simp add: rinv_def)
  have self: "s\<lparr>w_log := w_log s, re_clpriv := re_clpriv s\<rparr> = s" by (cases s) simp
  note idle = enq_post_idle [OF inv cnt]
  let ?rc = "lib_ll_start L (w_log s) (CHANGELOG_FLAG_JOBID L) (reader_device s) (re_srec s)"
  let ?l = "Ev_ll_start (CHANGELOG_FLAG_JOBID L) (reader_device s) (re_srec s) ?rc # w_log s"
  consider "limit s \<le> re_rec_cnt s" | "re_rec_cnt s < limit s" "re_clpriv s"
    | "re_rec_cnt s < limit s" "\<not> re_clpriv s" by linarith
  then show ?thesis
  proof cases
    case 1
    with idle show ?thesis
      by (simp add: changelog_reader_enqueue_def changelog_reader_full_eq [OF cfg])
  next
    case 2
    with enqueue_run [OF inv ok _ self [symmetric]] show ?thesis
      unfolding changelog_reader_enqueue_def changelog_reader_full_eq [OF cfg] by simp
  next
    case 3
    with enqueue_run [OF inv ok _ refl, of "?rc = 0" ?l] enq_post_fini [OF idle] show ?thesis
      unfolding changelog_reader_enqueue_def changelog_reader_full_eq [OF cfg]
      by (cases "?rc = 0") (simp_all add: Let_def)
  qed
qed

subsection \<open>The records kept are in order\<close>

lemma word_less_inc: "(x :: 64 word) < y \<Longrightarrow> x < x + 1"
  by unat_arith

lemma accepted_above:
  assumes "\<forall>r \<in> set rs. cr_index L r < - 1" "x \<in> set (accepted L w rs)"
  shows "w \<le> cr_index L x"
  using assms
proof (induction rs arbitrary: w)
  case (Cons r rs)
  show ?case
  proof (cases "cr_index L r < w \<or> x = r")
    case True
    with Cons show ?thesis by (auto split: if_splits)
  next
    case False
    with Cons.prems have "x \<in> set (accepted L (cr_index L r + 1) rs)" by auto
    with Cons have "cr_index L r + 1 \<le> cr_index L x" by auto
    moreover have "cr_index L r < cr_index L r + 1" using Cons.prems(1) word_less_inc by auto
    ultimately show ?thesis using False by auto
  qed
qed simp

lemma accepted_sorted:
  "\<forall>r \<in> set rs. cr_index L r < - 1 \<Longrightarrow> sorted_wrt (<) (map (cr_index L) (accepted L w rs))"
proof (induction rs arbitrary: w)
  case (Cons r rs)
  have "cr_index L r < cr_index L x" if "x \<in> set (accepted L (cr_index L r + 1) rs)" for x
  proof -
    have "cr_index L r + 1 \<le> cr_index L x" using accepted_above that Cons.prems by auto
    moreover have "cr_index L r < cr_index L r + 1" using Cons.prems word_less_inc by auto
    ultimately show ?thesis by simp
  qed
  with Cons show ?case by auto
qed simp

end
