(* ===== verification/Reader_Loop.thy ===== *)
theory Reader_Loop
  imports Reader_Enqueue
begin

text \<open>
  The life of a reader thread: its start establishes the invariant, every turn of the main loop
  (reading records, serving requests) keeps it, and the faults the thread can end in are tied to
  what causes them: a request that came in, the identity at its start, the clock at its end.
\<close>

subsection \<open>Start\<close>

definition fresh_memory :: "reader_env \<Rightarrow> bool" where
  "fresh_memory s \<longleftrightarrow> m_nodes s = Map.empty \<and> m_bkts s = Map.empty \<and> m_clients s = Map.empty"

definition pointers_set :: "reader_env \<Rightarrow> reader_env" where
  "pointers_set t =
     t\<lparr>re_current_open := l_first (re_buckets t), re_deliver_next := l_first (re_buckets t),
       re_cleanup_next := l_first (re_buckets t)\<rparr>"

text \<open>A cache of which nothing has been delivered yet, as after the start of the thread.\<close>

definition nothing_given :: "reader_env \<Rightarrow> bool" where
  "nothing_given s \<longleftrightarrow> re_deliver_next s = re_cleanup_next s \<and> (\<forall>a \<in> set (peers_of s). client_bucket s a = None) \<and>
     (\<forall>d \<in> set (buckets_of s). \<not> lrb_ready (bkt_at s d))"

definition begun :: "libs \<Rightarrow> lcap_cfg \<Rightarrow> nat \<Rightarrow> reader_env \<Rightarrow> reader_env \<Rightarrow> bool" where
  "begun L cfg idx s t \<longleftrightarrow> rinv L t [m_brk s] [] \<and> re_cfg t = cfg \<and> re_index t = idx \<and>
     w_in t = w_in s \<and> stored t = [] \<and> re_rec_cnt t = 0 \<and> re_srec t = 0 \<and>
     m_changelog t = m_changelog s \<and> nothing_given t"

definition of_cfg :: "lcap_cfg \<Rightarrow> nat \<Rightarrow> reader_env \<Rightarrow> bool" where
  "of_cfg cfg idx t \<longleftrightarrow> re_cfg t = cfg \<and> re_index t = idx"

lemma rec_bucket_add_first:
  assumes cfg: "cfg_ok cfg" and mem: "fresh_memory s"
  shows "run never (rec_bucket_add L (reader_zero cfg idx now s)) (\<lambda>rc t.
    (rc = - ENOMEM \<and> of_cfg cfg idx t) \<or> (rc = 0 \<and> begun L cfg idx s (pointers_set t)))"
proof -
  define z where "z = reader_zero cfg idx now s"
  have z: "heap_ok z [] []" "cfg_ok (re_cfg z)" "m_brk z = m_brk s"
    using mem cfg by (simp_all add: heap_ok_def z_def reader_zero_def fresh_memory_def)
  have "run never (rec_bucket_add L z) (\<lambda>rc t.
    (rc = - ENOMEM \<and> of_cfg cfg idx t) \<or> (rc = 0 \<and> begun L cfg idx s (pointers_set t)))"
  proof (rule run_mono [OF rec_bucket_add_heap [OF z(2,1)]])
    fix rc t
    assume "(rc = - ENOMEM \<and> t = z\<lparr>w_log := Ev_alloc (bucket_alloc_size (ccf_rec_batch_count (re_cfg z))) False # w_log z\<rparr>)
      \<or> (rc = 0 \<and> bucket_added z t \<and> heap_ok t ([] @ [m_brk z]) [])"
    then consider "rc = - ENOMEM" "of_cfg cfg idx t" | "rc = 0" "bucket_added z t" "heap_ok t [m_brk s] []"
      using z(3) by (auto simp: of_cfg_def z_def reader_zero_def)
    then show "(rc = - ENOMEM \<and> of_cfg cfg idx t) \<or> (rc = 0 \<and> begun L cfg idx s (pointers_set t))"
    proof cases
      case 2
      have f: "l_first (re_buckets t) = Some (m_brk s)"
        using 2(3) by (auto simp: heap_ok_def list_rep_def)
      have t: "re_cfg t = cfg" "re_index t = idx" "w_in t = w_in s" "re_rec_cnt t = 0" "re_srec t = 0"
        "m_changelog t = m_changelog s" "m_clients t = Map.empty"
        "m_bkts t = [m_brk s \<mapsto> fresh_bucket 0 (ccf_rec_batch_count cfg)]"
        using 2(2) mem by (auto simp: bucket_added_def z_def reader_zero_def fresh_memory_def)
      have inv: "rinv L (pointers_set t) [m_brk s] []"
        using 2(3) f t cfg
        by (auto simp: rinv_def heap_ok_def ptrs_ok_def bkts_ok_def cnt_ok_def clients_ok_def
            bkt_at_def bucket_ok_fresh cfg_ok_def pointers_set_def) (simp add: fresh_bucket_def)
      moreover have "stored (pointers_set t) = []"
        unfolding stored_def rinv_lists(1) [OF inv] using t
        by (simp add: bkt_at_def fresh_bucket_def bkt_recs_def pointers_set_def)
      moreover have "nothing_given (pointers_set t)"
        unfolding nothing_given_def rinv_lists [OF inv] using t
        by (simp add: bkt_at_def fresh_bucket_def pointers_set_def)
      ultimately show ?thesis using 2(1) t by (simp add: begun_def pointers_set_def)
    qed simp
  qed simp
  then show ?thesis by (simp add: z_def)
qed

text \<open>What the environment is after a start that succeeded.\<close>

definition started :: "libs \<Rightarrow> lcap_cfg \<Rightarrow> nat \<Rightarrow> bytes \<Rightarrow> reader_env \<Rightarrow> reader_env \<Rightarrow> bool" where
  "started L cfg idx dev s t \<longleftrightarrow>
     begun L cfg idx s t \<and> re_ident t = Some (cid dev) \<and> re_sock t \<and> re_zctx t"

lemma begun_upd [simp]:
  "begun L cfg idx s (t\<lparr>w_log := l\<rparr>) = begun L cfg idx s t"
  "begun L cfg idx s (t\<lparr>w_errno := e\<rparr>) = begun L cfg idx s t"
  "begun L cfg idx s (t\<lparr>re_zctx := a\<rparr>) = begun L cfg idx s t"
  "begun L cfg idx s (t\<lparr>re_sock := a\<rparr>) = begun L cfg idx s t"
  "begun L cfg idx s (t\<lparr>re_ident := i\<rparr>) = begun L cfg idx s t"
  by (simp_all add: begun_def stored_def buckets_of_def bkt_at_def nothing_given_def peers_of_def client_bucket_def)

lemma begun_before [simp]: "begun L cfg idx (s\<lparr>w_log := l\<rparr>) t = begun L cfg idx s t"
  by (simp add: begun_def)

lemma gettimeofday_eq:
  "gettimeofday L s = (lib_timeofday L (w_log s), s\<lparr>w_log := Ev_timeofday (lib_timeofday L (w_log s)) # w_log s\<rparr>)"
  by (simp add: gettimeofday_def Let_def)

text \<open>
  The two faults of the start, in the message about an identity that could not be set: there is
  none, or it has no final zero.
\<close>

definition ident_fault :: "fault \<Rightarrow> reader_env \<Rightarrow> bool" where
  "ident_fault e t \<longleftrightarrow> (e = Null_deref \<and> re_ident t = None \<and> (\<exists>n l. w_log t = Ev_alloc n False # l)) \<or>
     (e = Out_of_bounds \<and> (\<exists>b err l. err \<noteq> 0 \<and> w_log t = Ev_zmq_identity b err # l))"

lemma changelog_reader_init_spec:
  assumes cfg: "cfg_ok cfg" and mem: "fresh_memory s"
    and dev: "idx < length (ccf_mdt cfg)" "ccf_mdt cfg ! idx = Some dev"
  shows "run ident_fault (changelog_reader_init L cfg idx s) (\<lambda>rc t. rc \<le> 0 \<and> of_cfg cfg idx t \<and>
    (rc = 0 \<longrightarrow> started L cfg idx dev s t))"
proof -
  let ?Q = "\<lambda>rc t. rc \<le> 0 \<and> of_cfg cfg idx t \<and> (rc = 0 \<longrightarrow> started L cfg idx dev s t)"
  have ident: "run ident_fault (changelog_reader_set_identity L u) (\<lambda>rc t. run ident_fault
      (if rc < 0 then Bad (if re_ident t = None then Null_deref else Out_of_bounds) t
       else let e = lib_connect L (w_log t); t = t\<lparr>w_log := Ev_zmq_connect e # w_log t\<rparr> in Ok (- int e) t) ?Q)"
    if u: "begun L cfg idx s u" "re_sock u" "re_zctx u" for u
  proof -
    have "reader_device u = Some dev" using u(1) dev by (simp add: begun_def reader_device_def)
    moreover have "of_cfg cfg idx u" using u(1) by (simp add: begun_def of_cfg_def)
    ultimately show ?thesis using u
      by (auto simp: changelog_reader_set_identity_def build_reader_identity_def alloc_def
          started_def Let_def of_cfg_def ident_fault_def)
  qed
  show ?thesis
    unfolding changelog_reader_init_def gettimeofday_eq prod.case run_simps(3)
  proof (rule run_mono [OF rec_bucket_add_first [OF cfg]])
    let ?l = "Ev_timeofday (lib_timeofday L (w_log s)) # w_log s"
    show "fresh_memory (s\<lparr>w_log := ?l\<rparr>)" using mem by (simp add: fresh_memory_def)
    fix rc t
    let ?u = "pointers_set t"
    let ?v = "?u\<lparr>w_log := Ev_zmq_ctx True # w_log ?u, re_zctx := True\<rparr>"
    let ?w = "?v\<lparr>w_log := Ev_zmq_socket True # w_log ?v, re_sock := True\<rparr>"
    assume "(rc = - ENOMEM \<and> of_cfg cfg idx t) \<or> (rc = 0 \<and> begun L cfg idx (s\<lparr>w_log := ?l\<rparr>) ?u)"
    then have rc: "(rc = - ENOMEM \<and> of_cfg cfg idx t) \<or> (rc = 0 \<and> begun L cfg idx s ?u)" by simp
    show "run ident_fault
      (if rc \<noteq> 0 then Ok rc t
       else let first = l_first (re_buckets t);
              s = t\<lparr>re_current_open := first, re_deliver_next := first, re_cleanup_next := first\<rparr>;
              e = lib_ctx_new L (w_log s);
              s = s\<lparr>w_log := Ev_zmq_ctx (e = 0) # w_log s, re_zctx := (e = 0)\<rparr>
          in if e \<noteq> 0 then Ok (- int e) s
             else let e = lib_socket L (w_log s);
                      s = s\<lparr>w_log := Ev_zmq_socket (e = 0) # w_log s, re_sock := (e = 0)\<rparr>
                  in if e \<noteq> 0 then Ok (- int e) s
                     else bindR (changelog_reader_set_identity L s) (\<lambda>rc s.
                          if rc < 0 then Bad (if re_ident s = None then Null_deref else Out_of_bounds) s
                          else let e = lib_connect L (w_log s);
                                   s = s\<lparr>w_log := Ev_zmq_connect e # w_log s\<rparr>
                               in Ok (- int e) s)) ?Q"
    proof (cases "rc = 0")
      case True
      with rc have "begun L cfg idx s ?w" by simp
      then have "run ident_fault (changelog_reader_set_identity L ?w) (\<lambda>rc t. run ident_fault
        (if rc < 0 then Bad (if re_ident t = None then Null_deref else Out_of_bounds) t
         else let e = lib_connect L (w_log t); t = t\<lparr>w_log := Ev_zmq_connect e # w_log t\<rparr> in Ok (- int e) t) ?Q)"
        by (rule ident) simp_all
      moreover have "of_cfg cfg idx t"
        using rc True by (simp add: begun_def of_cfg_def pointers_set_def)
      ultimately show ?thesis
        using True by (simp add: Let_def pointers_set_def of_cfg_def)
    qed (use rc in auto)
  qed simp
qed

subsection \<open>The reader as a server\<close>

definition reader_good :: "libs \<Rightarrow> reader_env \<Rightarrow> bool" where
  "reader_good L s \<longleftrightarrow> reader_inv L s \<and> changelog_ok L (m_changelog s) \<and> re_rec_cnt s \<le> limit s \<and>
     (\<exists>dev. reader_device s = Some dev \<and> length dev < sizeof_mdtname)"

lemma cfg_cong:
  assumes "re_cfg t = re_cfg s" "re_index t = re_index s"
  shows "reader_device t = reader_device s" "limit t = limit s"
  using assms by (simp_all add: reader_device_def limit_def)

lemma reader_good_kept: "reader_good L s \<Longrightarrow> kept L s t \<Longrightarrow> reader_good L t"
  using cfg_cong [of t s] by (simp add: reader_good_def kept_def)

lemma reader_good_more:
  assumes "reader_good L s" "world.more t = world.more s"
  shows "reader_good L t"
proof -
  have "re_cfg t = re_cfg s" "re_index t = re_index s" "m_changelog t = m_changelog s"
    "re_rec_cnt t = re_rec_cnt s"
    using assms(2) by (cases s; cases t; simp)+
  then show ?thesis
    using assms reader_inv_more [of L s t] cfg_cong [of t s] by (simp add: reader_good_def)
qed

text \<open>
  The faults of the reader are those of bodies that were waiting when its loop began: a CLEAR, or
  less than an operation code when debug messages are on. \<open>es\<close> is what the socket delivers.
\<close>

definition request_fault :: "lcap_cfg \<Rightarrow> bytes \<Rightarrow> fault \<Rightarrow> bool" where
  "request_fault cfg b e \<longleftrightarrow>
     (if debug_logged cfg \<and> length b < 4 then e = Out_of_bounds
      else e = Use_after_free \<and> body_op b = rpc_op_code RPC_OP_CLEAR)"

definition reader_bad :: "lcap_cfg \<Rightarrow> in_event list \<Rightarrow> fault \<Rightarrow> reader_env \<Rightarrow> bool" where
  "reader_bad cfg es e t \<longleftrightarrow> (\<exists>b. body_in es b \<and> request_fault cfg b e)"

definition serving :: "libs \<Rightarrow> lcap_cfg \<Rightarrow> in_event list \<Rightarrow> reader_env \<Rightarrow> bool" where
  "serving L cfg es s \<longleftrightarrow> reader_good L s \<and> re_cfg s = cfg \<and> suffix (w_in s) es"

lemma serving_more:
  assumes "serving L cfg es s" "world.more t = world.more s" "suffix (w_in t) (w_in s)"
  shows "serving L cfg es t"
proof -
  have "re_cfg t = re_cfg s" using assms(2) by (cases s; cases t; simp)
  then show ?thesis
    using assms reader_good_more [of L s t] suffix_order.trans [OF assms(3)] by (simp add: serving_def)
qed

lemma rpc_hdl_good:
  assumes "req_ok 3 req" "reader_good L s" "changelog_reader_rpc_hdl L req s = Ok rc t"
  shows "reader_good L t \<and> w_in t = w_in s \<and> re_cfg t = re_cfg s"
proof -
  from assms(1) obtain c where "lr_forward req = Some c" "wf_cid c" by (auto simp: req_ok_def)
  moreover have "reader_inv L s" using assms(2) by (simp add: reader_good_def)
  ultimately have "kept L s t" using run_OkD [OF rpc_hdl_kept assms(3)] by blast
  with reader_good_kept [OF assms(2)] show ?thesis by (simp add: kept_def)
qed

lemma rpc_hdl_fault:
  assumes "req_ok 3 req" "reader_good L s" "changelog_reader_rpc_hdl L req s = Bad e t"
  shows "request_fault (re_cfg s) (lr_body req) e"
proof -
  from assms(1) obtain c where "lr_forward req = Some c" "wf_cid c" "lr_body_len req = length (lr_body req)"
    by (auto simp: req_ok_def)
  moreover have "reader_inv L s" using assms(2) by (simp add: reader_good_def)
  ultimately show ?thesis
    using run_BadD [OF rpc_hdl_kept assms(3)] by (auto simp: rpc_fault_def op_overrun_def request_fault_def uaf_def)
qed

interpretation reader: rpc_server L 3 "changelog_reader_rpc_hdl L" "serving L cfg es" "reader_bad cfg es" for L cfg es
proof unfold_locales
  fix req :: lcapnet_request and r s :: reader_env
  assume ok: "req_ok 3 req" and s: "serving L cfg es s"
  show "serving L cfg es s' \<and> w_in s' = w_in s" if "changelog_reader_rpc_hdl L req s = Ok rc s'" for rc s'
    using rpc_hdl_good [OF ok _ that] s by (simp add: serving_def)
  assume "serving L cfg es r" "made_of (w_in r) req"
  then have "body_in es (lr_body req)" using body_in_suffix by (auto simp: serving_def made_of_def)
  then show "reader_bad cfg es e s'" if "changelog_reader_rpc_hdl L req s = Bad e s'" for e s'
    using rpc_hdl_fault [OF ok _ that] s by (auto simp: serving_def reader_bad_def)
qed (rule serving_more)

subsection \<open>The main loop\<close>

lemma changelog_reader_serve_good:
  assumes "serving L cfg es s" "ZMQ_DONTWAIT L = 1" "polls_ok L"
  shows "run (reader_bad cfg es) (changelog_reader_serve L s) (\<lambda>rc t. serving L cfg es t)"
proof -
  let ?ms = "if re_clpriv s then 50 else 1000 :: int"
  define u where "u = s\<lparr>w_log := Ev_poll ?ms (lib_poll L (w_log s) ?ms) # w_log s\<rparr>"
  have u: "serving L cfg es u" by (rule serving_more [OF assms(1)]) (simp_all add: u_def)
  have fl: "LCAP_RECV_NONBLOCK OR LCAP_RECV_NO_ENVELOPE = 3" "(3 :: nat) AND ZMQ_DONTWAIT L \<noteq> 0"
    using assms(2) by simp_all
  have "run (reader_bad cfg es) (lcap_rpc_recv L 3 (changelog_reader_rpc_hdl L) u)
      (\<lambda>rc t. serving L cfg es t)"
    using reader.lcap_rpc_recv_inv [OF u] reader.lcap_rpc_recv_fault [OF u fl(2)]
    by (auto simp: run_def split: res.splits)
  then have "run (reader_bad cfg es) (lcap_rpc_recv L 3 (changelog_reader_rpc_hdl L) u)
      (\<lambda>rc t. run (reader_bad cfg es) (if rc < 0 then Ok rc t else Ok 0 t) (\<lambda>rc t. serving L cfg es t))"
    by (elim run_mono) auto
  moreover have "lib_pollin L (w_log u)" if "lib_poll L (w_log s) ?ms > 0"
    using assms(3) that by (auto simp: polls_ok_def u_def)
  ultimately show ?thesis
    using u unfolding changelog_reader_serve_def fl(1) u_def by (simp add: Let_def)
qed

lemma changelog_reader_enqueue_good:
  assumes "reader_good L s"
  shows "run never (changelog_reader_enqueue L s) (\<lambda>rc t. reader_good L t \<and> re_cfg t = re_cfg s \<and> w_in t = w_in s)"
proof -
  obtain bs ps where r: "rinv L s bs ps"
    using assms by (auto simp: reader_good_def elim: reader_invE)
  have ok: "changelog_ok L (m_changelog s)" and cnt: "re_rec_cnt s \<le> limit s"
    using assms by (auto simp: reader_good_def)
  from changelog_reader_enqueue_spec [OF r ok cnt] show ?thesis
  proof (rule run_mono)
    fix t assume t: "enq_post L s ps t"
    then obtain k taken lost where "m_changelog s = map Inr taken @ lost @ m_changelog t"
      and fr: "store_frame s t" by (auto simp: enq_post_def grown_def)
    with ok have "changelog_ok L (m_changelog t)" by (simp add: changelog_ok_def)
    with t fr assms cfg_cong [of t s] show "reader_good L t \<and> re_cfg t = re_cfg s \<and> w_in t = w_in s"
      by (auto simp: enq_post_def reader_good_def store_frame_def intro: reader_invI)
  qed simp
qed

lemma changelog_reader_enqueue_serving:
  assumes "serving L cfg es s"
  shows "run (reader_bad cfg es) (changelog_reader_enqueue L s) (\<lambda>rc t. serving L cfg es t)"
proof -
  have "reader_good L s" using assms by (simp add: serving_def)
  from changelog_reader_enqueue_good [OF this] show ?thesis
    by (rule run_mono) (use assms in \<open>simp_all add: serving_def\<close>)
qed

lemma reader_loop_good:
  assumes "serving L cfg es s" "ZMQ_DONTWAIT L = 1" "polls_ok L"
  shows "run (reader_bad cfg es) (reader_loop k L rc s) (\<lambda>r t. serving L cfg es t)"
  using assms(1)
proof (induction k arbitrary: s rc)
  case (Suc k)
  obtain b u where sig: "read_term_sig L s = (b, u)" and u: "world.more u = world.more s" "w_in u = w_in s"
    by (simp add: read_term_sig_def Let_def)
  have good: "serving L cfg es u" by (rule serving_more [OF Suc.prems u(1)]) (simp add: u(2))
  have serve: "run (reader_bad cfg es) (changelog_reader_serve L t) (\<lambda>rc v.
      run (reader_bad cfg es) (if rc < 0 then Ok (Some rc) v else reader_loop k L rc v)
        (\<lambda>r t. serving L cfg es t))" if "serving L cfg es t" for t
    using changelog_reader_serve_good [OF that assms(2,3)] Suc.IH by (elim run_mono) auto
  have "run (reader_bad cfg es) (changelog_reader_enqueue L u) (\<lambda>rc t.
      run (reader_bad cfg es) (if rc < 0 then Ok (Some rc) t
         else bindR (changelog_reader_serve L t) (\<lambda>rc s.
                    if rc < 0 then Ok (Some rc) s else reader_loop k L rc s)) (\<lambda>r t. serving L cfg es t))"
    using changelog_reader_enqueue_serving [OF good] serve by (elim run_mono) auto
  with sig good show ?case by simp
qed simp

lemma changelog_reader_signal_returns:
  assumes "reader_device s = Some dev" "length dev < sizeof_mdtname"
  shows "run never (changelog_reader_signal L e s) (\<lambda>rc t. world.more t = world.more s \<and> w_in t = w_in s)"
  using assms by (auto simp: changelog_reader_signal_def split: prod.splits dest!: send_frames_more)

text \<open>The statistics overflow when the last reading of the clock is too far from the start.\<close>

definition overdue :: "reader_env \<Rightarrow> bool" where
  "overdue s \<longleftrightarrow> (\<exists>fin l. w_log s = Ev_timeofday fin # l \<and> stats_duration (rs_start_time (re_stats s)) fin = None)"

definition stats_fault :: "fault \<Rightarrow> reader_env \<Rightarrow> bool" where
  "stats_fault e s \<longleftrightarrow> e = Signed_overflow \<and> overdue s"

lemma changelog_reader_release_run:
  "run stats_fault (changelog_reader_release L s) (\<lambda>_ t. \<not> re_sock t \<and> \<not> re_zctx t \<and>
     t = s\<lparr>w_log := w_log t, re_sock := False, re_zctx := False\<rparr> \<and>
     (\<exists>evs. w_log t = evs @ w_log s \<and> list_all quiet_event evs))"
  by (simp add: changelog_reader_release_def changelog_reader_print_stats_def gettimeofday_eq Let_def
      stats_fault_def overdue_def quiet_event_def split: option.splits)

text \<open>The end of the thread: the broker is told of an error, and the socket and context closed.\<close>

definition named :: "reader_env \<Rightarrow> bool" where
  "named s \<longleftrightarrow> (\<exists>dev. reader_device s = Some dev \<and> length dev < sizeof_mdtname)"

lemma reader_out_path_run:
  assumes "named s"
  shows "run stats_fault (reader_out_path L rc s) (\<lambda>r t. r = rc \<and> \<not> re_sock t \<and> \<not> re_zctx t)"
proof -
  obtain dev where dev: "reader_device s = Some dev" "length dev < sizeof_mdtname"
    using assms by (auto simp: named_def)
  have "run never (if rc \<noteq> 0 then changelog_reader_signal L rc s else Ok 0 s) (\<lambda>_ _. True)"
    using changelog_reader_signal_returns [OF dev, of L rc] by (auto elim: run_mono)
  moreover have "run stats_fault (bindR (changelog_reader_release L u) (\<lambda>_ s. Ok rc s))
      (\<lambda>r t. r = rc \<and> \<not> re_sock t \<and> \<not> re_zctx t)" for u
    unfolding run_simps(3) using changelog_reader_release_run [of L u] by (auto elim!: run_mono)
  ultimately show ?thesis
    unfolding reader_out_path_def run_simps(3) by (auto elim!: run_mono)
qed

definition thread_fault :: "lcap_cfg \<Rightarrow> in_event list \<Rightarrow> fault \<Rightarrow> reader_env \<Rightarrow> bool" where
  "thread_fault cfg es e s \<longleftrightarrow> ident_fault e s \<or> reader_bad cfg es e s \<or> stats_fault e s"

definition loop_end :: "libs \<Rightarrow> lcap_cfg \<Rightarrow> in_event list \<Rightarrow> int option \<Rightarrow> reader_env \<Rightarrow> bool" where
  "loop_end L cfg es r u \<longleftrightarrow> named u \<and> (r = None \<longrightarrow> serving L cfg es u)"

lemma serving_named: "serving L cfg es u \<Longrightarrow> named u"
  by (simp add: serving_def reader_good_def named_def)

lemma signal_loop_end:
  assumes good: "serving L cfg es t" and dw: "ZMQ_DONTWAIT L = 1" "polls_ok L"
  shows "run (thread_fault cfg es) (bindR (changelog_reader_signal L 0 t) (\<lambda>rc s.
    if rc \<noteq> 0 then Ok (Some rc) s else reader_loop k L rc s)) (loop_end L cfg es)"
proof -
  obtain dev where dev: "reader_device t = Some dev" "length dev < sizeof_mdtname"
    using serving_named [OF good] by (auto simp: named_def)
  show ?thesis
  proof (rule run_bind_never [OF changelog_reader_signal_returns [OF dev]])
    fix rc u assume m: "world.more u = world.more t \<and> w_in u = w_in t"
    have u: "serving L cfg es u" by (rule serving_more [OF good]) (simp_all add: m)
    have "run (thread_fault cfg es) (reader_loop k L rc u) (loop_end L cfg es)"
      using reader_loop_good [OF u dw]
      by (rule run_mono) (auto simp: loop_end_def thread_fault_def dest: serving_named)
    then show "run (thread_fault cfg es)
        (if rc \<noteq> 0 then Ok (Some rc) u else reader_loop k L rc u) (loop_end L cfg es)"
      using serving_named [OF u] by (auto simp: loop_end_def)
  qed
qed

lemma reader_main_good:
  assumes cfg: "cfg_ok cfg" and mem: "fresh_memory s"
    and dev: "idx < length (ccf_mdt cfg)" "ccf_mdt cfg ! idx = Some dev" "length dev < sizeof_mdtname"
    and ok: "changelog_ok L (m_changelog s)" and dw: "ZMQ_DONTWAIT L = 1" "polls_ok L"
  shows "run (thread_fault cfg (w_in s)) (reader_main k L cfg idx s)
    (\<lambda>r t. case r of None \<Rightarrow> serving L cfg (w_in s) t | Some _ \<Rightarrow> \<not> re_sock t \<and> \<not> re_zctx t)"
  unfolding reader_main_def
proof (rule run_bind [where P = "\<lambda>rc t. rc \<le> 0 \<and> of_cfg cfg idx t \<and> (rc = 0 \<longrightarrow> started L cfg idx dev s t)"])
  show "run (thread_fault cfg (w_in s)) (changelog_reader_init L cfg idx s)
      (\<lambda>rc t. rc \<le> 0 \<and> of_cfg cfg idx t \<and> (rc = 0 \<longrightarrow> started L cfg idx dev s t))"
    using changelog_reader_init_spec [OF cfg mem dev(1,2)]
    by (rule run_mono) (simp_all add: thread_fault_def)
next
  fix rc :: int and t assume t: "rc \<le> 0 \<and> of_cfg cfg idx t \<and> (rc = 0 \<longrightarrow> started L cfg idx dev s t)"
  then have dt: "reader_device t = Some dev"
    using dev(1,2) by (simp add: of_cfg_def reader_device_def)
  have loop: "run (thread_fault cfg (w_in s)) (if rc \<noteq> 0 then Ok (Some rc) t
      else bindR (changelog_reader_signal L 0 t) (\<lambda>rc s.
        if rc \<noteq> 0 then Ok (Some rc) s else reader_loop k L rc s)) (loop_end L cfg (w_in s))"
  proof (cases "rc = 0")
    case True
    then have "serving L cfg (w_in s) t"
      using t cfg dt dev(3) ok
      by (auto simp: serving_def started_def begun_def reader_good_def limit_def cfg_ok_def intro: reader_invI)
    with True signal_loop_end [OF this dw] show ?thesis by simp
  qed (use dt dev(3) in \<open>simp add: loop_end_def named_def\<close>)
  have out: "run (thread_fault cfg (w_in s)) (case r of None \<Rightarrow> Ok None u | Some rc \<Rightarrow>
         bindR (reader_out_path L rc u) (\<lambda>rc s. Ok (Some rc) s))
      (\<lambda>r t. case r of None \<Rightarrow> serving L cfg (w_in s) t | Some _ \<Rightarrow> \<not> re_sock t \<and> \<not> re_zctx t)"
    if fin: "loop_end L cfg (w_in s) r u" for r u
  proof (cases r)
    case (Some rc)
    have "named u" using fin by (simp add: loop_end_def)
    from reader_out_path_run [OF this, of L rc] Some show ?thesis
      by (auto simp: thread_fault_def elim!: run_mono)
  qed (use fin in \<open>simp add: loop_end_def\<close>)
  show "run (thread_fault cfg (w_in s)) (bindR (if rc \<noteq> 0 then Ok (Some rc) t
      else bindR (changelog_reader_signal L 0 t) (\<lambda>rc s.
        if rc \<noteq> 0 then Ok (Some rc) s else reader_loop k L rc s))
      (\<lambda>r s. case r of None \<Rightarrow> Ok None s | Some rc \<Rightarrow> bindR (reader_out_path L rc s) (\<lambda>rc s. Ok (Some rc) s)))
      (\<lambda>r t. case r of None \<Rightarrow> serving L cfg (w_in s) t | Some _ \<Rightarrow> \<not> re_sock t \<and> \<not> re_zctx t)"
    by (rule run_bind [OF loop out])
qed

end
