(* ===== verification/Reader_Props.thy ===== *)
theory Reader_Props
  imports Reader_Loop
begin

text \<open>
  The properties of the reader: what each request does to the cache and to the clients and what
  is sent in reply, that every request is answered, and what reading the changelog adds to the
  cache.
\<close>

subsection \<open>An example reader\<close>

text \<open>
  Two buckets at the addresses 0 (one record, never delivered) and 2 (open, empty), one client at
  address 1.
\<close>

definition demo_rec :: bytes where
  "demo_rec = replicate 8 0 @ put64 7 @ replicate 48 0"

definition demo_reader :: reader_env where
  "demo_reader = \<lparr>w_log = [], w_errno = 0, w_in = [], re_cfg = demo_cfg, re_clpriv = True,
     re_zctx = True, re_sock = True, re_ident = Some (cid [77, 48]),
     re_stats = \<lparr>rs_start_time = \<lparr>tval_sec = 1, tval_usec = 0\<rparr>, rs_rec_read = 1, rs_rec_sent = 0\<rparr>, re_index = 0, re_srec = 8, re_bkt_idx = 2,
     re_rec_cnt = 1, re_current_open = Some 2, re_deliver_next = Some 0, re_cleanup_next = Some 0,
     re_buckets = \<lparr>l_count = 2, l_first = Some 0, l_last = Some 2\<rparr>,
     re_peers = \<lparr>l_count = 1, l_first = Some 1, l_last = Some 1\<rparr>,
     m_nodes = [0 \<mapsto> \<lparr>ln_prev = None, ln_next = Some 2\<rparr>, 1 \<mapsto> \<lparr>ln_prev = None, ln_next = None\<rparr>,
       2 \<mapsto> \<lparr>ln_prev = Some 0, ln_next = None\<rparr>],
     m_bkts = [0 \<mapsto> (fresh_bucket 0 2)\<lparr>lrb_rec_count := 1, lrb_size := 64,
         lrb_records := [Some demo_rec, None]\<rparr>, 2 \<mapsto> fresh_bucket 1 2],
     m_clients = [1 \<mapsto> \<lparr>cs_start = 0, cs_bucket = None, cs_ident = Some (cid [5])\<rparr>],
     m_brk = 3, m_changelog = []\<rparr>"

lemma demo_reader_ok: "rinv demo_libs demo_reader [0, 2] [1]"
  unfolding rinv_def
proof (intro conjI)
  show "cfg_ok (re_cfg demo_reader)"
    by (simp add: demo_reader_def demo_cfg_def cfg_ok_def in_int32_def)
  show "heap_ok demo_reader [0, 2] [1]"
    by (auto simp: heap_ok_def demo_reader_def list_rep_def)
  have "rec_len demo_libs demo_rec = 64" "length demo_rec = 64"
    by (simp_all add: rec_len_def demo_libs_def demo_rec_def numeral_eq_Suc)
  then show "bkts_ok demo_libs demo_reader"
    by (auto simp: bkts_ok_def demo_reader_def bucket_ok_def fresh_bucket_def bkt_recs_def demo_cfg_def
        numeral_eq_Suc split: if_splits)
  show "cnt_ok demo_reader [0, 2]"
    by (simp add: cnt_ok_def demo_reader_def bkt_at_def fresh_bucket_def)
qed (auto simp: ptrs_ok_def clients_ok_def client_ok_def demo_reader_def split: if_splits)

lemma demo_reader_lists: "buckets_of demo_reader = [0, 2]" "peers_of demo_reader = [1]"
  using rinv_lists [OF demo_reader_ok] by simp_all

lemma demo_reader_good: "reader_good demo_libs demo_reader"
  using reader_invI [OF demo_reader_ok]
  by (simp add: reader_good_def reader_device_def limit_def changelog_ok_def)
    (simp add: demo_reader_def demo_cfg_def)

definition demo_req :: "bytes \<Rightarrow> bytes \<Rightarrow> lcapnet_request" where
  "demo_req c body = \<lparr>lr_flags = 1, lr_remote = None, lr_forward = Some (cid c), lr_body = body,
     lr_body_len = length body\<rparr>"

lemma demo_req_ok: "body \<noteq> [] \<Longrightarrow> req_ok 3 (demo_req c body)"
  by (simp add: req_ok_def demo_req_def)

subsection \<open>Every request is answered once\<close>

definition replied :: "conn_id \<Rightarrow> reader_env \<Rightarrow> int \<Rightarrow> reader_env \<Rightarrow> bool" where
  "replied c s rc t \<longleftrightarrow> (rc = 0 \<and> (\<exists>m. emits s t [peer_frames None c m])) \<or>
     ((rc < 0 \<or> rc = 1) \<and> emits s t [])"

lemma send_emits:
  assumes "sends_ok L" "wf_cid c"
  shows "run never (peer_rpc_send L None (Some c) m t) (\<lambda>rc u. rc = 0 \<and> emits t u [peer_frames None c m])"
    and "run never (ack_retcode L None (Some c) e t) (\<lambda>rc u. rc = 0 \<and> emits t u [peer_frames None c (ack_msg e)])"
  using peer_rpc_send_ok [OF assms, of None m t] ack_retcode_ok [OF assms, of None e t]
  by (auto simp: emits_def)

lemma send_replied:
  assumes "sends_ok L" "wf_cid c" "emits s t []"
  shows "run never (peer_rpc_send L None (Some c) m t) (\<lambda>rc u. replied c s rc u)"
    and "run never (ack_retcode L None (Some c) e t) (\<lambda>rc u. replied c s rc u)"
proof -
  have one: "replied c s 0 u" if "emits t u [peer_frames None c m]" for u m
    using emits_trans [OF assms(3) that] by (auto simp: replied_def)
  show "run never (peer_rpc_send L None (Some c) m t) (\<lambda>rc u. replied c s rc u)"
    using send_emits(1) [OF assms(1,2), of m t] by (rule run_mono) (auto intro: one)
  show "run never (ack_retcode L None (Some c) e t) (\<lambda>rc u. replied c s rc u)"
    using send_emits(2) [OF assms(1,2), of e t] by (rule run_mono) (auto intro: one)
qed

lemma replied_error: "rc < 0 \<or> rc = 1 \<Longrightarrow> emits s t [] \<Longrightarrow> replied c s rc t"
  by (simp add: replied_def)

lemma start_replied:
  assumes inv: "rinv L s bs ps" and fwd: "lr_forward req = Some c" "wf_cid c" and ok: "sends_ok L"
  shows "run never (reader_handle_start L req s) (\<lambda>rc t. replied c s rc t)"
proof (cases "lr_body_len req \<ge> sizeof_register")
  case True
  from inv True fwd show ?thesis
  proof (cases rule: reader_handle_start_cases)
    case (new t)
    with send_replied(2) [OF ok fwd(2) new(3)] show ?thesis by simp
  qed (auto simp: replied_def)
qed (auto simp: reader_handle_start_def replied_def)

lemma fini_replied:
  assumes inv: "rinv L s bs ps" and fwd: "lr_forward req = Some c" "wf_cid c" and ok: "sends_ok L"
  shows "run never (reader_handle_fini L req s) (\<lambda>rc t. replied c s rc t)"
proof (cases "lr_body_len req \<ge> sizeof_fini \<and> client_of s c \<noteq> None")
  case True
  then obtain a where "client_of s c = Some a" by auto
  from reader_handle_fini_eq [OF inv _ fwd this] True obtain t where
    t: "client_removed a s t" "reader_handle_fini L req s = ack_retcode L None (Some c) 0 t" by blast
  have "emits s t []" by (rule emits_quiet [of _ "[]"]) (use t(1) in \<open>auto simp: client_removed_def\<close>)
  from send_replied(2) [OF ok fwd(2) this] t(2) show ?thesis by simp
next
  case False
  then show ?thesis
    using inv fwd by (auto simp: reader_handle_fini_def client_state_get_eq replied_def)
qed

lemma emits_deadline_set: "emits s (deadline_set L d b s) []"
  by (rule emits_quiet [of _ "[Ev_clock _, Ev_alloc _ _]"])
    (auto simp: deadline_set_def Let_def quiet_event_def)

lemma enqueue_rec_replied:
  assumes "rinv L t bs' ps'" "m_clients t a = Some cs" "cs_bucket cs = Some d" "d \<in> set bs'"
    and fwd: "lr_forward req = Some c" "wf_cid c" and ok: "sends_ok L" and e: "emits s t []"
  shows "run never (enqueue_rec L a req t) (\<lambda>rc u. replied c s rc u)"
proof -
  obtain b where b: "m_bkts t d = Some b" using rinv_bkt [OF assms(1,4)] .
  have "emits s (deadline_set L d b t) []" using emits_trans [OF e emits_deadline_set] by simp
  note r = send_replied(1) [OF ok fwd(2) this]
  have "emits t (t\<lparr>w_log := Ev_alloc n False # w_log t\<rparr>) []" for n
    by (rule emits_quiet [of _ "[Ev_alloc _ _]"]) (auto simp: quiet_event_def)
  then have "emits s (t\<lparr>w_log := Ev_alloc n False # w_log t\<rparr>) []" for n
    using emits_trans [OF e] by fastforce
  with r show ?thesis
    unfolding enqueue_rec_eq [OF assms(1-3) b] fwd(1) by (auto simp: replied_def)
qed

lemma dequeue_replied:
  assumes inv: "rinv L s bs ps" and fwd: "lr_forward req = Some c" "wf_cid c" and ok: "sends_ok L"
  shows "run never (reader_handle_dequeue L req s) (\<lambda>rc t. replied c s rc t)"
proof (cases "lr_body_len req \<ge> sizeof_dequeue \<and> (\<exists>a. client_of s c = Some a \<and> client_bucket s a = None)")
  case True
  then obtain a where len: "lr_body_len req \<ge> sizeof_dequeue"
    and a: "client_of s c = Some a" "client_bucket s a = None" by auto
  show ?thesis
  proof (cases "next_bucket L s")
    case None
    then show ?thesis
      by (simp add: reader_handle_dequeue_eq [OF inv len fwd a] replied_error emits_bucket_got)
  next
    case (Some d)
    from inv len fwd a Some show ?thesis
    proof (cases rule: reader_handle_dequeue_cases)
      case (nomem l)
      then show ?thesis by (simp add: replied_error)
    next
      case (sent t bs')
      from sent(7) obtain cs where "m_clients t a = Some cs" "cs_bucket cs = Some d"
        by (auto simp: client_bucket_def bind_eq_Some_conv)
      with enqueue_rec_replied [OF sent(3) _ _ sent(4) fwd ok sent(2)] sent(8) show ?thesis by simp
    qed
  qed
next
  case False
  then consider "lr_body_len req < sizeof_dequeue" | "client_of s c = None"
    | a where "client_of s c = Some a" "client_bucket s a \<noteq> None" by fastforce
  then show ?thesis
  proof cases
    case 3
    obtain cs where "m_clients s a = Some cs" using client_of_Some [OF inv 3(1)] .
    with 3 inv fwd show ?thesis
      by (auto simp: reader_handle_dequeue_def client_state_get_eq get_client_def client_bucket_def
          replied_def)
  qed (use inv fwd in \<open>auto simp: reader_handle_dequeue_def client_state_get_eq replied_def\<close>)
qed

text \<open>A CLEAR from a registered client that holds no bucket.\<close>

definition idle_clear :: "reader_env \<Rightarrow> conn_id \<Rightarrow> lcapnet_request \<Rightarrow> bool" where
  "idle_clear s c req \<longleftrightarrow> body_op (lr_body req) = rpc_op_code RPC_OP_CLEAR \<and>
     lr_body_len req \<ge> sizeof_clear \<and> (\<exists>a. client_of s c = Some a \<and> client_bucket s a = None)"

lemma clear_replied:
  assumes inv: "rinv L s bs ps" and fwd: "lr_forward req = Some c" "wf_cid c" and ok: "sends_ok L"
    and ni: "\<not> (lr_body_len req \<ge> sizeof_clear \<and> (\<exists>a. client_of s c = Some a \<and> client_bucket s a = None))"
  shows "run (\<lambda>e _. e = Use_after_free) (reader_handle_clear L req s) (\<lambda>rc t. replied c s rc t)"
proof (cases "lr_body_len req \<ge> sizeof_clear \<and> client_of s c \<noteq> None")
  case True
  with ni obtain a bk where len: "lr_body_len req \<ge> sizeof_clear"
    and a: "client_of s c = Some a" "client_bucket s a = Some bk" by auto
  note r = reader_handle_clear_eq(1) [OF inv len fwd a]
  let ?t = "acked a bk s"
  have e: "emits s ?t []" by (rule emits_quiet [of _ "[]"]) (auto simp: acked_def)
  have e': "emits s (clear_logged L ?t) []"
    by (rule emits_quiet [of _ "[Ev_ll_clear _ _ _ _]"])
      (auto simp: acked_def clear_logged_def quiet_event_def)
  have "run (\<lambda>e _. e = Use_after_free) (ack_retcode L None (Some c) 0 ?t) (\<lambda>rc u. replied c s rc u)"
    using send_replied(2) [OF ok fwd(2) e, of 0] by (rule run_mono) auto
  with r e' show ?thesis by (auto simp: clear_result_def replied_def split: if_splits)
next
  case False
  then show ?thesis
    using inv fwd by (auto simp: reader_handle_clear_def client_state_get_eq replied_def)
qed

lemma handle_one_replied:
  assumes inv: "rinv L s bs ps" and fwd: "lr_forward req = Some c" "wf_cid c" and ok: "sends_ok L"
    and op: "body_op (lr_body req) \<le> RPC_OP_LAST" and ni: "\<not> idle_clear s c req"
  shows "run (\<lambda>e _. e = Use_after_free) (reader_rpc_handle_one L (body_op (lr_body req)) req s)
    (\<lambda>rc t. replied c s rc t)"
proof -
  from op obtain t where t: "body_op (lr_body req) = rpc_op_code t"
    using rpc_op_of_range rpc_op_of_eq_Some by metis
  have weak: "run (\<lambda>e _. e = Use_after_free) m Q" if "run never m Q" for m Q
    using that by (rule run_mono) auto
  have "run (\<lambda>e _. e = Use_after_free) (reader_handle_clear L req s) (\<lambda>rc t. replied c s rc t)"
    if "t = RPC_OP_CLEAR"
    by (rule clear_replied [OF inv fwd ok]) (use ni t that in \<open>auto simp: idle_clear_def\<close>)
  then show ?thesis
    unfolding t reader_rpc_handle_one_def rpc_op_of_code option.case
    using start_replied [OF inv fwd ok, THEN weak] fini_replied [OF inv fwd ok, THEN weak]
      dequeue_replied [OF inv fwd ok, THEN weak]
    by (cases t) (simp_all add: reader_rpc_handle_def replied_def)
qed

subsection \<open>Properties: requests\<close>

text \<open>(C10) Whatever a client sends, handling it leaves the reader's invariant intact and touches
  neither the configuration nor the changelog position nor the record count. Two faults remain: a
  CLEAR may use freed memory, and with debug messages on a body too short for an operation code is
  read past its end by the message about it. No other fault (NULL pointer, array bound, failed
  assertion, endless walk) is possible, for every behaviour of the libraries.\<close>

theorem reader_request_safe:
  assumes "reader_inv L s" "req_ok 3 req"
  shows "case changelog_reader_rpc_hdl L req s of
      Ok rc t \<Rightarrow> reader_inv L t \<and> w_in t = w_in s \<and> re_cfg t = re_cfg s \<and>
        m_changelog t = m_changelog s \<and> re_rec_cnt t = re_rec_cnt s
    | Bad e t \<Rightarrow> if op_overrun (re_cfg s) req then e = Out_of_bounds
        else e = Use_after_free \<and> body_op (lr_body req) = rpc_op_code RPC_OP_CLEAR"
proof -
  from assms(2) obtain c where "lr_forward req = Some c" "wf_cid c" by (auto simp: req_ok_def)
  from rpc_hdl_kept [OF assms(1) this] show ?thesis
    by (auto simp: run_def kept_def rpc_fault_def uaf_def split: res.splits)
qed

lemma demo_no_overrun: "\<not> op_overrun (re_cfg demo_reader) req"
  by (simp add: op_overrun_def debug_logged_def demo_reader_def demo_cfg_def)

theorem reader_request_safe_witness:
  "case changelog_reader_rpc_hdl demo_libs (demo_req [9] [1, 2]) demo_reader of
     Ok rc t \<Rightarrow> reader_inv demo_libs t | Bad e t \<Rightarrow> body_op [1, 2] = 2"
  using reader_request_safe [OF reader_invI [OF demo_reader_ok] demo_req_ok [of "[1, 2]" "[9]"]]
  by (auto simp: demo_no_overrun demo_req_def split: res.splits)

text \<open>(C18) Every request is answered with exactly one message, addressed to its sender, and the
  callback returns 0 (so that the receive loop goes on), also for malformed requests, unknown
  operations and failed allocations; the exceptions are the CLEAR that ends in a use of freed
  memory, a CLEAR from a registered client that holds no bucket, and the body without an operation
  code that the debug message reads past its end.\<close>

theorem reader_answers_once:
  assumes "reader_inv L s" "req_ok 3 req" "lr_forward req = Some c" "sends_ok L"
    and "\<not> idle_clear s c req"
  shows "case changelog_reader_rpc_hdl L req s of
      Ok rc t \<Rightarrow> rc = 0 \<and> (\<exists>m. emits s t [peer_frames None c m])
    | Bad e t \<Rightarrow> e = (if op_overrun (re_cfg s) req then Out_of_bounds else Use_after_free)"
proof (cases "op_overrun (re_cfg s) req")
  case False
  obtain bs ps where inv: "rinv L s bs ps" using reader_invE [OF assms(1)] .
  have c: "wf_cid c" using assms(2,3) by (auto simp: req_ok_def)
  let ?m = "if lr_body_len req < sizeof_hdr then Ok (- EPROTO) s
            else let op = body_op (lr_body req)
                 in if op < RPC_OP_FIRST \<or> op > RPC_OP_LAST then Ok (- EINVAL) s
                    else reader_rpc_handle_one L op req s"
  have "run (\<lambda>e _. e = Use_after_free) ?m (\<lambda>rc t. replied c s rc t)"
    using handle_one_replied [OF inv assms(3) c assms(4) _ assms(5)]
    by (auto simp: Let_def replied_def)
  then have "run (\<lambda>e _. e = Use_after_free) (changelog_reader_rpc_hdl L req s)
      (\<lambda>rc t. rc = 0 \<and> (\<exists>m. emits s t [peer_frames None c m]))"
    unfolding rpc_hdl_logged [OF False]
  proof (rule run_bind)
    fix rc t assume r: "replied c s rc t"
    have "run (\<lambda>e _. e = Use_after_free) (ack_retcode L None (Some c) rc t)
        (\<lambda>rc t. rc = 0 \<and> (\<exists>m. emits s t [peer_frames None c m]))" if e: "emits s t []"
      using send_emits(2) [OF assms(4) c, of rc t] emits_trans [OF e]
      by (elim run_mono) fastforce+
    with r assms(3) show "run (\<lambda>e _. e = Use_after_free)
        (if rc < 0 \<or> rc = 1 then ack_retcode L None (lr_forward req) rc t else Ok rc t)
        (\<lambda>rc t. rc = 0 \<and> (\<exists>m. emits s t [peer_frames None c m]))"
      by (auto simp: replied_def)
  qed
  with False show ?thesis by (simp add: run_def split: res.splits)
qed (simp add: rpc_hdl_overrun)

theorem reader_answers_once_witness:
  "case changelog_reader_rpc_hdl demo_libs (demo_req [9] [1, 2]) demo_reader of
      Ok rc t \<Rightarrow> rc = 0 \<and> (\<exists>m. emits demo_reader t [peer_frames None (cid [9]) m])
    | Bad e t \<Rightarrow> e = Use_after_free"
  using reader_answers_once [OF reader_invI [OF demo_reader_ok] demo_req_ok [of "[1, 2]" "[9]"], of "cid [9]"]
  by (auto simp: demo_no_overrun demo_req_def idle_clear_def split: res.splits)

text \<open>A CLEAR from a registered client that holds no bucket gets no reply at all: the state
  and the list of external calls are unchanged. A client waiting on its REQ socket stays blocked.\<close>

theorem idle_clear_unanswered:
  assumes "reader_inv L s" "req_ok 3 req" "lr_forward req = Some c" "idle_clear s c req"
  shows "changelog_reader_rpc_hdl L req s = Ok 0 s"
proof -
  obtain bs ps where inv: "rinv L s bs ps" using reader_invE [OF assms(1)] .
  have c: "wf_cid c" using assms(2,3) by (auto simp: req_ok_def)
  from assms(4) obtain a where a: "client_of s c = Some a" "client_bucket s a = None"
    and len: "lr_body_len req \<ge> sizeof_clear" and op: "body_op (lr_body req) = 2"
    by (auto simp: idle_clear_def)
  obtain cs where "m_clients s a = Some cs" using client_of_Some [OF inv a(1)] .
  with a have "reader_handle_clear L req s = Ok 0 s"
    using len c assms(3) inv
    by (simp add: reader_handle_clear_def client_state_get_eq get_client_def client_bucket_def)
  with op len show ?thesis
    by (simp add: changelog_reader_rpc_hdl_def reader_rpc_handle_one_def reader_rpc_handle_def)
qed

definition demo_clear :: bytes where
  "demo_clear = enc_clear \<lparr>clr_hdr = mk_hdr RPC_OP_CLEAR, clr_index = 7, clr_id_len = 0, clr_id = []\<rparr>"

lemma demo_clear_facts: "demo_clear \<noteq> []" "length demo_clear = sizeof_clear"
  "body_op demo_clear = rpc_op_code RPC_OP_CLEAR"
proof -
  show l: "length demo_clear = sizeof_clear" by (simp add: demo_clear_def)
  then show "demo_clear \<noteq> []" by auto
  show "body_op demo_clear = rpc_op_code RPC_OP_CLEAR"
    by (rule body_op_mk_hdr) (simp add: demo_clear_def)
qed

lemma demo_client: "client_of demo_reader (cid [5]) = Some 1" "client_bucket demo_reader 1 = None"
  by (simp_all add: client_of_def demo_reader_lists ident_at_def client_bucket_def)
    (simp_all add: demo_reader_def)

theorem idle_clear_unanswered_witness:
  "changelog_reader_rpc_hdl demo_libs (demo_req [5] demo_clear) demo_reader = Ok 0 demo_reader"
  using idle_clear_unanswered [OF reader_invI [OF demo_reader_ok] demo_req_ok [of demo_clear "[5]"],
      of "cid [5]"] demo_clear_facts demo_client
  by (simp add: demo_req_def idle_clear_def)

subsection \<open>Properties: registration\<close>

definition idents :: "reader_env \<Rightarrow> conn_id list" where
  "idents s = map (\<lambda>a. the (ident_at s a)) (peers_of s)"

lemma rinv_distinct: "rinv L s bs ps \<Longrightarrow> distinct ps"
  using list_rep_distinct by (auto simp: rinv_def heap_ok_def)

lemma rinv_ident: "rinv L s bs ps \<Longrightarrow> a \<in> set ps \<Longrightarrow> ident_at s a \<noteq> None"
  by (auto simp: ident_at_def elim: rinv_clients)

lemma idents_inj:
  assumes "rinv L s bs ps"
  shows "inj_on (\<lambda>p. the (ident_at s p)) (set ps)"
  using assms rinv_ident [OF assms] unfolding rinv_def clients_ok_def inj_on_def
  by (metis option.expand)

lemma map_remove1_inj:
  "inj_on f (set xs) \<Longrightarrow> a \<in> set xs \<Longrightarrow> map f (remove1 a xs) = remove1 (f a) (map f xs)"
  by (induction xs) (auto simp: inj_on_def)

lemma idents_client_of:
  assumes inv: "rinv L s bs ps"
  shows "client_of s c = None \<longleftrightarrow> c \<notin> set (idents s)"
proof -
  have "ident_at s a = Some c \<longleftrightarrow> the (ident_at s a) = c" if "a \<in> set ps" for a
    using rinv_ident [OF inv that] by auto
  then show ?thesis
    unfolding client_of_def idents_def find_None_iff rinv_lists [OF inv] by auto
qed

lemma stored_same_bkts:
  "rinv L s bs ps \<Longrightarrow> rinv L t bs ps' \<Longrightarrow> m_bkts t = m_bkts s \<Longrightarrow> stored t = stored s"
  by (simp add: stored_def rinv_lists bkt_at_def)

lemma rpc_hdl_dispatch:
  assumes "lr_body_len req \<ge> sizeof_hdr" "rpc_op_of (body_op (lr_body req)) = Some op"
    "reader_rpc_handle op = Some h" "lr_forward req = Some c"
  shows "changelog_reader_rpc_hdl L req s = bindR (h L req s) (\<lambda>rc s.
    if rc < 0 \<or> rc = 1 then ack_retcode L None (Some c) rc s else Ok rc s)"
proof -
  have "body_op (lr_body req) \<le> RPC_OP_LAST" using assms(2) rpc_op_of_range by blast
  with assms(1-3) show ?thesis
    unfolding changelog_reader_rpc_hdl_def assms(4)
    by (simp add: reader_rpc_handle_one_def Let_def)
qed

lemma ack_emits_inv:
  assumes "rinv L t bs ps" "sends_ok L" "wf_cid c" "emits s t []"
  shows "\<exists>u. ack_retcode L None (Some c) e t = Ok 0 u \<and> rinv L u bs ps \<and> world.more u = world.more t \<and>
    emits s u [peer_frames None c (ack_msg e)]"
proof -
  obtain evs where u: "ack_retcode L None (Some c) e t = Ok 0 (t\<lparr>w_log := evs @ w_log t\<rparr>)"
      "out_run [] (rev evs) = ([peer_frames None c (ack_msg e)], [])"
    using ack_retcode_ok [OF assms(2,3), of None e t] by auto
  then have "emits t (t\<lparr>w_log := evs @ w_log t\<rparr>) [peer_frames None c (ack_msg e)]"
    by (auto simp: emits_def)
  with emits_trans [OF assms(4)] u(1) assms(1) show ?thesis by fastforce
qed

lemma more_idents:
  assumes "world.more t = world.more s"
  shows "idents t = idents s" "stored t = stored s" "m_clients t = m_clients s" "m_bkts t = m_bkts s"
    "re_deliver_next t = re_deliver_next s" "buckets_of t = buckets_of s"
  using assms by (cases s; cases t;
    simp add: idents_def ident_at_def stored_def bkt_at_def buckets_of_def peers_of_def)+

text \<open>START registers its sender as the last client and acknowledges it with 0, unless the
  sender is registered already: then nothing changes and it is told -EALREADY. Records and
  buckets are not touched.\<close>

theorem start_registers:
  assumes inv: "reader_inv L s" and req: "req_ok 3 req" "lr_forward req = Some c"
    and op: "rpc_op_of (body_op (lr_body req)) = Some RPC_OP_START" "lr_body_len req \<ge> sizeof_register"
    and ok: "sends_ok L" "allocs_ok L" "ci_length c + 8 < 2 ^ 63"
  shows "\<exists>t. changelog_reader_rpc_hdl L req s = Ok 0 t \<and> reader_inv L t \<and> stored t = stored s \<and>
    (if c \<in> set (idents s)
     then idents t = idents s \<and> emits s t [peer_frames None c (ack_msg (- EALREADY))]
     else idents t = idents s @ [c] \<and> emits s t [peer_frames None c (ack_msg 0)])"
proof -
  obtain bs ps where r: "rinv L s bs ps" using reader_invE [OF inv] .
  have c: "wf_cid c" using req by (auto simp: req_ok_def)
  have hdl: "changelog_reader_rpc_hdl L req s = bindR (reader_handle_start L req s) (\<lambda>rc s.
      if rc < 0 \<or> rc = 1 then ack_retcode L None (Some c) rc s else Ok rc s)"
    by (rule rpc_hdl_dispatch [OF _ op(1) _ req(2)]) (use op(2) in \<open>simp_all add: reader_rpc_handle_def\<close>)
  from r op(2) req(2) c show ?thesis
  proof (cases rule: reader_handle_start_cases)
    case known
    obtain u where u: "ack_retcode L None (Some c) (- EALREADY) s = Ok 0 u" "rinv L u bs ps"
        "world.more u = world.more s" "emits s u [peer_frames None c (ack_msg (- EALREADY))]"
      using ack_emits_inv [OF r ok(1) c emits_refl, of "- EALREADY"] by blast
    with known hdl idents_client_of [OF r] more_idents [OF u(3)] show ?thesis
      by (auto intro: reader_invI)
  next
    case (nomem l)
    with ok show ?thesis by (simp add: start_ok_def)
  next
    case (new t)
    obtain u where u: "ack_retcode L None (Some c) 0 t = Ok 0 u" "rinv L u bs (ps @ [m_brk s])"
        "world.more u = world.more t" "emits s u [peer_frames None c (ack_msg 0)]"
      using ack_emits_inv [OF new(4) ok(1) c new(3), of 0] by blast
    have fresh: "m_brk s \<notin> set ps" using r by (auto simp: rinv_defs)
    have t: "m_bkts t = m_bkts s"
      "m_clients t = (m_clients s)(m_brk s \<mapsto> \<lparr>cs_start = sint (reg_start (dec_register (lr_body req))),
         cs_bucket = None, cs_ident = Some c\<rparr>)"
      using new(2) by (auto simp: client_added_def)
    have "idents t = idents s @ [c]"
      unfolding idents_def rinv_lists(2) [OF new(4)] rinv_lists(2) [OF r] ident_at_def t(2)
      using fresh by auto
    with new u hdl idents_client_of [OF r, of c] more_idents [OF u(3)]
      stored_same_bkts [OF r new(4) t(1)] show ?thesis
      by (auto intro: reader_invI)
  qed
qed

definition demo_start :: bytes where
  "demo_start = enc_register \<lparr>reg_hdr = mk_hdr RPC_OP_START, reg_flags = 0, reg_padding = 0,
     reg_start = 0, reg_mdtname = replicate 128 0\<rparr>"

lemma demo_start_facts: "demo_start \<noteq> []" "length demo_start = sizeof_register"
  "body_op demo_start = rpc_op_code RPC_OP_START"
proof -
  show l: "length demo_start = sizeof_register" by (simp add: demo_start_def)
  then show "demo_start \<noteq> []" by auto
  show "body_op demo_start = rpc_op_code RPC_OP_START"
    by (rule body_op_mk_hdr) (simp add: demo_start_def)
qed

lemma demo_idents: "idents demo_reader = [cid [5]]"
  by (simp add: idents_def demo_reader_lists ident_at_def) (simp add: demo_reader_def)

theorem start_registers_witness:
  "\<exists>t. changelog_reader_rpc_hdl demo_libs (demo_req [6] demo_start) demo_reader = Ok 0 t \<and>
    idents t = [cid [5], cid [6]]"
  using start_registers [OF reader_invI [OF demo_reader_ok] demo_req_ok [of demo_start "[6]"],
      of "cid [6]"] demo_start_facts demo_idents
  by (auto simp: demo_req_def)

text \<open>FINI undoes START: it removes its sender, and nobody else, from the clients and
  acknowledges with 0, whatever the state of the bucket the client held; from an unknown sender
  it changes nothing and is answered -EPROTO.\<close>

theorem fini_deregisters:
  assumes inv: "reader_inv L s" and req: "req_ok 3 req" "lr_forward req = Some c"
    and op: "rpc_op_of (body_op (lr_body req)) = Some RPC_OP_FINI" "lr_body_len req \<ge> sizeof_fini"
    and ok: "sends_ok L"
  shows "\<exists>t. changelog_reader_rpc_hdl L req s = Ok 0 t \<and> reader_inv L t \<and> stored t = stored s \<and>
    idents t = remove1 c (idents s) \<and>
    emits s t [peer_frames None c (ack_msg (if c \<in> set (idents s) then 0 else - EPROTO))]"
proof -
  obtain bs ps where r: "rinv L s bs ps" using reader_invE [OF inv] .
  have c: "wf_cid c" using req by (auto simp: req_ok_def)
  have hdl: "changelog_reader_rpc_hdl L req s = bindR (reader_handle_fini L req s) (\<lambda>rc s.
      if rc < 0 \<or> rc = 1 then ack_retcode L None (Some c) rc s else Ok rc s)"
    by (rule rpc_hdl_dispatch [OF _ op(1) _ req(2)]) (use op(2) in \<open>simp_all add: reader_rpc_handle_def\<close>)
  show ?thesis
  proof (cases "client_of s c")
    case None
    obtain u where u: "ack_retcode L None (Some c) (- EPROTO) s = Ok 0 u" "rinv L u bs ps"
        "world.more u = world.more s" "emits s u [peer_frames None c (ack_msg (- EPROTO))]"
      using ack_emits_inv [OF r ok c emits_refl, of "- EPROTO"] by blast
    have "reader_handle_fini L req s = Ok (- EPROTO) s"
      using None op(2) req(2) r c by (simp add: reader_handle_fini_def client_state_get_eq)
    with hdl u None idents_client_of [OF r, of c] more_idents [OF u(3)] show ?thesis
      by (auto intro: reader_invI simp: remove1_idem)
  next
    case (Some a)
    obtain t where t: "client_removed a s t" "rinv L t bs (remove1 a ps)"
        "reader_handle_fini L req s = ack_retcode L None (Some c) 0 t"
      using reader_handle_fini_eq [OF r op(2) req(2) c Some] by blast
    have "emits s t []" by (rule emits_quiet [of _ "[]"]) (use t(1) in \<open>auto simp: client_removed_def\<close>)
    then obtain u where u: "ack_retcode L None (Some c) 0 t = Ok 0 u" "rinv L u bs (remove1 a ps)"
        "world.more u = world.more t" "emits s u [peer_frames None c (ack_msg 0)]"
      using ack_emits_inv [OF t(2) ok c, of s 0] by blast
    have m: "m_bkts t = m_bkts s" "m_clients t = (m_clients s)(a := None)"
      using t(1) by (auto simp: client_removed_def)
    have a: "a \<in> set ps" "ident_at s a = Some c"
      using Some by (auto simp: client_of_def rinv_lists [OF r] find_Some_iff)
    have "idents t = map (\<lambda>p. the (ident_at s p)) (remove1 a ps)"
      unfolding idents_def rinv_lists(2) [OF t(2)] ident_at_def m(2)
      using rinv_distinct [OF r] by auto
    also have "\<dots> = remove1 c (idents s)"
      using map_remove1_inj [OF idents_inj [OF r] a(1)] a(2) by (simp add: idents_def rinv_lists(2) [OF r])
    finally have "idents t = remove1 c (idents s)" .
    with t u hdl idents_client_of [OF r, of c] more_idents [OF u(3)]
      stored_same_bkts [OF r t(2) m(1)] Some show ?thesis
      by (auto intro: reader_invI)
  qed
qed

definition demo_fini :: bytes where
  "demo_fini = enc_fini \<lparr>fin_hdr = mk_hdr RPC_OP_FINI\<rparr>"

lemma demo_fini_facts: "demo_fini \<noteq> []" "length demo_fini = sizeof_fini"
  "body_op demo_fini = rpc_op_code RPC_OP_FINI"
proof -
  show l: "length demo_fini = sizeof_fini" by (simp add: demo_fini_def)
  then show "demo_fini \<noteq> []" by auto
  show "body_op demo_fini = rpc_op_code RPC_OP_FINI"
    by (rule body_op_mk_hdr) (simp add: demo_fini_def)
qed

theorem fini_deregisters_witness:
  "\<exists>t. changelog_reader_rpc_hdl demo_libs (demo_req [5] demo_fini) demo_reader = Ok 0 t \<and>
    idents t = []"
  using fini_deregisters [OF reader_invI [OF demo_reader_ok] demo_req_ok [of demo_fini "[5]"],
      of "cid [5]"] demo_fini_facts demo_idents
  by (auto simp: demo_req_def)

subsection \<open>Properties: delivery\<close>

lemma bucket_msg_core:
  "lrb_rec_count b' = lrb_rec_count b \<Longrightarrow> bkt_recs b' = bkt_recs b \<Longrightarrow> bucket_msg L b' = bucket_msg L b"
  by (simp add: bucket_msg_def)

lemma bucket_alloc_size_ok: "cfg_ok cfg \<Longrightarrow> bucket_alloc_size (ccf_rec_batch_count cfg) < 2 ^ 63"
  by (auto simp: cfg_ok_def bucket_alloc_size_def)

lemma send_inv:
  assumes "rinv L t bs ps" "sends_ok L" "wf_cid c" "emits s t []"
  shows "\<exists>u. peer_rpc_send L None (Some c) m t = Ok 0 u \<and> rinv L u bs ps \<and> world.more u = world.more t \<and>
    emits s u [peer_frames None c m]"
proof -
  obtain evs where u: "peer_rpc_send L None (Some c) m t = Ok 0 (t\<lparr>w_log := evs @ w_log t\<rparr>)"
      "out_run [] (rev evs) = ([peer_frames None c m], [])"
    using peer_rpc_send_ok [OF assms(2,3), of None m t] by auto
  then have "emits t (t\<lparr>w_log := evs @ w_log t\<rparr>) [peer_frames None c m]"
    by (auto simp: emits_def)
  with emits_trans [OF assms(4)] u(1) assms(1) show ?thesis by fastforce
qed

lemma dequeue_answer:
  assumes inv: "reader_inv L s" and req: "req_ok 3 req" "lr_forward req = Some c"
    and op: "rpc_op_of (body_op (lr_body req)) = Some RPC_OP_DEQUEUE" "lr_body_len req \<ge> sizeof_dequeue"
    and cl: "client_of s c = Some a" "client_bucket s a = None"
    and bk: "next_bucket L s = Some d" "lrb_size (bkt_at s d) + sizeof_enqueue < 2 ^ 63"
    and ok: "sends_ok L" "allocs_ok L"
  shows "\<exists>t. changelog_reader_rpc_hdl L req s = Ok 0 t \<and> reader_inv L t \<and> stored t = stored s \<and>
    emits s t [peer_frames None c (bucket_msg L (bkt_at s d))] \<and>
    client_bucket t a = Some d \<and> re_deliver_next t = after_in (buckets_of s) d"
proof -
  obtain bs ps where r: "rinv L s bs ps" and bs: "buckets_of s = bs" using reader_invE [OF inv] .
  have c: "wf_cid c" using req by (auto simp: req_ok_def)
  have cfg: "cfg_ok (re_cfg s)" using r by (simp add: rinv_def)
  have hdl: "changelog_reader_rpc_hdl L req s = bindR (reader_handle_dequeue L req s) (\<lambda>rc s.
      if rc < 0 \<or> rc = 1 then ack_retcode L None (Some c) rc s else Ok rc s)"
    by (rule rpc_hdl_dispatch [OF _ op(1) _ req(2)]) (use op(2) in \<open>simp_all add: reader_rpc_handle_def\<close>)
  from r op(2) req(2) c cl bk(1) show ?thesis
  proof (cases rule: reader_handle_dequeue_cases)
    case (nomem l)
    with ok(2) bucket_alloc_size_ok [OF cfg] show ?thesis by simp
  next
    case (sent t bs')
    obtain b where b: "m_bkts t d = Some b" using rinv_bkt [OF sent(3,4)] .
    obtain cs where cs: "m_clients t a = Some cs" "cs_bucket cs = Some d"
      using sent(7) by (auto simp: client_bucket_def bind_eq_Some_conv)
    have "d \<in> set bs" by (rule next_bucket_member [OF r bk(1)])
    then obtain b0 where b0: "m_bkts s d = Some b0" using rinv_bkt [OF r] by blast
    have "map_option bkt_core (m_bkts (bucket_got L s) d) = map_option bkt_core (m_bkts s d)"
      using same_core_got by (simp add: same_core_def)
    with b b0 sent(6) have "bkt_core b = bkt_core b0" by simp
    note core = bkt_core_eqD [OF this]
    then have msg: "bucket_msg L b = bucket_msg L (bkt_at s d)" and sz: "lrb_size b = lrb_size (bkt_at s d)"
      using b0 by (simp_all add: bkt_at_def bucket_msg_def bkt_recs_def)
    let ?t = "deadline_set L d b t"
    have enq: "enqueue_rec L a req t = peer_rpc_send L None (Some c) (bucket_msg L b) ?t"
      using enqueue_rec_eq [OF sent(3) cs b, of req] ok(2) bk(2) sz req(2) by (simp add: allocs_ok_def)
    have inv_t: "rinv L ?t bs' ps" by (rule rinv_deadline_set [OF sent(3) b])
    have "emits s ?t []" using emits_trans [OF sent(2) emits_deadline_set] by simp
    then obtain u where u: "peer_rpc_send L None (Some c) (bucket_msg L b) ?t = Ok 0 u" "rinv L u bs' ps"
        "world.more u = world.more ?t" "emits s u [peer_frames None c (bucket_msg L b)]"
      using send_inv [OF inv_t ok(1) c] by blast
    have "same_core (m_bkts t) (m_bkts ?t)"
      using b by (auto simp: deadline_set_def Let_def intro: same_core_upd)
    then have "stored u = stored s"
      using stored_core [OF sent(3) inv_t] more_idents(2) [OF u(3)] sent(9) by simp
    moreover have "client_bucket u a = Some d" "re_deliver_next u = after_in bs d"
      using more_idents [OF u(3)] sent(7,10)
      by (simp_all add: client_bucket_def deadline_set_def Let_def)
    ultimately show ?thesis
      using hdl sent(8) enq u msg bs by (auto intro: reader_invI)
  qed
qed

text \<open>(C11) A DEQUEUE from a registered client that holds no bucket is answered with one ENQUEUE
  message carrying exactly the records of the next bucket, in order; the bucket then belongs to
  that client, the next client gets the one after it, the deadline of the bucket is set, and no
  record is added to or lost from the cache. The next bucket is the first one when its deadline
  has passed, and the one \<^verbatim>\<open>re_deliver_next\<close> names otherwise.\<close>

theorem dequeue_delivers:
  assumes inv: "reader_inv L s" and req: "req_ok 3 req" "lr_forward req = Some c"
    and op: "rpc_op_of (body_op (lr_body req)) = Some RPC_OP_DEQUEUE" "lr_body_len req \<ge> sizeof_dequeue"
    and cl: "client_of s c = Some a" "client_bucket s a = None"
    and bk: "next_bucket L s = Some d" "lrb_size (bkt_at s d) + sizeof_enqueue < 2 ^ 63"
    and ok: "sends_ok L" "allocs_ok L"
  shows "\<exists>t. changelog_reader_rpc_hdl L req s = Ok 0 t \<and> reader_inv L t \<and> stored t = stored s \<and>
    emits s t [peer_frames None c (bucket_msg L (bkt_at s d))] \<and>
    client_bucket t a = Some d \<and> re_deliver_next t = after_in (buckets_of s) d"
  by (rule dequeue_answer) (fact assms)+

definition demo_dequeue_body :: bytes where
  "demo_dequeue_body = enc_dequeue \<lparr>deq_hdr = mk_hdr RPC_OP_DEQUEUE\<rparr>"

lemma demo_dequeue_facts: "demo_dequeue_body \<noteq> []" "length demo_dequeue_body = sizeof_dequeue"
  "body_op demo_dequeue_body = rpc_op_code RPC_OP_DEQUEUE"
proof -
  show l: "length demo_dequeue_body = sizeof_dequeue" by (simp add: demo_dequeue_body_def)
  then show "demo_dequeue_body \<noteq> []" by auto
  show "body_op demo_dequeue_body = rpc_op_code RPC_OP_DEQUEUE"
    by (rule body_op_mk_hdr) (simp add: demo_dequeue_body_def)
qed

lemma demo_next: "next_bucket demo_libs demo_reader = Some 0" "lrb_size (bkt_at demo_reader 0) = 64"
  by (simp_all add: next_bucket_def expired_def demo_reader_lists bkt_at_def)
    (simp_all add: demo_reader_def fresh_bucket_def demo_libs_def)

theorem dequeue_delivers_witness:
  "\<exists>t. changelog_reader_rpc_hdl demo_libs (demo_req [5] demo_dequeue_body) demo_reader = Ok 0 t \<and>
    emits demo_reader t [peer_frames None (cid [5]) (bucket_msg demo_libs (bkt_at demo_reader 0))] \<and>
    client_bucket t 1 = Some 0 \<and> re_deliver_next t = Some 2"
proof -
  have "after_in [0, 2] 0 = Some 2" by (simp add: after_in_def)
  then show ?thesis
    using dequeue_delivers [OF reader_invI [OF demo_reader_ok] demo_req_ok [of demo_dequeue_body "[5]"],
        of "cid [5]" 1 0] demo_dequeue_facts demo_client demo_next demo_reader_lists
    by (auto simp: demo_req_def)
qed

end
