(* ===== verification/Reader_Life.thy ===== *)
theory Reader_Life
  imports Reader_Props
begin

text \<open>
  The properties of the reader that concern the life of the cache: when there is nothing to
  deliver, what acknowledging a bucket does, what reading the changelog adds, how the thread
  starts, runs and ends.
\<close>

subsection \<open>Nothing to deliver\<close>

text \<open>(C20) When the last bucket has been delivered, \<^verbatim>\<open>re_deliver_next\<close> is NULL and stays so: the
  records read afterwards, which go to buckets added later, are not delivered. Until the deadline
  of the first bucket passes, every DEQUEUE is answered with the end-of-file code 1, although
  the cache holds records that were never sent.\<close>

theorem delivery_stalls:
  assumes inv: "reader_inv L s" and dn: "re_deliver_next s = None"
    and cl: "changelog_ok L (m_changelog s)" "re_rec_cnt s \<le> limit s"
    and enq: "changelog_reader_enqueue L s = Ok rc t"
    and req: "req_ok 3 req" "lr_forward req = Some c"
    and op: "rpc_op_of (body_op (lr_body req)) = Some RPC_OP_DEQUEUE" "lr_body_len req \<ge> sizeof_dequeue"
    and a: "client_of t c = Some a" "client_bucket t a = None"
    and time: "\<not> expired L t" and ok: "sends_ok L"
  shows "\<exists>u. changelog_reader_rpc_hdl L req t = Ok 0 u \<and>
    emits t u [peer_frames None c (ack_msg 1)] \<and> re_deliver_next u = None"
proof -
  obtain bs ps where r: "rinv L s bs ps" using reader_invE [OF inv] .
  have "enq_post L s ps t" using run_OkD [OF changelog_reader_enqueue_spec [OF r cl] enq] .
  then obtain bs' where t: "rinv L t bs' ps" and fr: "re_deliver_next t = None"
    using dn by (auto simp: enq_post_def grown_def store_frame_def)
  have c: "wf_cid c" using req by (auto simp: req_ok_def)
  have next_None: "next_bucket L t = None" using time fr by (simp add: next_bucket_def)
  have "rinv L (bucket_got L t) bs' ps" by (rule rinv_bucket_got [OF t])
  then obtain u where u: "ack_retcode L None (Some c) 1 (bucket_got L t) = Ok 0 u"
      "world.more u = world.more (bucket_got L t)" "emits t u [peer_frames None c (ack_msg 1)]"
    using ack_emits_inv [OF _ ok c emits_bucket_got] by blast
  have "changelog_reader_rpc_hdl L req t = bindR (reader_handle_dequeue L req t) (\<lambda>rc s.
      if rc < 0 \<or> rc = 1 then ack_retcode L None (Some c) rc s else Ok rc s)"
    by (rule rpc_hdl_dispatch [OF _ op(1) _ req(2)]) (use op(2) in \<open>simp_all add: reader_rpc_handle_def\<close>)
  also have "\<dots> = Ok 0 u"
    using reader_handle_dequeue_eq [OF t op(2) req(2) c a] next_None u(1) by simp
  finally have "changelog_reader_rpc_hdl L req t = Ok 0 u" .
  moreover have "re_deliver_next u = None"
    using more_idents(5) [OF u(2)] next_None by (simp add: bucket_got_def)
  ultimately show ?thesis using u(3) by blast
qed

text \<open>The example reader once its buckets were delivered, with a record waiting in the changelog.\<close>

definition demo_sent :: reader_env where
  "demo_sent = demo_reader\<lparr>re_deliver_next := None,
     m_bkts := (m_bkts demo_reader)(0 \<mapsto> (bkt_at demo_reader 0)\<lparr>lrb_expiry := \<lparr>tv_sec = 9, tv_nsec = 0\<rparr>\<rparr>),
     m_changelog := [Inr (replicate 8 0 @ put64 8 @ replicate 48 0)]\<rparr>"

lemma demo_sent_ok: "rinv demo_libs demo_sent [0, 2] [1]"
proof -
  have "rinv demo_libs (demo_reader\<lparr>re_deliver_next := None\<rparr>) [0, 2] [1]"
    by (rule rinv_deliver [OF demo_reader_ok]) simp
  moreover have "m_bkts demo_reader 0 = Some (bkt_at demo_reader 0)"
    by (simp add: bkt_at_def demo_reader_def)
  ultimately show ?thesis
    unfolding demo_sent_def by (auto intro!: rinv_same_core same_core_upd)
qed

lemma demo_sent_enqueue:
  "\<exists>l b. changelog_reader_enqueue demo_libs demo_sent = Ok 1 (demo_sent\<lparr>w_log := l, re_clpriv := False,
     m_changelog := [], re_srec := 9, re_stats := \<lparr>rs_start_time = \<lparr>tval_sec = 1, tval_usec = 0\<rparr>, rs_rec_read = 2, rs_rec_sent = 0\<rparr>, re_rec_cnt := 2,
     m_bkts := (m_bkts demo_sent)(2 \<mapsto> b)\<rparr>)"
proof -
  let ?r = "replicate 8 0 @ put64 8 @ replicate 48 0 :: bytes"
  have idx: "cr_index demo_libs ?r = 8"
    by (simp add: demo_libs_def field_simps_c)
  have sig: "\<not> lib_term_sig demo_libs h" for h by (simp add: demo_libs_def)
  show ?thesis
    unfolding demo_sent_def demo_reader_def
    by (simp add: changelog_reader_enqueue_def changelog_reader_full_def demo_cfg_def in_int32_def
        idx sig read_term_sig_def changelog_reader_rec_store_def get_bkt_def upd_bkt_def
        fresh_bucket_def bkt_at_def Let_def) blast
qed

theorem delivery_stalls_witness:
  "\<exists>t u. changelog_reader_enqueue demo_libs demo_sent = Ok 1 t \<and> re_rec_cnt t = 2 \<and>
     changelog_reader_rpc_hdl demo_libs (demo_req [5] demo_dequeue_body) t = Ok 0 u \<and>
     emits t u [peer_frames None (cid [5]) (ack_msg 1)]"
proof -
  obtain l b where enq: "changelog_reader_enqueue demo_libs demo_sent = Ok 1 (demo_sent\<lparr>w_log := l,
     re_clpriv := False, m_changelog := [], re_srec := 9,
     re_stats := \<lparr>rs_start_time = \<lparr>tval_sec = 1, tval_usec = 0\<rparr>, rs_rec_read = 2, rs_rec_sent = 0\<rparr>, re_rec_cnt := 2,
     m_bkts := (m_bkts demo_sent)(2 \<mapsto> b)\<rparr>)" (is "_ = Ok 1 ?t")
    using demo_sent_enqueue by blast
  have lists: "buckets_of ?t = [0, 2]" "peers_of ?t = [1]"
    using demo_reader_lists by (simp_all add: buckets_of_def peers_of_def demo_sent_def)
  have "client_of ?t (cid [5]) = Some 1" "client_bucket ?t 1 = None"
    using demo_client unfolding client_of_def lists demo_reader_lists
    by (simp_all add: ident_at_def client_bucket_def demo_sent_def)
  moreover have "\<not> expired demo_libs ?t"
    unfolding expired_def lists by (simp add: bkt_at_def demo_sent_def demo_libs_def)
  moreover have "changelog_ok demo_libs (m_changelog demo_sent)" "re_rec_cnt demo_sent \<le> limit demo_sent"
    "re_deliver_next demo_sent = None"
    by (simp_all add: demo_sent_def changelog_ok_def limit_def demo_reader_def demo_cfg_def
        rec_len_def demo_libs_def) (simp add: numeral_eq_Suc)
  ultimately show ?thesis
    using delivery_stalls [OF reader_invI [OF demo_sent_ok] _ _ _ enq demo_req_ok [of demo_dequeue_body "[5]"],
        of "cid [5]" 1] enq demo_dequeue_facts
    by (auto simp: demo_req_def)
qed

subsection \<open>Acknowledging a bucket\<close>

lemma acked_simps [simp]:
  "buckets_of (acked a bk s) = buckets_of s" "peers_of (acked a bk s) = peers_of s"
  "w_log (acked a bk s) = w_log s" "reader_device (acked a bk s) = reader_device s"
  "re_cfg (acked a bk s) = re_cfg s" "re_cleanup_next (acked a bk s) = re_cleanup_next s"
  by (simp_all add: acked_def buckets_of_def peers_of_def reader_device_def)

lemma acked_client: "m_clients s a = Some cs \<Longrightarrow> client_bucket (acked a bk s) a = None"
  by (simp add: acked_def client_bucket_def)

lemma acked_recs: "bk \<in> dom (m_bkts s) \<Longrightarrow> same_core (m_bkts s) (m_bkts (acked a bk s))"
  by (auto simp: acked_def bkt_at_def intro: same_core_upd)

lemma emits_acked: "emits s (acked a bk s) []"
  by (rule emits_quiet [of _ "[]"]) auto

lemma acked_kept:
  assumes "rinv L s bs ps" "client_of s c = Some a" "client_bucket s a = Some bk"
  shows "rinv L (acked a bk s) bs ps" "stored (acked a bk s) = stored s" "client_bucket (acked a bk s) a = None"
proof -
  obtain cs where cs: "m_clients s a = Some cs" "client_ok bs cs" using client_of_Some [OF assms(1,2)] .
  have bk: "bk \<in> set bs" "cs_bucket cs = Some bk" using assms(3) cs by (auto simp: client_bucket_def client_ok_def)
  then show r: "rinv L (acked a bk s) bs ps" by (intro rinv_acked [OF assms(1) cs(1)]) simp_all
  have "bk \<in> dom (m_bkts s)" using bk(1) assms(1) by (auto simp: rinv_def heap_ok_def)
  then show "stored (acked a bk s) = stored s" using stored_core [OF assms(1) r acked_recs] by simp
  show "client_bucket (acked a bk s) a = None" by (rule acked_client [OF cs(1)])
qed

text \<open>The answer to a CLEAR, whatever has been logged since.\<close>

lemma acked_answer:
  assumes r: "rinv L s bs ps" "client_of s c = Some a" "client_bucket s a = Some bk" and ok: "sends_ok L" "wf_cid c"
    and v: "v = acked a bk s\<lparr>w_log := l\<rparr>" "emits s v []"
  shows "\<exists>u evs. ack_retcode L None (Some c) e v = Ok 0 u \<and> reader_inv L u \<and> stored u = stored s \<and>
    client_bucket u a = None \<and> lrb_ready (bkt_at u bk) \<and>
    emits s u [peer_frames None c (ack_msg e)] \<and> w_log u = evs @ w_log v"
proof -
  note kept = acked_kept [OF r]
  obtain evs where u: "ack_retcode L None (Some c) e v = Ok 0 (v\<lparr>w_log := evs @ w_log v\<rparr>)"
      "out_run [] (rev evs) = ([peer_frames None c (ack_msg e)], [])"
    using ack_retcode_ok [OF ok, of None e v] by auto
  let ?u = "v\<lparr>w_log := evs @ w_log v\<rparr>"
  have "emits v ?u [peer_frames None c (ack_msg e)]" using u(2) by (auto simp: emits_def)
  then have "emits s ?u [peer_frames None c (ack_msg e)]" using emits_trans [OF v(2)] by fastforce
  moreover have "stored ?u = stored s" using v(1) kept(2) by simp
  moreover have "client_bucket ?u a = None" using v(1) kept(3) by (simp add: client_bucket_def)
  moreover have "lrb_ready (bkt_at ?u bk)" using v(1) by (simp add: acked_def bkt_at_def)
  moreover have "rinv L ?u bs ps" using kept(1) v(1) by simp
  ultimately show ?thesis using u(1) by (fastforce intro: reader_invI)
qed

lemma clear_dispatch:
  assumes "rpc_op_of (body_op (lr_body req)) = Some RPC_OP_CLEAR" "lr_body_len req \<ge> sizeof_clear" "lr_forward req = Some c"
  shows "changelog_reader_rpc_hdl L req s = bindR (reader_handle_clear L req s) (\<lambda>rc s.
    if rc < 0 \<or> rc = 1 then ack_retcode L None (Some c) rc s else Ok rc s)"
  by (rule rpc_hdl_dispatch [OF _ assms(1) _ assms(3)]) (use assms(2) in \<open>simp_all add: reader_rpc_handle_def\<close>)

lemma head_freedD:
  assumes "head_freed s t"
  shows "w_log t = rev (map (Ev_ll_free \<circ> Some) (bkt_recs (bkt_at s (hd (buckets_of s))))) @ w_log s"
    "heap_ok t (tl (buckets_of s)) (peers_of s)" "m_bkts t (hd (buckets_of s)) = None"
    "re_cleanup_next t = re_cleanup_next s"
  using assms by (auto simp: head_freed_def Let_def)

text \<open>(C1) A CLEAR from the client that holds bucket \<open>bk\<close> takes it from the client and marks it
  ready. If the first bucket of the list is then not ready, the client is acknowledged with 0 and
  Lustre is not called. Otherwise the changelog is cleared upstream, once, up to the last record
  of the first bucket; if Lustre refuses, its error is the answer and the cache keeps every
  record; if it accepts, exactly the records of the first bucket are freed and the bucket with
  them, and the reader then reads the freed bucket, before any answer and with
  \<^verbatim>\<open>re_cleanup_next\<close> pointing to it.\<close>

theorem clear_behaviour:
  assumes inv: "reader_inv L s" and req: "req_ok 3 req" "lr_forward req = Some c"
    and op: "rpc_op_of (body_op (lr_body req)) = Some RPC_OP_CLEAR" "lr_body_len req \<ge> sizeof_clear"
    and cl: "client_of s c = Some a" "client_bucket s a = Some bk" and ok: "sends_ok L"
  defines "head \<equiv> hd (buckets_of s)"
  defines "hb \<equiv> bkt_at (acked a bk s) head"
  defines "rc \<equiv> lib_ll_clear L (w_log s) (reader_device s) (ccf_clreader (re_cfg s)) (bkt_max L hb)"
  defines "call \<equiv> Ev_ll_clear (reader_device s) (ccf_clreader (re_cfg s)) (bkt_max L hb) rc"
  shows "if \<not> lrb_ready hb \<or> rc < 0
    then \<exists>t evs. changelog_reader_rpc_hdl L req s = Ok 0 t \<and> reader_inv L t \<and> stored t = stored s \<and>
      client_bucket t a = None \<and> lrb_ready (bkt_at t bk) \<and>
      emits s t [peer_frames None c (ack_msg (if lrb_ready hb then rc else 0))] \<and>
      w_log t = evs @ (if lrb_ready hb then [call] else []) @ w_log s
    else \<exists>t. changelog_reader_rpc_hdl L req s = Bad Use_after_free t \<and>
      w_log t = rev (map (Ev_ll_free \<circ> Some) (bkt_recs hb)) @ [call] @ w_log s \<and>
      heap_ok t (tl (buckets_of s)) (peers_of s) \<and> m_bkts t head = None \<and>
      re_cleanup_next t = Some head"
proof -
  obtain bs ps where r: "rinv L s bs ps" and bs: "buckets_of s = bs" using reader_invE [OF inv] .
  have c: "wf_cid c" using req by (auto simp: req_ok_def)
  let ?t = "acked a bk s"
  note res = reader_handle_clear_eq [OF r op(2) req(2) c cl] and hdl = clear_dispatch [OF op req(2), of L s]
    and answer = acked_answer [OF r cl ok c]
  have call: "clear_call L ?t = rc" "clear_logged L ?t = ?t\<lparr>w_log := call # w_log s\<rparr>"
    by (simp_all add: clear_call_def clear_logged_def rc_def call_def hb_def head_def)
  have ready: "lrb_ready (bkt_at ?t (hd (buckets_of ?t))) = lrb_ready hb" by (simp add: hb_def head_def)
  have called: "emits s (clear_logged L ?t) []"
    by (rule emits_quiet [of _ "[call]"]) (simp_all add: call(2), simp add: call_def quiet_event_def)
  consider "\<not> lrb_ready hb" | "lrb_ready hb" "rc < 0" | "lrb_ready hb" "\<not> rc < 0" by blast
  then show ?thesis
  proof cases
    case 1
    then have "reader_handle_clear L req s = ack_retcode L None (Some c) 0 ?t"
      using res(1) ready by (simp add: clear_result_def)
    with answer [of "?t" "w_log ?t" 0] emits_acked 1 hdl show ?thesis by fastforce
  next
    case 2
    then have "reader_handle_clear L req s = Ok rc (clear_logged L ?t)"
      using res(1) ready call(1) by (simp add: clear_result_def)
    with answer [OF call(2) called, of rc] 2 hdl call(2) show ?thesis by fastforce
  next
    case 3
    then obtain u where u: "reader_handle_clear L req s = Bad Use_after_free u" "head_freed (clear_logged L ?t) u"
      using res(1) ready call(1) by (auto simp: clear_result_def)
    have "re_cleanup_next s = Some head"
      using r by (simp add: rinv_def ptrs_ok_def head_def bs)
    with 3 hdl u(1) head_freedD [OF u(2)] show ?thesis
      by (auto simp: call(2) hb_def head_def)
  qed
qed

definition demo_held :: reader_env where
  "demo_held = demo_reader\<lparr>m_clients := (m_clients demo_reader)(1 \<mapsto>
     (the (m_clients demo_reader 1))\<lparr>cs_bucket := Some 0\<rparr>)\<rparr>"

lemma demo_held_ok: "rinv demo_libs demo_held [0, 2] [1]"
  unfolding demo_held_def
  by (rule rinv_set_bucket [OF demo_reader_ok]) (auto simp: demo_reader_def)

theorem clear_behaviour_witness:
  "\<exists>t. changelog_reader_rpc_hdl demo_libs (demo_req [5] demo_clear) demo_held = Bad Use_after_free t \<and>
     w_log t = [Ev_ll_free (Some demo_rec), Ev_ll_clear (Some [77, 48]) (Some [99, 108, 49]) 7 0]"
proof -
  have lists: "buckets_of demo_held = [0, 2]" "peers_of demo_held = [1]"
    using demo_reader_lists by (simp_all add: buckets_of_def peers_of_def demo_held_def)
  have cl: "client_of demo_held (cid [5]) = Some 1" "client_bucket demo_held 1 = Some 0"
    unfolding client_of_def lists ident_at_def client_bucket_def
    by (simp_all add: demo_held_def demo_reader_def)
  let ?hb = "bkt_at (acked 1 0 demo_held) 0"
  have hb: "lrb_ready ?hb" "bkt_recs ?hb = [demo_rec]"
    by (simp_all add: bkt_at_def acked_def bkt_recs_def demo_held_def demo_reader_def)
  have "cr_index demo_libs demo_rec = 7"
    by (simp add: demo_libs_def demo_rec_def field_simps_c)
  then have mx: "bkt_max demo_libs ?hb = 7" using hb(2) by (simp add: bkt_max_def)
  have env: "w_log demo_held = []" "reader_device demo_held = Some [77, 48]"
    "ccf_clreader (re_cfg demo_held) = Some [99, 108, 49]"
    by (simp_all add: demo_held_def demo_reader_def reader_device_def demo_cfg_def)
  have rc: "lib_ll_clear demo_libs h d r x = 0" for h d r x by (simp add: demo_libs_def)
  show ?thesis
    using clear_behaviour [OF reader_invI [OF demo_held_ok] demo_req_ok [of demo_clear "[5]"], of "cid [5]" 1 0]
      demo_clear_facts cl hb mx lists env rc
    by (auto simp: demo_req_def)
qed

subsection \<open>Reading the changelog\<close>

text \<open>Reading from the changelog returns and appends to the cache, in order, exactly the
  records of a prefix of the changelog whose index is not below the next one wanted, at most one
  batch of them; nothing already cached moves, the number of cached records stays within
  batch size times number of buckets, and at most one result of Lustre is received without being
  stored (an error or end of file, or the record at hand when a signal or a failed allocation
  ends the loop).\<close>

theorem enqueue_appends:
  assumes "reader_inv L s" "changelog_ok L (m_changelog s)" "re_rec_cnt s \<le> limit s"
  shows "\<exists>rc t taken lost. changelog_reader_enqueue L s = Ok rc t \<and> reader_inv L t \<and>
    m_changelog s = map Inr taken @ lost @ m_changelog t \<and> length lost \<le> 1 \<and>
    stored t = stored s @ accepted L (re_srec s) taken \<and>
    re_srec t = next_index L (re_srec s) taken \<and>
    int (length (accepted L (re_srec s) taken)) \<le> ccf_rec_batch_count (re_cfg s) \<and>
    re_rec_cnt t = re_rec_cnt s + int (length (accepted L (re_srec s) taken)) \<and>
    re_rec_cnt t \<le> limit s \<and> idents t = idents s"
proof -
  obtain bs ps where r: "rinv L s bs ps" using reader_invE [OF assms(1)] .
  obtain rc t where t: "changelog_reader_enqueue L s = Ok rc t" "enq_post L s ps t"
    using changelog_reader_enqueue_spec [OF r assms(2,3)] by (auto simp: run_never)
  then obtain bs' where r': "rinv L t bs' ps" by (auto simp: enq_post_def)
  have "m_clients t = m_clients s" using t(2) by (auto simp: enq_post_def grown_def store_frame_def)
  then have "idents t = idents s"
    by (simp add: idents_def rinv_lists [OF r] rinv_lists [OF r'] ident_at_def)
  with t reader_invI [OF r'] show ?thesis
    unfolding enq_post_def grown_def by auto
qed

definition demo_waiting :: reader_env where
  "demo_waiting = demo_reader\<lparr>m_changelog := [Inr (replicate 8 0 @ put64 8 @ replicate 48 0)]\<rparr>"

theorem enqueue_appends_witness:
  "\<exists>rc t. changelog_reader_enqueue demo_libs demo_waiting = Ok rc t \<and> reader_inv demo_libs t \<and>
     re_rec_cnt t \<le> 8"
proof -
  have "rinv demo_libs demo_waiting [0, 2] [1]" using demo_reader_ok by (simp add: demo_waiting_def)
  moreover have "changelog_ok demo_libs (m_changelog demo_waiting)" "re_rec_cnt demo_waiting \<le> limit demo_waiting"
    "limit demo_waiting = 8"
    by (simp_all add: demo_waiting_def changelog_ok_def limit_def demo_reader_def demo_cfg_def
        rec_len_def demo_libs_def) (simp add: numeral_eq_Suc)
  ultimately show ?thesis
    using enqueue_appends [of demo_libs demo_waiting] reader_invI by fastforce
qed

text \<open>The records kept from a stretch of the changelog have strictly increasing indices, none
  below the next index wanted, so no record is cached twice, also when Lustre sends records again
  after a restart of the changelog.\<close>

theorem accepted_increasing:
  assumes "\<forall>r \<in> set rs. cr_index L r < - 1"
  shows "sorted_wrt (<) (map (cr_index L) (accepted L w rs)) \<and>
    (\<forall>r \<in> set (accepted L w rs). w \<le> cr_index L r)"
  using accepted_sorted [OF assms] accepted_above [OF assms] by blast

theorem accepted_increasing_witness:
  "sorted_wrt (<) (map (cr_index demo_libs) (accepted demo_libs 5 [demo_rec, demo_rec]))"
proof -
  have "cr_index demo_libs demo_rec = 7"
    by (simp add: demo_libs_def demo_rec_def field_simps_c)
  then have "\<forall>r \<in> set [demo_rec, demo_rec]. cr_index demo_libs r < - 1" by simp
  from accepted_increasing [OF this] show ?thesis by blast
qed

subsection \<open>The thread\<close>







text \<open>(C30) The codes -EAGAIN and -EPROTO of Lustre close the changelog for a restart, as the end of
  file does, but unlike it they also end the reader thread, because its main loop leaves on any
  negative code.\<close>

theorem restartable_error_stops_reader:
  assumes inv: "reader_inv L s" and cnt: "re_rec_cnt s < limit s" and cl: "re_clpriv s"
    and sig: "\<not> lib_term_sig L (w_log s)"
    and err: "m_changelog s = Inl e # xs" "e = - EAGAIN \<or> e = - EPROTO"
  shows "\<exists>t. reader_loop (Suc k) L rc s = Ok (Some e) t \<and> \<not> re_clpriv t \<and> m_changelog t = xs"
proof -
  have "cfg_ok (re_cfg s)" using inv by (auto simp: rinv_def elim: reader_invE)
  then have full: "changelog_reader_full (s\<lparr>w_log := l\<rparr>) = Ok False (s\<lparr>w_log := l\<rparr>)" for l
    using changelog_reader_full_eq [of "s\<lparr>w_log := l\<rparr>"] cnt by (simp add: limit_def)
  show ?thesis
    using sig err cl by (auto simp: read_term_sig_def changelog_reader_enqueue_def full Let_def)
qed

theorem restartable_error_stops_reader_witness:
  "\<exists>t. reader_loop 1 demo_libs 0 (demo_reader\<lparr>m_changelog := [Inl (- 11)]\<rparr>) = Ok (Some (- 11)) t"
proof -
  have "reader_inv demo_libs (demo_reader\<lparr>m_changelog := [Inl (- 11)]\<rparr>)"
    by (rule reader_invI [of _ _ "[0, 2]" "[1]"]) (use demo_reader_ok in simp)
  then show ?thesis
    using restartable_error_stops_reader [of demo_libs "demo_reader\<lparr>m_changelog := [Inl (- 11)]\<rparr>" "- 11" "[]" 0 0]
    by (auto simp: demo_reader_def limit_def demo_cfg_def) (auto simp: demo_libs_def)
qed

subsection \<open>Statistics\<close>

definition msec :: "timeval \<Rightarrow> int" where
  "msec t = 1000 * tval_sec t + tval_usec t div 1000"

text \<open>(C31) The statistics a reader computes at its end: for clock readings in their range, at most
  2147483 seconds (24 days, 20 hours and 31 minutes) apart, the duration is the difference of the two
  times in milliseconds, taken to 32 bits, exactly that difference below this bound; further apart the
  multiplication overflows and the thread has no defined behaviour.\<close>

theorem stats_duration_bounds:
  assumes "0 \<le> tval_usec start" "tval_usec start < 1000000" "0 \<le> tval_usec fin" "tval_usec fin < 1000000"
    and "in_int32 (tval_sec fin - tval_sec start)"
  shows "let d = \<bar>tval_sec fin - tval_sec start\<bar>
    in stats_duration start fin = (if d \<le> 2147483 then Some (to_int32 (msec fin - msec start)) else None) \<and>
       (d < 2147483 \<longrightarrow> to_int32 (msec fin - msec start) = msec fin - msec start)"
proof -
  have d: "to_int32 (tval_sec fin - tval_sec start) = tval_sec fin - tval_sec start"
    using assms(5) by simp
  have ov: "in_int32 (x * 1000) \<longleftrightarrow> \<bar>x\<bar> \<le> 2147483" for x by (auto simp: in_int32_def)
  have ms: "msec fin - msec start =
      (tval_sec fin - tval_sec start) * 1000 + (tval_usec fin div 1000 - tval_usec start div 1000)"
    by (simp add: msec_def)
  have us: "0 \<le> u div 1000 \<and> u div 1000 < 1000" if "0 \<le> u" "u < 1000000" for u :: int
    using that by auto
  have "- 1000 < tval_usec fin div 1000 - tval_usec start div 1000"
    "tval_usec fin div 1000 - tval_usec start div 1000 < 1000"
    using us [OF assms(1,2)] us [OF assms(3,4)] by simp_all
  then have "in_int32 (msec fin - msec start)" if "\<bar>tval_sec fin - tval_sec start\<bar> < 2147483"
    using that by (auto simp: ms in_int32_def)
  then show ?thesis by (simp add: stats_duration_def d ov ms Let_def)
qed

theorem stats_duration_bounds_witness:
  "stats_duration \<lparr>tval_sec = 5, tval_usec = 999999\<rparr> \<lparr>tval_sec = 7, tval_usec = 1000\<rparr> = Some 1002 \<and>
   stats_duration \<lparr>tval_sec = 0, tval_usec = 0\<rparr> \<lparr>tval_sec = 2147484, tval_usec = 0\<rparr> = None"
  using stats_duration_bounds [of "\<lparr>tval_sec = 5, tval_usec = 999999\<rparr>" "\<lparr>tval_sec = 7, tval_usec = 1000\<rparr>"]
    stats_duration_bounds [of "\<lparr>tval_sec = 0, tval_usec = 0\<rparr>" "\<lparr>tval_sec = 2147484, tval_usec = 0\<rparr>"]
  by (simp add: in_int32_def msec_def to_int32_def)

end
