(* ===== verification/Reader_Spec.thy ===== *)
theory Reader_Spec
  imports Reader_Life
begin

text \<open>
  What the reader promises, without its heap: a queue of buckets, of which the last is open, the
  registered clients with the bucket each holds, and the bucket to deliver next. Each request is a
  function on that state and a reply. The last section shows that the handlers of \<open>Reader\<close> implement
  it: the reply they send and the state they leave are those of the specification.
\<close>

subsection \<open>Specification\<close>

record abs_bucket =
  ab_id :: addr
  ab_recs :: "bytes list"
  ab_ready :: bool
  ab_expiry :: int \<comment> \<open>seconds\<close>

record abs_reader =
  ar_buckets :: "abs_bucket list"
  ar_clients :: "(conn_id \<times> ptr) list"
  ar_next :: ptr

datatype reply =
    Ack int
  | Batch "bytes list"
  | Silence
  | Crash

abbreviation (input) holding :: "conn_id \<Rightarrow> abs_reader \<Rightarrow> ptr option" where
  "holding c A \<equiv> map_of (ar_clients A) c"

definition hold :: "conn_id \<Rightarrow> ptr \<Rightarrow> abs_reader \<Rightarrow> abs_reader" where
  "hold c p A = A\<lparr>ar_clients := map (\<lambda>(i, q). (i, if i = c then p else q)) (ar_clients A)\<rparr>"

definition on_bucket :: "addr \<Rightarrow> (abs_bucket \<Rightarrow> abs_bucket) \<Rightarrow> abs_reader \<Rightarrow> abs_reader" where
  "on_bucket d f A = A\<lparr>ar_buckets := map (\<lambda>b. if ab_id b = d then f b else b) (ar_buckets A)\<rparr>"

definition recs_of :: "addr \<Rightarrow> abs_reader \<Rightarrow> bytes list" where
  "recs_of d A = concat (map ab_recs (filter (\<lambda>b. ab_id b = d) (ar_buckets A)))"

definition spec_start :: "conn_id \<Rightarrow> abs_reader \<Rightarrow> reply \<times> abs_reader" where
  "spec_start c A =
     (if holding c A \<noteq> None then (Ack (- EALREADY), A)
      else (Ack 0, A\<lparr>ar_clients := ar_clients A @ [(c, None)]\<rparr>))"

definition spec_fini :: "conn_id \<Rightarrow> abs_reader \<Rightarrow> reply \<times> abs_reader" where
  "spec_fini c A =
     (if holding c A = None then (Ack (- EPROTO), A)
      else (Ack 0, A\<lparr>ar_clients := filter (\<lambda>(i, q). i \<noteq> c) (ar_clients A)\<rparr>))"

text \<open>
  The bucket to give out: the first when its deadline has passed, and delivery then starts over
  from it; otherwise the one after the last that was given out.
\<close>

definition spec_pick :: "int \<Rightarrow> abs_reader \<Rightarrow> ptr \<times> abs_reader" where
  "spec_pick now A =
     (let late = ab_expiry (hd (ar_buckets A)) < now;
          p = (if late then Some (ab_id (hd (ar_buckets A))) else ar_next A);
          given = (\<lambda>b. Some (ab_id b) \<noteq> ar_next A);
          bs = (if late then map (\<lambda>b. b\<lparr>ab_ready := False\<rparr>) (takeWhile given (ar_buckets A)) @ dropWhile given (ar_buckets A)
                else ar_buckets A)
      in (p, A\<lparr>ar_buckets := bs, ar_next := Option.bind p (after_in (map ab_id (ar_buckets A)))\<rparr>))"

definition spec_open :: "addr \<Rightarrow> abs_reader \<Rightarrow> abs_reader" where
  "spec_open fresh A =
     A\<lparr>ar_buckets := ar_buckets A @ [\<lparr>ab_id = fresh, ab_recs = [], ab_ready = False, ab_expiry = 0\<rparr>]\<rparr>"

definition spec_dequeue :: "int \<Rightarrow> int \<Rightarrow> addr \<Rightarrow> conn_id \<Rightarrow> abs_reader \<Rightarrow> reply \<times> abs_reader" where
  "spec_dequeue now now' fresh c A =
     (if holding c A \<noteq> Some None then (Ack (- EPROTO), A)
      else case spec_pick now A of
             (None, A) \<Rightarrow> (Ack 1, A)
           | (Some d, A) \<Rightarrow>
               let A = (if d = ab_id (last (ar_buckets A)) then spec_open fresh A else A)
               in (Batch (recs_of d A), hold c (Some d) (on_bucket d (\<lambda>b. b\<lparr>ab_expiry := now' + 10\<rparr>) A)))"

text \<open>
  A CLEAR releases the client's bucket. When the first bucket is ready, the changelog is cleared up
  to its last record; \<open>clear\<close> is what Lustre returns for that index.
\<close>

definition last_index :: "libs \<Rightarrow> bytes list \<Rightarrow> int" where
  "last_index L rs = (if rs = [] then - 1 else sint (cr_index L (last rs)))"

definition spec_clear :: "libs \<Rightarrow> (int \<Rightarrow> int) \<Rightarrow> conn_id \<Rightarrow> abs_reader \<Rightarrow> reply \<times> abs_reader" where
  "spec_clear L clear c A =
     (case holding c A of
        None \<Rightarrow> (Ack (- EPROTO), A)
      | Some None \<Rightarrow> (Silence, A)
      | Some (Some d) \<Rightarrow>
          let A = hold c None (on_bucket d (\<lambda>b. b\<lparr>ab_ready := True\<rparr>) A);
              first = hd (ar_buckets A);
              rc = clear (last_index L (ab_recs first))
          in if \<not> ab_ready first then (Ack 0, A)
             else if rc < 0 then (Ack rc, A)
             else (Crash, A))"

definition spec_request ::
    "libs \<Rightarrow> int \<Rightarrow> int \<Rightarrow> (int \<Rightarrow> int) \<Rightarrow> addr \<Rightarrow> conn_id \<Rightarrow> lcapnet_request \<Rightarrow> abs_reader \<Rightarrow> reply \<times> abs_reader" where
  "spec_request L now now' clear fresh c req A =
     (let len = lr_body_len req
      in if len < sizeof_hdr then (Ack (- EPROTO), A)
         else case rpc_op_of (body_op (lr_body req)) of
                None \<Rightarrow> (Ack (- EINVAL), A)
              | Some RPC_OP_START \<Rightarrow> if len < sizeof_register then (Ack (- EINVAL), A) else spec_start c A
              | Some RPC_OP_DEQUEUE \<Rightarrow> spec_dequeue now now' fresh c A
              | Some RPC_OP_CLEAR \<Rightarrow> if len < sizeof_clear then (Ack (- EPROTO), A) else spec_clear L clear c A
              | Some RPC_OP_FINI \<Rightarrow> spec_fini c A
              | Some _ \<Rightarrow> (Ack (- EPROTO), A))"

definition reply_frames :: "libs \<Rightarrow> conn_id \<Rightarrow> reply \<Rightarrow> bytes list list" where
  "reply_frames L c r =
     (case r of
        Ack e \<Rightarrow> [peer_frames None c (ack_msg e)]
      | Batch rs \<Rightarrow> [peer_frames None c (enqueue_msg (int (length rs)) (record_bytes L rs))]
      | Silence \<Rightarrow> []
      | Crash \<Rightarrow> [])"

subsection \<open>Abstraction\<close>

definition abs_bkt :: "reader_env \<Rightarrow> addr \<Rightarrow> abs_bucket" where
  "abs_bkt s a =
     \<lparr>ab_id = a, ab_recs = bkt_recs (bkt_at s a), ab_ready = lrb_ready (bkt_at s a),
      ab_expiry = tv_sec (lrb_expiry (bkt_at s a))\<rparr>"

definition abs_client :: "reader_env \<Rightarrow> addr \<Rightarrow> conn_id \<times> ptr" where
  "abs_client s a = (the (ident_at s a), client_bucket s a)"

definition abs_of :: "reader_env \<Rightarrow> abs_reader" where
  "abs_of s =
     \<lparr>ar_buckets = map (abs_bkt s) (buckets_of s), ar_clients = map (abs_client s) (peers_of s),
      ar_next = re_deliver_next s\<rparr>"

lemma abs_bkt_simps [simp]:
  "ab_id (abs_bkt s a) = a" "ab_recs (abs_bkt s a) = bkt_recs (bkt_at s a)" "ab_ready (abs_bkt s a) = lrb_ready (bkt_at s a)"
  "ab_expiry (abs_bkt s a) = tv_sec (lrb_expiry (bkt_at s a))"
  by (simp_all add: abs_bkt_def)

lemma fst_abs_client [simp]: "fst (abs_client s a) = the (ident_at s a)"
  by (simp add: abs_client_def)

lemma abs_rinv:
  assumes "rinv L s bs ps"
  shows "abs_of s = \<lparr>ar_buckets = map (abs_bkt s) bs, ar_clients = map (abs_client s) ps, ar_next = re_deliver_next s\<rparr>"
  using rinv_lists [OF assms] by (simp add: abs_of_def)

lemma ids_abs [simp]: "map (ab_id \<circ> abs_bkt s) bs = bs"
  by (simp add: comp_def)

lemma abs_more:
  assumes "world.more t = world.more s"
  shows "abs_of t = abs_of s"
  using assms by (cases s; cases t)
    (simp add: abs_of_def abs_bkt_def abs_client_def ident_at_def client_bucket_def bkt_at_def buckets_of_def peers_of_def)

lemma abs_eqI:
  assumes "rinv L t bs ps" "map (abs_bkt t) bs = ar_buckets A" "map (abs_client t) ps = ar_clients A" "re_deliver_next t = ar_next A"
  shows "abs_of t = A"
  using assms by (simp add: abs_rinv)

lemma map_of_find:
  "(\<And>a. a \<in> set ps \<Longrightarrow> P a \<longleftrightarrow> fst (f a) = c) \<Longrightarrow> map_of (map f ps) c = map_option (\<lambda>a. snd (f a)) (find P ps)"
  by (induction ps) auto

lemma holding_abs:
  assumes "rinv L s bs ps"
  shows "holding c (abs_of s) = map_option (client_bucket s) (client_of s c)"
proof -
  have "ident_at s a = Some c \<longleftrightarrow> the (ident_at s a) = c" if "a \<in> set ps" for a
    using rinv_ident [OF assms that] by auto
  then show ?thesis
    by (simp add: abs_rinv [OF assms] client_of_def rinv_lists [OF assms] map_of_find [of ps "\<lambda>a. ident_at s a = Some c"])
      (simp add: abs_client_def)
qed

text \<open>Only the client at \<open>a\<close> is registered as \<open>c\<close>.\<close>

lemma client_of_iff:
  assumes inv: "rinv L s bs ps" and a: "client_of s c = Some a" and x: "x \<in> set ps"
  shows "the (ident_at s x) = c \<longleftrightarrow> x = a"
proof -
  have "a \<in> set ps" "the (ident_at s a) = c"
    using a by (auto simp: client_of_def rinv_lists [OF inv] find_Some_iff)
  then show ?thesis using inj_onD [OF idents_inj [OF inv], of x a] x by auto
qed

subsection \<open>The handlers implement the specification\<close>

text \<open>
  The reply is in the log, the state after it is abstracted by that of the specification and the
  invariant holds again. The records of a batch are those of a bucket.
\<close>

definition batch_of :: "libs \<Rightarrow> reader_env \<Rightarrow> reply \<Rightarrow> bool" where
  "batch_of L s r \<longleftrightarrow> (\<forall>rs. r = Batch rs \<longrightarrow> (\<exists>b. bucket_ok L (ccf_rec_batch_count (re_cfg s)) b \<and> rs = bkt_recs b))"

definition implements :: "libs \<Rightarrow> conn_id \<Rightarrow> reader_env \<Rightarrow> (int, reader_env) res \<Rightarrow> reply \<times> abs_reader \<Rightarrow> bool" where
  "implements L c s m r \<longleftrightarrow>
     (if fst r = Crash then \<exists>t. m = Bad Use_after_free t
      else \<exists>t. m = Ok 0 t \<and> reader_inv L t \<and> abs_of t = snd r \<and> emits s t (reply_frames L c (fst r))
             \<and> batch_of L s (fst r))"

lemma implementsD:
  assumes "implements L c s m r"
  shows "if fst r = Crash then \<exists>t. m = Bad Use_after_free t
    else \<exists>t. m = Ok 0 t \<and> reader_inv L t \<and> abs_of t = snd r \<and> emits s t (reply_frames L c (fst r))"
  using assms unfolding implements_def by (cases "fst r = Crash") auto

text \<open>A handler that returns \<open>rc\<close> with no message sent, or sends the acknowledgement itself.\<close>

lemma implements_ack:
  assumes "rinv L t bs ps" "sends_ok L" "wf_cid c" "emits s t []"
  shows "implements L c s (ack_retcode L None (Some c) e t) (Ack e, abs_of t)"
proof -
  obtain u where u: "ack_retcode L None (Some c) e t = Ok 0 u" "rinv L u bs ps" "world.more u = world.more t"
      "emits s u [peer_frames None c (ack_msg e)]"
    using ack_emits_inv [OF assms, of e] by blast
  then show ?thesis using reader_invI [OF u(2)] abs_more [OF u(3)] by (simp add: implements_def reply_frames_def batch_of_def)
qed

lemma implements_error:
  assumes "rinv L t bs ps" "sends_ok L" "wf_cid c" "emits s t []" "rc < 0 \<or> rc = 1"
  shows "implements L c s (bindR (Ok rc t) (\<lambda>rc s. if rc < 0 \<or> rc = 1 then ack_retcode L None (Some c) rc s else Ok rc s))
     (Ack rc, abs_of t)"
  using implements_ack [OF assms(1-4), of rc] assms(5) by auto

lemma implements_answered:
  assumes "implements L c s m r"
  shows "implements L c s (bindR m (\<lambda>rc s. if rc < 0 \<or> rc = 1 then ack_retcode L None (Some c) rc s else Ok rc s)) r"
  using assms by (auto simp: implements_def split: if_splits)

lemma start_implements:
  assumes inv: "rinv L s bs ps" and req: "lr_body_len req \<ge> sizeof_register" "lr_forward req = Some c" "wf_cid c"
    and ok: "sends_ok L" "allocs_ok L" "ci_length c + 8 < 2 ^ 63"
  shows "implements L c s (bindR (reader_handle_start L req s) (\<lambda>rc s.
      if rc < 0 \<or> rc = 1 then ack_retcode L None (Some c) rc s else Ok rc s)) (spec_start c (abs_of s))"
  using inv req
proof (cases rule: reader_handle_start_cases)
  case known
  then have "spec_start c (abs_of s) = (Ack (- EALREADY), abs_of s)"
    by (simp add: spec_start_def holding_abs [OF inv])
  with known show ?thesis using implements_error [OF inv ok(1) req(3) emits_refl, of "- EALREADY"] by simp
next
  case (nomem l)
  with ok show ?thesis by (simp add: start_ok_def)
next
  case (new t)
  have m: "m_bkts t = m_bkts s" "re_deliver_next t = re_deliver_next s"
    "m_clients t = (m_clients s)(m_brk s \<mapsto> \<lparr>cs_start = sint (reg_start (dec_register (lr_body req))), cs_bucket = None, cs_ident = Some c\<rparr>)"
    using new(2) by (auto simp: client_added_def)
  have "m_brk s \<notin> set ps" using inv by (auto simp: rinv_defs)
  then have "abs_of t = (abs_of s)\<lparr>ar_clients := ar_clients (abs_of s) @ [(c, None)]\<rparr>"
    by (intro abs_eqI [OF new(4)])
      (auto simp: abs_rinv [OF inv] abs_bkt_def bkt_at_def abs_client_def ident_at_def client_bucket_def m)
  then have "spec_start c (abs_of s) = (Ack 0, abs_of t)" using new(1) by (simp add: spec_start_def holding_abs [OF inv])
  then show ?thesis
    using implements_answered [OF implements_ack [OF new(4) ok(1) req(3) new(3), of 0]] new(5) by simp
qed

lemma fini_implements:
  assumes inv: "rinv L s bs ps" and req: "lr_body_len req \<ge> sizeof_fini" "lr_forward req = Some c" "wf_cid c"
    and ok: "sends_ok L"
  shows "implements L c s (bindR (reader_handle_fini L req s) (\<lambda>rc s.
      if rc < 0 \<or> rc = 1 then ack_retcode L None (Some c) rc s else Ok rc s)) (spec_fini c (abs_of s))"
proof (cases "client_of s c")
  case None
  then have "spec_fini c (abs_of s) = (Ack (- EPROTO), abs_of s)"
    by (simp add: spec_fini_def holding_abs [OF inv])
  moreover have "reader_handle_fini L req s = Ok (- EPROTO) s"
    using None req inv by (simp add: reader_handle_fini_def client_state_get_eq)
  ultimately show ?thesis using implements_error [OF inv ok req(3) emits_refl, of "- EPROTO"] by simp
next
  case (Some a)
  obtain t where t: "client_removed a s t" "rinv L t bs (remove1 a ps)"
      "reader_handle_fini L req s = ack_retcode L None (Some c) 0 t"
    using reader_handle_fini_eq [OF inv req Some] by blast
  have e: "emits s t []" by (rule emits_quiet [of _ "[]"]) (use t(1) in \<open>auto simp: client_removed_def\<close>)
  have m: "m_bkts t = m_bkts s" "re_deliver_next t = re_deliver_next s" "m_clients t = (m_clients s)(a := None)"
    using t(1) by (auto simp: client_removed_def)
  have rm: "remove1 a ps = filter (\<lambda>x. the (ident_at s x) \<noteq> c) ps"
    using client_of_iff [OF inv Some] distinct_remove1_removeAll [OF rinv_distinct [OF inv], of a]
    by (auto simp: removeAll_filter_not_eq intro: filter_cong)
  have "abs_client t x = abs_client s x" if "x \<noteq> a" for x
    using that by (simp add: abs_client_def ident_at_def client_bucket_def m)
  then have "map (abs_client t) (remove1 a ps) = filter (\<lambda>(i, q). i \<noteq> c) (map (abs_client s) ps)"
    using rinv_distinct [OF inv] unfolding rm filter_map
    by (auto simp: comp_def case_prod_beta client_of_iff [OF inv Some])
  then have "abs_of t = (abs_of s)\<lparr>ar_clients := filter (\<lambda>(i, q). i \<noteq> c) (ar_clients (abs_of s))\<rparr>"
    by (intro abs_eqI [OF t(2)]) (simp_all add: abs_rinv [OF inv] abs_bkt_def bkt_at_def m)
  then have "spec_fini c (abs_of s) = (Ack 0, abs_of t)" using Some by (simp add: spec_fini_def holding_abs [OF inv])
  then show ?thesis using implements_answered [OF implements_ack [OF t(2) ok req(3) e, of 0]] t(3) by simp
qed

lemma hold_abs:
  assumes inv: "rinv L s bs ps" and a: "client_of s c = Some a"
    and t: "rinv L t bs' ps" "re_deliver_next t = ar_next A" "map (abs_bkt t) bs' = ar_buckets A"
      "m_clients t = (m_clients s)(a \<mapsto> (the (m_clients s a))\<lparr>cs_bucket := p\<rparr>)"
    and A: "ar_clients A = map (abs_client s) ps"
  shows "abs_of t = hold c p A"
proof -
  obtain cs where cs: "m_clients s a = Some cs" "cs_ident cs = Some c" using client_of_Some [OF inv a] .
  have "map (abs_client t) ps = map (\<lambda>x. (the (ident_at s x), if the (ident_at s x) = c then p else client_bucket s x)) ps"
    using cs client_of_iff [OF inv a]
    by (auto simp: abs_client_def ident_at_def client_bucket_def t(4))
  then show ?thesis
    by (intro abs_eqI [OF t(1)]) (simp_all add: hold_def t(2,3) A abs_client_def comp_def)
qed

lemma abs_acked:
  assumes inv: "rinv L s bs ps" and a: "client_of s c = Some a" and bk: "client_bucket s a = Some bk"
    and t: "rinv L (acked a bk s) bs ps"
  shows "abs_of (acked a bk s) = hold c None (on_bucket bk (\<lambda>b. b\<lparr>ab_ready := True\<rparr>) (abs_of s))"
  by (rule hold_abs [OF inv a t])
    (simp_all add: on_bucket_def abs_rinv [OF inv] acked_def abs_bkt_def bkt_at_def bkt_recs_def)

lemma bkt_max_last: "bkt_max L b = last_index L (bkt_recs b)"
  by (simp add: bkt_max_def last_index_def)

lemma clear_implements:
  assumes inv: "rinv L s bs ps" and req: "lr_body_len req \<ge> sizeof_clear" "lr_forward req = Some c" "wf_cid c"
    and ok: "sends_ok L"
  shows "implements L c s (bindR (reader_handle_clear L req s) (\<lambda>rc s.
      if rc < 0 \<or> rc = 1 then ack_retcode L None (Some c) rc s else Ok rc s))
     (spec_clear L (lib_ll_clear L (w_log s) (reader_device s) (ccf_clreader (re_cfg s))) c (abs_of s))"
proof (cases "client_of s c")
  case None
  then have "reader_handle_clear L req s = Ok (- EPROTO) s"
    using req inv by (simp add: reader_handle_clear_def client_state_get_eq)
  with None show ?thesis using implements_error [OF inv ok req(3) emits_refl, of "- EPROTO"]
    by (simp add: spec_clear_def holding_abs [OF inv])
next
  case a: (Some a)
  obtain cs where cs: "m_clients s a = Some cs" using client_of_Some [OF inv a] .
  show ?thesis
  proof (cases "client_bucket s a")
    case None
    then have "reader_handle_clear L req s = Ok 0 s"
      using req inv a cs by (simp add: reader_handle_clear_def client_state_get_eq get_client_def client_bucket_def)
    with None a show ?thesis using reader_invI [OF inv] emits_refl
      by (simp add: spec_clear_def holding_abs [OF inv] implements_def reply_frames_def batch_of_def)
  next
    case (Some bk)
    let ?t = "acked a bk s"
    let ?clear = "lib_ll_clear L (w_log s) (reader_device s) (ccf_clreader (re_cfg s))"
    note res = reader_handle_clear_eq [OF inv req a Some]
    define rc where "rc = ?clear (last_index L (bkt_recs (bkt_at ?t (hd bs))))"
    have first: "hd (ar_buckets (abs_of ?t)) = abs_bkt ?t (hd bs)"
      using inv by (simp add: abs_rinv [OF res(2)] hd_map rinv_def ptrs_ok_def)
    have sp: "spec_clear L ?clear c (abs_of s) =
       (if \<not> lrb_ready (bkt_at ?t (hd bs)) then (Ack 0, abs_of ?t)
        else if rc < 0 then (Ack rc, abs_of ?t) else (Crash, abs_of ?t))"
      using a Some first by (simp add: spec_clear_def holding_abs [OF inv] abs_acked [OF inv a Some res(2), symmetric] rc_def Let_def)
    have call: "clear_call L ?t = rc"
      by (simp add: clear_call_def rc_def bkt_max_last rinv_lists [OF inv])
    have lg: "rinv L (clear_logged L ?t) bs ps" "abs_of (clear_logged L ?t) = abs_of ?t" "emits s (clear_logged L ?t) []"
      using res(2) abs_more [of "clear_logged L ?t" ?t]
      by (simp_all add: clear_logged_def emits_quiet [of _ "[Ev_ll_clear _ _ _ _]"] quiet_event_def)
    have "clear_result L c ?t (reader_handle_clear L req s)" by (rule res(1))
    then show ?thesis
      using implements_answered [OF implements_ack [OF res(2) ok req(3) emits_acked, of 0]]
        implements_error [OF lg(1) ok req(3) lg(3), of rc]
      unfolding sp clear_result_def call
      by (auto simp: rinv_lists [OF inv] lg(2) implements_def split: if_splits)
  qed
qed

text \<open>Choosing a bucket.\<close>

lemma pick_abs:
  assumes inv: "rinv L s bs ps"
  shows "spec_pick (tv_sec (lib_clock L (w_log s))) (abs_of s) = (next_bucket L s, abs_of (bucket_got L s))"
proof -
  have bs: "buckets_of s = bs" "bs \<noteq> []" "distinct bs"
    using inv rinv_lists [OF inv] list_rep_distinct by (auto simp: rinv_def ptrs_ok_def heap_ok_def)
  note got = rinv_bucket_got [OF inv]
  have late: "expired L s \<longleftrightarrow> ab_expiry (hd (ar_buckets (abs_of s))) < tv_sec (lib_clock L (w_log s))"
    using bs(2) by (simp add: expired_def bs(1) abs_rinv [OF inv] hd_map)
  have pick: "next_bucket L s = (if expired L s then Some (ab_id (hd (ar_buckets (abs_of s)))) else ar_next (abs_of s))"
    using bs(2) by (simp add: next_bucket_def bs(1) abs_rinv [OF inv] hd_map)
  let ?P = "\<lambda>x. Some x \<noteq> re_deliver_next s"
  have bkt: "abs_bkt (bucket_got L s) x =
      (if expired L s \<and> x \<in> set (takeWhile ?P bs) then (abs_bkt s x)\<lparr>ab_ready := False\<rparr> else abs_bkt s x)"
    if x: "x \<in> set bs" for x
  proof -
    obtain b where "m_bkts s x = Some b" using rinv_bkt [OF inv x] .
    then show ?thesis by (simp add: abs_bkt_def bkt_at_def bucket_got_def unready_def bs(1) bkt_recs_def)
  qed
  have d: "set (takeWhile ?P bs) \<inter> set (dropWhile ?P bs) = {}"
    using bs(3) takeWhile_dropWhile_id [of ?P bs] distinct_append by metis
  have split: "map f bs = map f (takeWhile ?P bs) @ map f (dropWhile ?P bs)" for f :: "addr \<Rightarrow> abs_bucket"
    by (metis map_append takeWhile_dropWhile_id)
  have eq: "map (abs_bkt (bucket_got L s)) bs =
     (if expired L s
      then map (\<lambda>b. b\<lparr>ab_ready := False\<rparr>) (takeWhile (\<lambda>b. ?P (ab_id b)) (map (abs_bkt s) bs))
         @ dropWhile (\<lambda>b. ?P (ab_id b)) (map (abs_bkt s) bs)
      else map (abs_bkt s) bs)"
  proof (cases "expired L s")
    case True
    have "x \<in> set bs" if "x \<in> set (takeWhile ?P bs) \<or> x \<in> set (dropWhile ?P bs)" for x
      using that set_takeWhileD set_dropWhileD by metis
    with True bkt d show ?thesis
      unfolding split [of "abs_bkt (bucket_got L s)"] by (auto simp: takeWhile_map dropWhile_map comp_def)
  next
    case False
    with bkt show ?thesis by simp
  qed
  have got_eq: "abs_of (bucket_got L s) = \<lparr>ar_buckets = map (abs_bkt (bucket_got L s)) bs, ar_clients = map (abs_client s) ps,
      ar_next = Option.bind (next_bucket L s) (after_in bs)\<rparr>"
    unfolding abs_rinv [OF got] by (simp add: bucket_got_def bs(1) abs_client_def ident_at_def client_bucket_def fun_eq_iff)
  have ids: "map ab_id (ar_buckets (abs_of s)) = bs" by (simp add: abs_rinv [OF inv])
  show ?thesis
    unfolding spec_pick_def Let_def late [symmetric] pick [symmetric] ids got_eq eq
    by (simp add: abs_rinv [OF inv])
qed

lemma filter_single: "distinct xs \<Longrightarrow> d \<in> set xs \<Longrightarrow> filter (\<lambda>x. x = d) xs = [d]"
  by (induction xs) (auto simp: filter_empty_conv)

lemma recs_of_abs:
  assumes "distinct bs" "d \<in> set bs" "d \<notin> ab_id ` set bs2"
  shows "recs_of d (A\<lparr>ar_buckets := map (abs_bkt s) bs @ bs2\<rparr>) = bkt_recs (bkt_at s d)"
  using assms(2,3) filter_single [OF assms(1,2)]
  by (auto simp: recs_of_def filter_map comp_def filter_empty_conv)

lemma bucket_ok_count: "bucket_ok L n b \<Longrightarrow> lrb_rec_count b = int (length (bkt_recs b))"
  by (auto simp: bucket_ok_def bkt_recs_def)

text \<open>The state in which the bucket is sent, abstracted.\<close>

lemma abs_assigned:
  assumes inv: "rinv L s bs ps" and a: "client_of s c = Some a" and d: "next_bucket L s = Some d"
    and t: "assigned L a d s t" "rinv L t bs' ps" "bs' = (if d = last bs then bs @ [m_brk s] else bs)" "m_bkts t d = Some b"
  defines "A \<equiv> if d = last bs then spec_open (m_brk s) (abs_of (bucket_got L s)) else abs_of (bucket_got L s)"
  shows "\<exists>h. abs_of (deadline_set L d b t) = hold c (Some d) (on_bucket d (\<lambda>b. b\<lparr>ab_expiry := tv_sec (lib_clock L h) + 10\<rparr>) A)"
    and "recs_of d A = bkt_recs b"
proof -
  let ?g = "bucket_got L s"
  have bs: "buckets_of s = bs" "distinct bs" "d \<in> set bs" and fresh: "m_brk s \<notin> set bs"
    using inv rinv_lists [OF inv] list_rep_distinct next_bucket_member [OF inv d] by (auto simp: rinv_def heap_ok_def)
  note g = abs_rinv [OF rinv_bucket_got [OF inv]]
  define bs2 where "bs2 = (if d = last bs then [\<lparr>ab_id = m_brk s, ab_recs = [], ab_ready = False, ab_expiry = 0\<rparr>] else [])"
  have A: "A = (abs_of ?g)\<lparr>ar_buckets := map (abs_bkt ?g) bs @ bs2\<rparr>"
    by (simp add: A_def bs2_def spec_open_def g)
  have Ac: "ar_clients A = map (abs_client s) ps"
    by (simp add: A g abs_client_def ident_at_def client_bucket_def)
  from t(1) obtain u cs where u: "if d = last bs then bucket_added ?g u else u = ?g" "m_clients s a = Some cs"
      "t = u\<lparr>m_clients := (m_clients u)(a \<mapsto> cs\<lparr>cs_bucket := Some d\<rparr>)\<rparr>"
    unfolding assigned_def bs(1) by blast
  have m: "m_clients u = m_clients s" "re_deliver_next u = re_deliver_next ?g"
    "m_bkts u = (if d = last bs then (m_bkts ?g)(m_brk s \<mapsto> fresh_bucket (re_bkt_idx ?g) (ccf_rec_batch_count (re_cfg ?g))) else m_bkts ?g)"
    using u(1) by (auto simp: bucket_added_def split: if_splits)
  have b: "m_bkts ?g d = Some b" using t(4) u(3) m(3) fresh bs(3) by (auto split: if_splits)
  have at: "bkt_at ?g d = b" using b by (simp add: bkt_at_def)
  show "recs_of d A = bkt_recs b"
  proof -
    have "d \<notin> ab_id ` set bs2" using fresh bs(3) by (auto simp: bs2_def)
    then show ?thesis using recs_of_abs [OF bs(2,3), of bs2 ?g "abs_of ?g"] at by (simp add: A)
  qed
  define h where "h = Ev_alloc (sizeof_enqueue + lrb_size b) True # w_log t"
  define e where "e = (lib_clock L h)\<lparr>tv_sec := tv_sec (lib_clock L h) + 10\<rparr>"
  have e: "m_bkts (deadline_set L d b t) = (m_bkts u)(d \<mapsto> b\<lparr>lrb_expiry := e\<rparr>)"
    "re_deliver_next (deadline_set L d b t) = re_deliver_next ?g"
    "m_clients (deadline_set L d b t) = (m_clients s)(a \<mapsto> cs\<lparr>cs_bucket := Some d\<rparr>)"
    by (simp_all add: deadline_set_def Let_def u(3) m(1,2) e_def h_def)
  have old: "abs_bkt (deadline_set L d b t) x = (if x = d then (abs_bkt ?g x)\<lparr>ab_expiry := tv_sec e\<rparr> else abs_bkt ?g x)"
    if "x \<in> set bs" for x
    using that fresh at by (auto simp: abs_bkt_def bkt_at_def e(1) m(3) bkt_recs_def)
  have new: "abs_bkt (deadline_set L d b t) (m_brk s) = \<lparr>ab_id = m_brk s, ab_recs = [], ab_ready = False, ab_expiry = 0\<rparr>"
    if "d = last bs"
  proof -
    have "m_brk s \<noteq> d" using fresh bs(3) by auto
    then show ?thesis
      unfolding abs_bkt_def bkt_at_def e(1) m(3) using that by (simp add: fresh_bucket_def bkt_recs_def)
  qed
  have "abs_of (deadline_set L d b t) = hold c (Some d) (on_bucket d (\<lambda>b. b\<lparr>ab_expiry := tv_sec e\<rparr>) A)"
  proof (rule hold_abs [OF inv a rinv_deadline_set [OF t(2,4)]])
    show "map (abs_bkt (deadline_set L d b t)) bs' = ar_buckets (on_bucket d (\<lambda>b. b\<lparr>ab_expiry := tv_sec e\<rparr>) A)"
      using old new fresh bs(3) by (auto simp: t(3) on_bucket_def A bs2_def)
  qed (use u(2) Ac in \<open>simp_all add: e on_bucket_def A g\<close>)
  then show "\<exists>h. abs_of (deadline_set L d b t) = hold c (Some d) (on_bucket d (\<lambda>b. b\<lparr>ab_expiry := tv_sec (lib_clock L h) + 10\<rparr>) A)"
    by (auto simp: e_def)
qed

lemma send_implements:
  assumes "rinv L t bs ps" "sends_ok L" "wf_cid c" "emits s t []"
    and "m = enqueue_msg (int (length rs)) (record_bytes L rs)" "batch_of L s (Batch rs)"
  shows "implements L c s (peer_rpc_send L None (Some c) m t) (Batch rs, abs_of t)"
proof -
  obtain u where u: "peer_rpc_send L None (Some c) m t = Ok 0 u" "rinv L u bs ps" "world.more u = world.more t"
      "emits s u [peer_frames None c m]"
    using send_inv [OF assms(1-4)] by blast
  then show ?thesis using reader_invI [OF u(2)] abs_more [OF u(3)] assms(5,6) by (simp add: implements_def reply_frames_def)
qed

lemma reader_handle_dequeue_refused:
  assumes inv: "rinv L s bs ps" and req: "lr_body_len req \<ge> sizeof_dequeue" "lr_forward req = Some c" "wf_cid c"
    and no: "holding c (abs_of s) \<noteq> Some None"
  shows "reader_handle_dequeue L req s = Ok (- EPROTO) s"
proof (cases "client_of s c")
  case None
  then show ?thesis using inv req by (simp add: reader_handle_dequeue_def client_state_get_eq)
next
  case (Some a)
  obtain cs where "m_clients s a = Some cs" using client_of_Some [OF inv Some] .
  with no Some inv req show ?thesis
    by (auto simp: holding_abs [OF inv] reader_handle_dequeue_def client_state_get_eq get_client_def client_bucket_def)
qed

lemma dequeue_implements:
  assumes inv: "rinv L s bs ps" and req: "lr_body_len req \<ge> sizeof_dequeue" "lr_forward req = Some c" "wf_cid c"
    and ok: "sends_ok L" "allocs_ok L" "\<forall>d \<in> set bs. lrb_size (bkt_at s d) + sizeof_enqueue < 2 ^ 63"
  shows "\<exists>h. implements L c s (bindR (reader_handle_dequeue L req s) (\<lambda>rc s.
      if rc < 0 \<or> rc = 1 then ack_retcode L None (Some c) rc s else Ok rc s))
     (spec_dequeue (tv_sec (lib_clock L (w_log s))) (tv_sec (lib_clock L h)) (m_brk s) c (abs_of s))"
proof (cases "holding c (abs_of s) = Some None")
  case False
  with reader_handle_dequeue_refused [OF inv req] show ?thesis
    using implements_error [OF inv ok(1) req(3) emits_refl, of "- EPROTO"] by (simp add: spec_dequeue_def)
next
  case True
  then obtain a where a: "client_of s c = Some a" "client_bucket s a = None" by (auto simp: holding_abs [OF inv])
  let ?g = "bucket_got L s"
  note pick = pick_abs [OF inv] and g = rinv_bucket_got [OF inv]
  show ?thesis
  proof (cases "next_bucket L s")
    case None
    then show ?thesis
      using implements_error [OF g ok(1) req(3) emits_bucket_got, of 1]
      by (simp add: spec_dequeue_def True pick reader_handle_dequeue_eq [OF inv req a])
  next
    case (Some d)
    have cfg: "cfg_ok (re_cfg s)" and ne: "bs \<noteq> []" using inv by (simp_all add: rinv_def ptrs_ok_def)
    from inv req a Some show ?thesis
    proof (cases rule: reader_handle_dequeue_cases)
      case (nomem l)
      with ok(2) bucket_alloc_size_ok [OF cfg] show ?thesis by simp
    next
      case (sent t bs')
      obtain b where b: "m_bkts t d = Some b" "bucket_ok L (ccf_rec_batch_count (re_cfg t)) b" using rinv_bkt [OF sent(3,4)] .
      obtain cs where cs: "m_clients t a = Some cs" "cs_bucket cs = Some d"
        using sent(7) by (auto simp: client_bucket_def bind_eq_Some_conv)
      have d: "d \<in> set bs" by (rule next_bucket_member [OF inv Some])
      then obtain b0 where b0: "m_bkts s d = Some b0" using rinv_bkt [OF inv] by blast
      have "map_option bkt_core (m_bkts ?g d) = map_option bkt_core (m_bkts s d)"
        using same_core_got by (simp add: same_core_def)
      with b b0 sent(6) have "bkt_core b = bkt_core b0" by simp
      then have sz: "lrb_size b = lrb_size (bkt_at s d)" using b0 by (simp add: bkt_core_eqD(3) [of b b0] bkt_at_def)
      have small: "lrb_size (bkt_at s d) + sizeof_enqueue < 2 ^ 63" using ok(3) d by blast
      have enq: "enqueue_rec L a req t = peer_rpc_send L None (Some c) (bucket_msg L b) (deadline_set L d b t)"
        using enqueue_rec_eq [OF sent(3) cs b(1), of req] ok(2) sz small req(2) by (simp add: allocs_ok_def)
      have e: "emits s (deadline_set L d b t) []" using emits_trans [OF sent(2) emits_deadline_set] by simp
      define A where "A = (if d = last bs then spec_open (m_brk s) (abs_of ?g) else abs_of ?g)"
      obtain h where h: "abs_of (deadline_set L d b t) = hold c (Some d) (on_bucket d (\<lambda>b. b\<lparr>ab_expiry := tv_sec (lib_clock L h) + 10\<rparr>) A)"
        and recs: "recs_of d A = bkt_recs b"
        using abs_assigned [OF inv a(1) Some sent(1,3,11) b(1)] unfolding A_def by blast
      have "ab_id (last (ar_buckets (abs_of ?g))) = last bs" using ne by (simp add: abs_rinv [OF g] last_map)
      then have "spec_dequeue (tv_sec (lib_clock L (w_log s))) (tv_sec (lib_clock L h)) (m_brk s) c (abs_of s) =
          (Batch (bkt_recs b), abs_of (deadline_set L d b t))"
        by (simp add: spec_dequeue_def True pick Some h recs A_def [symmetric] Let_def)
      moreover have "batch_of L s (Batch (bkt_recs b))" using b(2) sent(5) by (auto simp: batch_of_def)
      ultimately show ?thesis
        using implements_answered [OF send_implements [OF rinv_deadline_set [OF sent(3) b(1)] ok(1) req(3) e]]
        by (intro exI [of _ h]) (simp add: sent(8) enq bucket_msg_def bucket_ok_count [OF b(2)])
    qed
  qed
qed

lemma rpc_hdl_known:
  assumes "lr_body_len req \<ge> sizeof_hdr" "rpc_op_of (body_op (lr_body req)) = Some op" "lr_forward req = Some c"
  shows "changelog_reader_rpc_hdl L req s = bindR (case reader_rpc_handle op of None \<Rightarrow> Ok (- EPROTO) s | Some h \<Rightarrow> h L req s) (\<lambda>rc s.
      if rc < 0 \<or> rc = 1 then ack_retcode L None (Some c) rc s else Ok rc s)"
proof -
  have "body_op (lr_body req) \<le> RPC_OP_LAST" using assms(2) rpc_op_of_range by blast
  with assms(1,2) show ?thesis
    unfolding rpc_hdl_logged [OF op_overrun_long [OF assms(1)]] assms(3) by (simp add: reader_rpc_handle_one_def Let_def)
qed

lemma rpc_hdl_implements:
  assumes inv: "reader_inv L s" and req: "req_ok 3 req" "lr_forward req = Some c"
    and ok: "sends_ok L" "allocs_ok L" "ci_length c + 8 < 2 ^ 63"
      "\<forall>d \<in> set (buckets_of s). lrb_size (bkt_at s d) + sizeof_enqueue < 2 ^ 63"
    and logged: "\<not> op_overrun (re_cfg s) req"
  shows "\<exists>h. implements L c s (changelog_reader_rpc_hdl L req s)
     (spec_request L (tv_sec (lib_clock L (w_log s))) (tv_sec (lib_clock L h))
         (lib_ll_clear L (w_log s) (reader_device s) (ccf_clreader (re_cfg s))) (m_brk s) c req (abs_of s))"
proof -
  obtain bs ps where r: "rinv L s bs ps" and bs: "buckets_of s = bs" using reader_invE [OF inv] .
  have c: "wf_cid c" using req by (auto simp: req_ok_def)
  let ?spec = "\<lambda>h. spec_request L (tv_sec (lib_clock L (w_log s))) (tv_sec (lib_clock L h))
         (lib_ll_clear L (w_log s) (reader_device s) (ccf_clreader (re_cfg s))) (m_brk s) c req (abs_of s)"
  note err = implements_error [OF r ok(1) c emits_refl]
  note hdl = rpc_hdl_known [OF _ _ req(2), of _ L s]
  show ?thesis
  proof (cases "lr_body_len req \<ge> sizeof_hdr")
    case False
    then show ?thesis using err [of "- EPROTO"] by (simp add: rpc_hdl_logged [OF logged] req(2) spec_request_def)
  next
    case len: True
    show ?thesis
    proof (cases "rpc_op_of (body_op (lr_body req))")
      case None
      then have "body_op (lr_body req) > RPC_OP_LAST" using rpc_op_of_range by (metis not_le option.distinct(1))
      then show ?thesis using None len err [of "- EINVAL"]
        by (simp add: rpc_hdl_logged [OF logged] req(2) spec_request_def)
    next
      case (Some op)
      show ?thesis
      proof (cases op)
        case RPC_OP_START
        then show ?thesis
          using start_implements [OF r _ req(2) c ok(1-3)] err [of "- EINVAL"] len
          unfolding hdl [OF len Some] by (simp add: reader_rpc_handle_def spec_request_def Some reader_handle_start_def)
      next
        case RPC_OP_DEQUEUE
        then show ?thesis
          using dequeue_implements [OF r len req(2) c ok(1,2)] ok(4) len
          unfolding hdl [OF len Some] bs by (simp add: reader_rpc_handle_def spec_request_def Some)
      next
        case RPC_OP_CLEAR
        then show ?thesis
          using clear_implements [OF r _ req(2) c ok(1)] err [of "- EPROTO"] len
          unfolding hdl [OF len Some] by (simp add: reader_rpc_handle_def spec_request_def Some reader_handle_clear_def)
      next
        case RPC_OP_FINI
        then show ?thesis
          using fini_implements [OF r len req(2) c ok(1)] len
          unfolding hdl [OF len Some] by (simp add: reader_rpc_handle_def spec_request_def Some)
      qed (use err [of "- EPROTO"] len in \<open>simp_all add: hdl [OF len Some] reader_rpc_handle_def spec_request_def Some\<close>)
    qed
  qed
qed

text \<open>(C2) The reader implements its specification: whatever the request, when the libraries give it
  memory and take its messages, it sends the reply the specification gives and leaves the state the
  specification leaves, with its invariant. The specification reads the clock once for the deadline
  of the first bucket and once for the new deadline, gets the result of Lustre for the index it
  clears, and names a new bucket by the next free address. Where it says \<open>Crash\<close>, the reader
  reads the bucket it has freed. Requests too short for an operation code are outside of it when
  debug messages are on: the message about them reads past their end.
\<close>

theorem reader_implements_spec:
  assumes inv: "reader_inv L s" and req: "req_ok 3 req" "lr_forward req = Some c"
    and ok: "sends_ok L" "allocs_ok L" "ci_length c + 8 < 2 ^ 63"
      "\<forall>d \<in> set (buckets_of s). lrb_size (bkt_at s d) + sizeof_enqueue < 2 ^ 63"
  shows "if op_overrun (re_cfg s) req then changelog_reader_rpc_hdl L req s = Bad Out_of_bounds s
     else \<exists>h. let r = spec_request L (tv_sec (lib_clock L (w_log s))) (tv_sec (lib_clock L h))
         (lib_ll_clear L (w_log s) (reader_device s) (ccf_clreader (re_cfg s))) (m_brk s) c req (abs_of s)
       in if fst r = Crash then \<exists>t. changelog_reader_rpc_hdl L req s = Bad Use_after_free t
          else \<exists>t. changelog_reader_rpc_hdl L req s = Ok 0 t \<and> reader_inv L t \<and> abs_of t = snd r
                 \<and> emits s t (reply_frames L c (fst r))"
proof (cases "op_overrun (re_cfg s) req")
  case False
  obtain h where "implements L c s (changelog_reader_rpc_hdl L req s)
     (spec_request L (tv_sec (lib_clock L (w_log s))) (tv_sec (lib_clock L h))
         (lib_ll_clear L (w_log s) (reader_device s) (ccf_clreader (re_cfg s))) (m_brk s) c req (abs_of s))"
    using rpc_hdl_implements [OF assms False] ..
  from implementsD [OF this] show ?thesis unfolding Let_def if_not_P [OF False] by (rule exI [of _ h])
qed (simp add: rpc_hdl_overrun)

definition demo_abs :: abs_reader where
  "demo_abs = \<lparr>ar_buckets = [\<lparr>ab_id = 0, ab_recs = [demo_rec], ab_ready = False, ab_expiry = 0\<rparr>,
       \<lparr>ab_id = 2, ab_recs = [], ab_ready = False, ab_expiry = 0\<rparr>],
     ar_clients = [(cid [5], None)], ar_next = Some 0\<rparr>"

lemma demo_abs: "abs_of demo_reader = demo_abs"
  unfolding abs_of_def demo_reader_lists
  by (simp add: demo_abs_def abs_bkt_def abs_client_def bkt_at_def ident_at_def client_bucket_def bkt_recs_def)
    (simp add: demo_reader_def fresh_bucket_def)

lemma demo_spec_dequeue:
  "spec_request demo_libs now now' clear fresh (cid [5]) (demo_req [5] demo_dequeue_body) demo_abs =
     (Batch [demo_rec], demo_abs\<lparr>ar_clients := [(cid [5], Some 0)], ar_next := Some 2,
        ar_buckets := [\<lparr>ab_id = 0, ab_recs = [demo_rec], ab_ready = False, ab_expiry = now' + 10\<rparr>,
          \<lparr>ab_id = 2, ab_recs = [], ab_ready = False, ab_expiry = 0\<rparr>]\<rparr>)"
  using demo_dequeue_facts
  by (simp add: spec_request_def demo_req_def spec_dequeue_def spec_pick_def demo_abs_def after_in_def recs_of_def hold_def
      on_bucket_def Let_def)

theorem reader_implements_spec_witness:
  "\<exists>t. changelog_reader_rpc_hdl demo_libs (demo_req [5] demo_dequeue_body) demo_reader = Ok 0 t
     \<and> ar_clients (abs_of t) = [(cid [5], Some 0)] \<and> ar_next (abs_of t) = Some 2
     \<and> emits demo_reader t [peer_frames None (cid [5]) (enqueue_msg 1 (record_bytes demo_libs [demo_rec]))]"
proof -
  have fwd: "lr_forward (demo_req [5] demo_dequeue_body) = Some (cid [5])" by (simp add: demo_req_def)
  have sz: "\<forall>d \<in> set (buckets_of demo_reader). lrb_size (bkt_at demo_reader d) + sizeof_enqueue < 2 ^ 63"
    unfolding demo_reader_lists by (simp add: bkt_at_def demo_reader_def fresh_bucket_def)
  show ?thesis
    using reader_implements_spec [OF reader_invI [OF demo_reader_ok] demo_req_ok fwd _ _ _ sz] demo_dequeue_facts
    unfolding demo_abs by (auto simp: demo_no_overrun demo_spec_dequeue Let_def reply_frames_def)
qed

end
