(* ===== verification/Client.thy ===== *)
theory Client
  imports Rpc_Utils
begin

text \<open>
  The client library: \<^verbatim>\<open>src/client/px_client.c\<close> (records through the daemon),
  \<^verbatim>\<open>src/client/lu_client.c\<close> (records from Lustre directly), \<^verbatim>\<open>src/client/client.c\<close> and the
  dispatching functions of \<^verbatim>\<open>src/include/lcap_client.h\<close>, each operation with all its branches.

  One client context is the state. Receive buffers are heap objects (\<open>m_bufs\<close>, freed ones are
  removed); a record handed to the application is the address of its buffer and an offset. A
  buffer holds the bytes received; the rest of the 8 MB allocated is uninitialised, and reading it
  is the fault \<open>Uninit_read\<close>. The array \<^verbatim>\<open>records\<close> is NULL or a list as long as its allocation,
  whose elements are \<open>None\<close> until written.
\<close>

subsection \<open>Structures\<close>

abbreviation (input) LCAP_CL_FOLLOW :: nat where "LCAP_CL_FOLLOW \<equiv> 1"
abbreviation (input) LCAP_CL_BLOCK :: nat where "LCAP_CL_BLOCK \<equiv> 2"
abbreviation (input) LCAP_CL_DIRECT :: nat where "LCAP_CL_DIRECT \<equiv> 4"
abbreviation (input) LCAP_CL_JOBID :: nat where "LCAP_CL_JOBID \<equiv> 8"

abbreviation (input) DEFAULT_CACHE_SIZE :: nat where "DEFAULT_CACHE_SIZE \<equiv> 256"
abbreviation (input) RECV_BUFFER_LENGTH :: nat where "RECV_BUFFER_LENGTH \<equiv> 8 * 1024 * 1024"
abbreviation (input) sizeof_pzd :: nat where "sizeof_pzd \<equiv> 184"
abbreviation (input) ENOTSOCK :: int where "ENOTSOCK \<equiv> 88"
abbreviation (input) sizeof_cl_ctx :: nat where "sizeof_cl_ctx \<equiv> 16"

text \<open>A record: a place in a receive buffer, or (direct mode) the bytes Lustre returned.\<close>

datatype rec_ref = In_buf addr nat | Direct bytes

record px_zmq_data =
  zmq_ctx :: bool \<comment> \<open>not NULL\<close>
  zmq_srv :: bool \<comment> \<open>not NULL\<close>
  rec_buff :: ptr
  px_records :: "rec_ref option list option"
  rec_nxt :: int
  rec_cnt :: int
  rec_mdt_len :: nat
  rec_mdt :: bytes

definition pzd_zero :: px_zmq_data where
  "pzd_zero = \<lparr>zmq_ctx = False, zmq_srv = False, rec_buff = None, px_records = None, rec_nxt = 0,
     rec_cnt = 0, rec_mdt_len = 0, rec_mdt = []\<rparr>"

datatype lcap_cl_operations = cl_ops_null | cl_ops_proxy

record lcap_cl_ctx = world +
  cl_live :: bool \<comment> \<open>the context is allocated\<close>
  ccc_ops :: "lcap_cl_operations option"
  ccc_ptr :: "px_zmq_data option" \<comment> \<open>of the proxy\<close>
  ccc_ll :: bool \<comment> \<open>of direct mode: the private data of the Lustre API\<close>
  m_bufs :: "addr \<rightharpoonup> bytes"
  m_buf_brk :: addr
  cl_changelog :: "(int + bytes) list" \<comment> \<open>what \<^verbatim>\<open>llapi_changelog_recv\<close> will return\<close>

type_synonym 'a cl_op = "lcap_cl_ctx \<Rightarrow> ('a, lcap_cl_ctx) res"

subsection \<open>The proxy's private data\<close>

definition free_buf :: "ptr \<Rightarrow> lcap_cl_ctx \<Rightarrow> lcap_cl_ctx" where
  "free_buf p s = (case p of None \<Rightarrow> s | Some a \<Rightarrow> s\<lparr>m_bufs := (m_bufs s)(a := None)\<rparr>)"

definition pzd_destroy :: "px_zmq_data \<Rightarrow> lcap_cl_ctx \<Rightarrow> px_zmq_data \<times> lcap_cl_ctx" where
  "pzd_destroy pzd s =
     (let s = (if zmq_srv pzd then s\<lparr>w_log := Ev_zmq_close # w_log s\<rparr> else s);
          s = (if zmq_ctx pzd then s\<lparr>w_log := Ev_zmq_term # w_log s\<rparr> else s);
          s = free_buf (rec_buff pzd) s
      in (pzd_zero, s))"

text \<open>\<^verbatim>\<open>realloc\<close> keeps the elements that fit and leaves the new ones uninitialised.\<close>

definition resize :: "nat \<Rightarrow> 'b option list \<Rightarrow> 'b option list" where
  "resize n xs = take n xs @ replicate (n - length xs) None"

definition pzd_cache_grow :: "libs \<Rightarrow> px_zmq_data \<Rightarrow> nat \<Rightarrow> lcap_cl_ctx \<Rightarrow> (int \<times> px_zmq_data) \<times> lcap_cl_ctx" where
  "pzd_cache_grow L pzd newsize s =
     (case alloc L (newsize * 8) s of
        (ok, s) \<Rightarrow>
          (if ok then (0, pzd\<lparr>px_records := Some (resize newsize
                            (case px_records pzd of None \<Rightarrow> [] | Some rs \<Rightarrow> rs))\<rparr>)
           else (- ENOMEM, pzd\<lparr>px_records := None\<rparr>), s))"

text \<open>
  The length test lets a name of exactly 128 characters through, whose NUL \<^verbatim>\<open>strcpy\<close> writes after
  the array. \<open>Inr\<close> is a context that was set up, \<open>Inl\<close> the error after which it was destroyed.
\<close>

definition pzd_init :: "libs \<Rightarrow> bytes option \<Rightarrow> (int + px_zmq_data) cl_op" where
  "pzd_init L mdtname s =
     (let e = lib_ctx_new L (w_log s);
          s = s\<lparr>w_log := Ev_zmq_ctx (e = 0) # w_log s\<rparr>;
          pzd = pzd_zero\<lparr>zmq_ctx := (e = 0)\<rparr>
      in if e \<noteq> 0 then Ok (Inl (- int e)) (snd (pzd_destroy pzd s))
         else let e = lib_socket L (w_log s);
                  s = s\<lparr>w_log := Ev_zmq_socket (e = 0) # w_log s\<rparr>;
                  pzd = pzd\<lparr>zmq_srv := (e = 0)\<rparr>
              in if e \<noteq> 0 then Ok (Inl (- int e)) (snd (pzd_destroy pzd s))
                 else case mdtname of
                        None \<Rightarrow> Bad Null_deref s
                      | Some name \<Rightarrow>
                          if length name > 128 then Ok (Inl (- EINVAL)) (snd (pzd_destroy pzd s))
                          else if length name + 1 > 128 then Bad Out_of_bounds s
                          else case pzd_cache_grow L (pzd\<lparr>rec_mdt_len := length name, rec_mdt := name\<rparr>)
                                      DEFAULT_CACHE_SIZE s of
                                 ((rc, pzd), s) \<Rightarrow>
                                   if rc \<noteq> 0 then Ok (Inl rc) (snd (pzd_destroy pzd s))
                                   else Ok (Inr pzd) s)"

subsection \<open>Messages\<close>

definition cl_start_pack :: "nat \<Rightarrow> bytes \<Rightarrow> 64 word \<Rightarrow> px_rpc_register" where
  "cl_start_pack flags mdtname startrec =
     \<lparr>reg_hdr = mk_hdr RPC_OP_START, reg_flags = of_nat flags, reg_padding = 0, reg_start = startrec,
      reg_mdtname = take 128 (mdtname @ replicate 128 0)\<rparr>"

definition cl_dequeue_pack :: px_rpc_dequeue where
  "cl_dequeue_pack = \<lparr>deq_hdr = mk_hdr RPC_OP_DEQUEUE\<rparr>"

definition cl_clear_pack :: "bytes \<Rightarrow> bytes \<Rightarrow> 64 word \<Rightarrow> px_rpc_clear" where
  "cl_clear_pack mdtname idn endrec =
     \<lparr>clr_hdr = mk_hdr RPC_OP_CLEAR, clr_index = endrec,
      clr_id_len = of_nat (length idn + length mdtname + 2),
      clr_id = idn @ [0] @ mdtname @ [0]\<rparr>"

text \<open>A socket that \<^verbatim>\<open>pzd_destroy\<close> cleared is NULL, on which \<^verbatim>\<open>zmq_send\<close> fails with ENOTSOCK.\<close>

definition px_rpc_send :: "libs \<Rightarrow> px_zmq_data \<Rightarrow> bytes \<Rightarrow> lcap_cl_ctx \<Rightarrow> int \<times> lcap_cl_ctx" where
  "px_rpc_send L pzd rpc s =
     (if \<not> zmq_srv pzd then (- ENOTSOCK, s\<lparr>w_errno := nat ENOTSOCK\<rparr>)
      else send_frames L [(take (rec_mdt_len pzd) (rec_mdt pzd), True), (rpc, False)] s)"

text \<open>
  Receiving a reply into a buffer of \<open>bufflen\<close> bytes: the return code (the number of bytes
  received or a negated errno) and the bytes written. \<^verbatim>\<open>zmq_recv\<close> returns the length of the
  frame also when it was cut to the buffer.
\<close>

lemma recv_one_in:
  "zmq_msg_recv L 0 s = Ok r s' \<Longrightarrow> length (w_in s') < length (w_in s)"
  by (auto simp: zmq_msg_recv_def split: list.splits in_event.splits if_splits)

function cl_rep_recv :: "libs \<Rightarrow> nat \<Rightarrow> bytes \<Rightarrow> (int \<times> bytes) cl_op" where
  "cl_rep_recv L bufflen acc s =
     bindR (zmq_msg_recv L 0 s) (\<lambda>r s.
       case r of
         Inl e \<Rightarrow> Ok (- int (w_errno s), acc) s
       | Inr (frm, mo) \<Rightarrow>
           if length frm > bufflen - length acc
           then Ok (- EOVERFLOW, acc @ take (bufflen - length acc) frm) s
           else let e = lib_getsockopt L (w_log s);
                    s' = s\<lparr>w_log := Ev_zmq_getsockopt e # w_log s\<rparr>
                in if e \<noteq> 0 then Ok (- int e, acc @ frm) (s'\<lparr>w_errno := e\<rparr>)
                   else if mo then cl_rep_recv L bufflen (acc @ frm) s'
                   else Ok (int (length (acc @ frm)), acc @ frm) s')"
  by pat_completeness auto
termination
  by (relation "measure (\<lambda>(L, bufflen, acc, s). length (w_in s))") (auto dest!: recv_one_in)

declare cl_rep_recv.simps [simp del]

definition cl_ack_retcode :: "libs \<Rightarrow> int cl_op" where
  "cl_ack_retcode L s =
     bindR (cl_rep_recv L sizeof_ack [] s) (\<lambda>(rc, b) s.
       if rc < 0 then Ok rc s
       else if rc < int sizeof_ack then Ok (- EINVAL) s
       else Ok (sint (ack_pr_retcode (dec_ack b))) s)"

subsection \<open>The operations of the proxy\<close>

text \<open>
  A refused registration (\<^verbatim>\<open>pr_retcode\<close> not 0) leaves by the early return: nothing is destroyed.
  Only one frame of the reply is read, into the 12 bytes of \<open>ack\<close>.
\<close>

definition px_start_failed :: "int \<Rightarrow> px_zmq_data \<Rightarrow> int cl_op" where
  "px_start_failed rc pzd s = Ok rc ((snd (pzd_destroy pzd s))\<lparr>ccc_ptr := None\<rparr>)"

definition px_changelog_start :: "libs \<Rightarrow> nat \<Rightarrow> bytes option \<Rightarrow> 64 word \<Rightarrow> int cl_op" where
  "px_changelog_start L flags mdtname startrec s =
     (case alloc L sizeof_pzd s of
        (ok, s) \<Rightarrow>
          if \<not> ok then Ok (- ENOMEM) (s\<lparr>ccc_ptr := None\<rparr>)
          else bindR (pzd_init L mdtname s) (\<lambda>r s.
            case r of
              Inl rc \<Rightarrow> Ok rc (s\<lparr>ccc_ptr := None\<rparr>)
            | Inr pzd \<Rightarrow>
                let s = s\<lparr>ccc_ptr := Some pzd\<rparr>;
                    e = lib_connect L (w_log s);
                    s = s\<lparr>w_log := Ev_zmq_connect e # w_log s\<rparr>
                in if e \<noteq> 0 then px_start_failed (- int e) pzd s
                   else case px_rpc_send L pzd (enc_register (cl_start_pack flags (the mdtname) startrec)) s of
                          (rc, s) \<Rightarrow>
                            if rc < 0 then px_start_failed rc pzd s
                            else bindR (zmq_msg_recv L 0 s) (\<lambda>r s.
                              case r of
                                Inl _ \<Rightarrow> px_start_failed (- int (w_errno s)) pzd s
                              | Inr (frm, mo) \<Rightarrow>
                                  if length frm < sizeof_ack then px_start_failed (- EINVAL) pzd s
                                  else Ok (sint (ack_pr_retcode (dec_ack (take sizeof_ack frm)))) s)))"

text \<open>The private data: its field of the context, NULL dereferenced when it is not set.\<close>

definition get_pzd :: "px_zmq_data cl_op" where
  "get_pzd s = (case ccc_ptr s of None \<Rightarrow> Bad Null_deref s | Some pzd \<Rightarrow> Ok pzd s)"

definition set_pzd :: "px_zmq_data \<Rightarrow> lcap_cl_ctx \<Rightarrow> lcap_cl_ctx" where
  "set_pzd pzd s = s\<lparr>ccc_ptr := Some pzd\<rparr>"

definition px_changelog_fini :: "libs \<Rightarrow> int cl_op" where
  "px_changelog_fini L s =
     bindR (get_pzd s) (\<lambda>pzd s.
     case px_rpc_send L pzd (enc_fini \<lparr>fin_hdr = mk_hdr RPC_OP_FINI\<rparr>) s of
       (rc, s) \<Rightarrow>
         if rc < 0 then Ok rc s
         else bindR (cl_ack_retcode L s) (\<lambda>rc s.
              if rc < 0 then Ok rc s
              else case pzd_destroy pzd s of (pzd, s) \<Rightarrow> Ok rc (set_pzd pzd s)))"

text \<open>
  The record after the one at \<open>off\<close>. Its accessors read the fixed part of the record, which
  may lie after the bytes received or after the buffer.
\<close>

definition changelog_rec_next :: "libs \<Rightarrow> bytes \<Rightarrow> nat \<Rightarrow> fault + nat" where
  "changelog_rec_next L buf off =
     (if off + sizeof_changelog_rec L > RECV_BUFFER_LENGTH then Inl Out_of_bounds
      else if off + sizeof_changelog_rec L > length buf then Inl Uninit_read
      else Inr (off + changelog_rec_name L (drop off buf) + unat (cr_namelen L (drop off buf))))"

text \<open>The loop over the \<open>n\<close> records not yet stored; its counter is a signed int.\<close>

fun fill_records ::
    "libs \<Rightarrow> addr \<Rightarrow> bytes \<Rightarrow> nat \<Rightarrow> nat \<Rightarrow> nat \<Rightarrow> rec_ref option list option \<Rightarrow>
      fault + rec_ref option list option" where
  "fill_records L a buf 0 i off rs = Inr rs"
| "fill_records L a buf (Suc n) i off None = Inl Null_deref"
| "fill_records L a buf (Suc n) i off (Some rs) =
     (if i \<ge> length rs then Inl Out_of_bounds
      else case changelog_rec_next L buf off of
             Inl f \<Rightarrow> Inl f
           | Inr off' \<Rightarrow>
               if i + 1 \<ge> 2 ^ 31 then Inl Signed_overflow
               else fill_records L a buf n (i + 1) off' (Some (rs[i := Some (In_buf a off)])))"

text \<open>What becomes of the message in the buffer: the switch on its operation code.\<close>

definition px_dequeue_reply ::
    "libs \<Rightarrow> addr \<Rightarrow> bytes \<Rightarrow> px_zmq_data \<Rightarrow> (int \<times> px_zmq_data) cl_op" where
  "px_dequeue_reply L a buf pzd s =
     (let rcvd = length buf
      in if rcvd < sizeof_hdr then Ok (- EINVAL, pzd) s
         else case rpc_op_of (body_op buf) of
                Some RPC_OP_ACK \<Rightarrow>
                  if rcvd < sizeof_ack then Ok (- EINVAL, pzd) s
                  else Ok (sint (ack_pr_retcode (dec_ack buf)), pzd) s
              | Some RPC_OP_ENQUEUE \<Rightarrow>
                  if rcvd < sizeof_enqueue + sizeof_changelog_rec L then Ok (- EINVAL, pzd) s
                  else let count = unat (enq_count (dec_enqueue buf))
                       in case (if int count > rec_cnt pzd then pzd_cache_grow L pzd count s
                                else ((0, pzd), s)) of
                            ((rc, pzd), s) \<Rightarrow>
                              if rc < 0 then Ok (rc, pzd) s
                              else case fill_records L a buf count 0 sizeof_enqueue (px_records pzd) of
                                     Inl f \<Rightarrow> Bad f s
                                   | Inr rs \<Rightarrow>
                                       Ok (0, pzd\<lparr>px_records := rs, rec_nxt := 0,
                                                  rec_cnt := int count, rec_buff := Some a\<rparr>) s
              | _ \<Rightarrow> Ok (- EPROTO, pzd) s)"

definition px_dequeue_records :: "libs \<Rightarrow> int cl_op" where
  "px_dequeue_records L s =
     bindR (get_pzd s) (\<lambda>pzd s.
     case px_rpc_send L pzd (enc_dequeue cl_dequeue_pack) s of
       (rc, s) \<Rightarrow>
         if rc < 0 then Ok rc s
         else case alloc L RECV_BUFFER_LENGTH s of
                (ok, s) \<Rightarrow>
                  if \<not> ok then Ok (- ENOMEM) s
                  else let a = m_buf_brk s
                       in bindR (cl_rep_recv L RECV_BUFFER_LENGTH []
                                  (s\<lparr>m_bufs := (m_bufs s)(a \<mapsto> []), m_buf_brk := a + 1\<rparr>)) (\<lambda>(rc, buf) s.
                          if rc < 0 then Ok rc (free_buf (Some a) s)
                          else bindR (px_dequeue_reply L a (take (nat rc) buf) pzd
                                        (s\<lparr>m_bufs := (m_bufs s)(a \<mapsto> take (nat rc) buf)\<rparr>)) (\<lambda>(rc, pzd) s.
                               Ok rc (set_pzd pzd (if rc \<noteq> 0 then free_buf (Some a) s else s)))))"

text \<open>Reading the array of records: NULL, outside of it, or an element never written.\<close>

definition px_record_at :: "px_zmq_data \<Rightarrow> fault + rec_ref" where
  "px_record_at pzd =
     (case px_records pzd of
        None \<Rightarrow> Inl Null_deref
      | Some rs \<Rightarrow>
          if rec_nxt pzd < 0 \<or> rec_nxt pzd \<ge> int (length rs) then Inl Out_of_bounds
          else case rs ! nat (rec_nxt pzd) of None \<Rightarrow> Inl Uninit_read | Some r \<Rightarrow> Inr r)"

definition px_changelog_recv :: "libs \<Rightarrow> (int \<times> rec_ref option) cl_op" where
  "px_changelog_recv L s =
     bindR (get_pzd s) (\<lambda>pzd s.
     bindR (if rec_nxt pzd = rec_cnt pzd then px_dequeue_records L s else Ok 0 s) (\<lambda>rc s.
     if rc \<noteq> 0 then Ok (rc, None) s
     else bindR (get_pzd s) (\<lambda>pzd s.
          case px_record_at pzd of
            Inl f \<Rightarrow> Bad f s
          | Inr r \<Rightarrow> Ok (0, Some r) (set_pzd (pzd\<lparr>rec_nxt := rec_nxt pzd + 1\<rparr>) s))))"

definition px_changelog_free :: "(int \<times> rec_ref option) cl_op" where
  "px_changelog_free s =
     bindR (get_pzd s) (\<lambda>pzd s.
     Ok (0, None)
       (if rec_nxt pzd = rec_cnt pzd
        then set_pzd (pzd\<lparr>rec_buff := None\<rparr>) (free_buf (rec_buff pzd) s) else s))"

definition px_changelog_clear :: "libs \<Rightarrow> bytes \<Rightarrow> bytes \<Rightarrow> 64 word \<Rightarrow> int cl_op" where
  "px_changelog_clear L mdtname idn endrec s =
     bindR (get_pzd s) (\<lambda>pzd s.
     if rec_nxt pzd < rec_cnt pzd then Ok 0 s
     else case alloc L (sizeof_clear + length idn + length mdtname + 2) s of
            (ok, s) \<Rightarrow>
              if \<not> ok then Ok (- ENOMEM) s
              else case px_rpc_send L pzd (enc_clear (cl_clear_pack mdtname idn endrec)) s of
                     (rc, s) \<Rightarrow> if rc < 0 then Ok rc s else cl_ack_retcode L s)"

subsection \<open>The operations of direct mode\<close>

definition flags_translate :: "libs \<Rightarrow> nat \<Rightarrow> nat" where
  "flags_translate L lcap_flags =
     (let lu_flags = 0;
          lu_flags = (if lcap_flags AND LCAP_CL_FOLLOW \<noteq> 0
                      then lu_flags OR CHANGELOG_FLAG_FOLLOW L else lu_flags);
          lu_flags = (if lcap_flags AND LCAP_CL_BLOCK \<noteq> 0
                      then lu_flags OR CHANGELOG_FLAG_BLOCK L else lu_flags)
      in if lcap_flags AND LCAP_CL_JOBID \<noteq> 0 then lu_flags OR CHANGELOG_FLAG_JOBID L else lu_flags)"

definition lu_changelog_start :: "libs \<Rightarrow> nat \<Rightarrow> bytes option \<Rightarrow> 64 word \<Rightarrow> int cl_op" where
  "lu_changelog_start L flags mdtname startrec s =
     (let lu_flags = flags_translate L flags;
          rc = lib_ll_start L (w_log s) lu_flags mdtname startrec
      in Ok rc (s\<lparr>w_log := Ev_ll_start lu_flags mdtname startrec rc # w_log s, ccc_ll := (rc = 0)\<rparr>))"

definition lu_changelog_fini :: "libs \<Rightarrow> int cl_op" where
  "lu_changelog_fini L s =
     Ok (lib_ll_fini L (w_log s)) (s\<lparr>w_log := Ev_ll_fini # w_log s, ccc_ll := False\<rparr>)"

text \<open>\<^verbatim>\<open>llapi_changelog_recv\<close> returns 1 at the end of the changelog.\<close>

definition lu_changelog_recv :: "(int \<times> rec_ref option) cl_op" where
  "lu_changelog_recv s =
     (case cl_changelog s of
        [] \<Rightarrow> Ok (1, None) (s\<lparr>w_log := Ev_ll_recv (Inl 1) # w_log s\<rparr>)
      | Inl rc # xs \<Rightarrow> Ok (rc, None) (s\<lparr>w_log := Ev_ll_recv (Inl rc) # w_log s, cl_changelog := xs\<rparr>)
      | Inr r # xs \<Rightarrow>
          Ok (0, Some (Direct r)) (s\<lparr>w_log := Ev_ll_recv (Inr r) # w_log s, cl_changelog := xs\<rparr>))"

definition lu_changelog_free :: "libs \<Rightarrow> rec_ref option \<Rightarrow> (int \<times> rec_ref option) cl_op" where
  "lu_changelog_free L r s =
     Ok (lib_ll_free L (w_log s), None)
       (s\<lparr>w_log := Ev_ll_free (case r of Some (Direct b) \<Rightarrow> Some b | _ \<Rightarrow> None) # w_log s\<rparr>)"

definition lu_changelog_clear :: "libs \<Rightarrow> bytes \<Rightarrow> bytes \<Rightarrow> 64 word \<Rightarrow> int cl_op" where
  "lu_changelog_clear L mdtname idn endrec s =
     (let rc = lib_ll_clear L (w_log s) (Some mdtname) (Some idn) (sint endrec)
      in Ok rc (s\<lparr>w_log := Ev_ll_clear (Some mdtname) (Some idn) (sint endrec) rc # w_log s\<rparr>))"

subsection \<open>The public functions\<close>

text \<open>Each dispatches to the vector of the context; all vectors have all five operations.\<close>

definition lcap_changelog_start :: "libs \<Rightarrow> nat \<Rightarrow> bytes option \<Rightarrow> 64 word \<Rightarrow> int cl_op" where
  "lcap_changelog_start L flags mdtname startrec s =
     (case alloc L sizeof_cl_ctx s of
        (ok, s) \<Rightarrow>
          if \<not> ok then Ok (- ENOMEM) s
          else let s = s\<lparr>cl_live := True, ccc_ptr := None, ccc_ll := False\<rparr>
               in bindR (if flags AND LCAP_CL_DIRECT \<noteq> 0
                         then lu_changelog_start L flags mdtname startrec (s\<lparr>ccc_ops := Some cl_ops_null\<rparr>)
                         else px_changelog_start L flags mdtname startrec (s\<lparr>ccc_ops := Some cl_ops_proxy\<rparr>))
                    (\<lambda>rc s. Ok rc (if rc < 0 then s\<lparr>cl_live := False\<rparr> else s)))"

definition with_ops :: "(lcap_cl_operations \<Rightarrow> 'a cl_op) \<Rightarrow> 'a cl_op" where
  "with_ops f s =
     (if \<not> cl_live s then Bad Assert_fail s
      else case ccc_ops s of None \<Rightarrow> Bad Assert_fail s | Some ops \<Rightarrow> f ops s)"

definition lcap_changelog_fini :: "libs \<Rightarrow> int cl_op" where
  "lcap_changelog_fini L =
     with_ops (\<lambda>ops. case ops of
       cl_ops_null \<Rightarrow> lu_changelog_fini L | cl_ops_proxy \<Rightarrow> px_changelog_fini L)"

definition lcap_changelog_recv :: "libs \<Rightarrow> (int \<times> rec_ref option) cl_op" where
  "lcap_changelog_recv L =
     with_ops (\<lambda>ops. case ops of
       cl_ops_null \<Rightarrow> lu_changelog_recv | cl_ops_proxy \<Rightarrow> px_changelog_recv L)"

definition lcap_changelog_free :: "libs \<Rightarrow> rec_ref option \<Rightarrow> (int \<times> rec_ref option) cl_op" where
  "lcap_changelog_free L r =
     with_ops (\<lambda>ops. case ops of
       cl_ops_null \<Rightarrow> lu_changelog_free L r | cl_ops_proxy \<Rightarrow> px_changelog_free)"

definition lcap_changelog_clear :: "libs \<Rightarrow> bytes \<Rightarrow> bytes \<Rightarrow> 64 word \<Rightarrow> int cl_op" where
  "lcap_changelog_clear L mdtname idn endrec =
     with_ops (\<lambda>ops. case ops of
       cl_ops_null \<Rightarrow> lu_changelog_clear L mdtname idn endrec
     | cl_ops_proxy \<Rightarrow> px_changelog_clear L mdtname idn endrec)"

end
