(* ===== verification/Client_Inv.thy ===== *)
theory Client_Inv
  imports Client
begin

text \<open>
  Facts about the client library that its properties share: walking over the records of an
  ENQUEUE message, the invariant of a proxy context and what its operations keep of it, and the
  contract of a source of records, which both the proxy and direct mode fulfil.
\<close>

subsection \<open>Records on the wire\<close>

text \<open>
  What the accessors of Lustre's header rely on: they read the fixed part of a record, and its
  name starts after it. A record on the wire ends with its name.
\<close>

definition rec_layout :: "libs \<Rightarrow> bool" where
  "rec_layout L \<longleftrightarrow> (\<forall>r. sizeof_changelog_rec L \<le> length r \<longrightarrow>
     changelog_rec_name L r = changelog_rec_name L (take (sizeof_changelog_rec L) r) \<and>
     cr_namelen L r = cr_namelen L (take (sizeof_changelog_rec L) r) \<and>
     changelog_rec_size L r = changelog_rec_name L r \<and>
     sizeof_changelog_rec L \<le> changelog_rec_name L r)"

definition wire_len :: "libs \<Rightarrow> bytes \<Rightarrow> nat" where
  "wire_len L r = changelog_rec_name L r + unat (cr_namelen L r)"

definition wire_rec :: "libs \<Rightarrow> bytes \<Rightarrow> bool" where
  "wire_rec L r \<longleftrightarrow> sizeof_changelog_rec L \<le> length r \<and> length r = wire_len L r"

lemma wire_len_append:
  assumes "rec_layout L" "sizeof_changelog_rec L \<le> length r"
  shows "wire_len L (r @ x) = wire_len L r"
proof -
  have "sizeof_changelog_rec L \<le> length (r @ x)" using assms(2) by simp
  with assms show ?thesis unfolding rec_layout_def wire_len_def by (metis take_append append_Nil2 diff_is_0_eq take_0)
qed

primrec rec_offs :: "nat \<Rightarrow> bytes list \<Rightarrow> nat list" where
  "rec_offs off [] = []"
| "rec_offs off (r # rs) = off # rec_offs (off + length r) rs"

lemma length_rec_offs [simp]: "length (rec_offs off rs) = length rs"
  by (induction rs arbitrary: off) simp_all

lemma rec_next_wire:
  assumes "rec_layout L" "wire_rec L r" "length (pre @ r @ post) \<le> RECV_BUFFER_LENGTH"
  shows "changelog_rec_next L (pre @ r @ post) (length pre) = Inr (length pre + length r)"
  using assms wire_len_append [OF assms(1), of r post]
  by (auto simp: changelog_rec_next_def wire_rec_def wire_len_def)

lemma fill_records_wire:
  assumes "rec_layout L" "\<forall>r \<in> set rs. wire_rec L r"
    "length (pre @ concat rs) \<le> RECV_BUFFER_LENGTH" "i + length rs \<le> length cells"
    "i + length rs < 2 ^ 31"
  shows "fill_records L a (pre @ concat rs) (length rs) i (length pre) (Some cells) =
    Inr (Some (take i cells @ map (Some \<circ> In_buf a) (rec_offs (length pre) rs) @ drop (i + length rs) cells))"
  using assms
proof (induction rs arbitrary: pre i cells)
  case (Cons r rs)
  let ?cells = "cells[i := Some (In_buf a (length pre))]"
  have "changelog_rec_next L (pre @ r @ concat rs) (length pre) = Inr (length pre + length r)"
    using Cons.prems by (intro rec_next_wire) simp_all
  moreover have "fill_records L a ((pre @ r) @ concat rs) (length rs) (Suc i) (length (pre @ r)) (Some ?cells) =
      Inr (Some (take (Suc i) ?cells @ map (Some \<circ> In_buf a) (rec_offs (length (pre @ r)) rs) @
        drop (Suc i + length rs) ?cells))"
    by (rule Cons.IH) (use Cons.prems in simp_all)
  moreover have "take (Suc i) ?cells = take i cells @ [Some (In_buf a (length pre))]"
    using Cons.prems by (simp add: take_Suc_conv_app_nth)
  ultimately show ?case using Cons.prems by simp
qed simp

lemma rec_offs_nth:
  "i < length rs \<Longrightarrow> drop (rec_offs (length pre) rs ! i) (pre @ concat rs) = concat (drop i rs)"
proof (induction rs arbitrary: pre i)
  case (Cons r rs)
  show ?case
  proof (cases i)
    case (Suc j)
    then show ?thesis using Cons.IH [of j "pre @ r"] Cons.prems by simp
  qed simp
qed simp

subsection \<open>The records a context holds\<close>

definition rec_at :: "libs \<Rightarrow> lcap_cl_ctx \<Rightarrow> rec_ref \<Rightarrow> bytes option" where
  "rec_at L s r =
     (case r of
        Direct b \<Rightarrow> Some b
      | In_buf a off \<Rightarrow> map_option (\<lambda>buf. take (wire_len L (drop off buf)) (drop off buf)) (m_bufs s a))"

definition unread :: "px_zmq_data \<Rightarrow> rec_ref option list" where
  "unread pzd =
     (case px_records pzd of
        None \<Rightarrow> [] | Some rs \<Rightarrow> drop (nat (rec_nxt pzd)) (take (nat (rec_cnt pzd)) rs))"

definition px_pending :: "libs \<Rightarrow> lcap_cl_ctx \<Rightarrow> bytes list" where
  "px_pending L s =
     (case ccc_ptr s of None \<Rightarrow> [] | Some pzd \<Rightarrow> map (the \<circ> rec_at L s \<circ> the) (unread pzd))"

text \<open>
  The counters stay in range, the array has room for the records counted (unless a failed
  reallocation lost it, and then none is left to read), and every record not yet read lies in
  the receive buffer, which is allocated.
\<close>

definition pzd_ok :: "(addr \<rightharpoonup> bytes) \<Rightarrow> px_zmq_data \<Rightarrow> bool" where
  "pzd_ok bufs pzd \<longleftrightarrow>
     0 \<le> rec_nxt pzd \<and> rec_nxt pzd \<le> rec_cnt pzd \<and>
     (case px_records pzd of
        None \<Rightarrow> rec_nxt pzd = rec_cnt pzd | Some rs \<Rightarrow> rec_cnt pzd \<le> int (length rs)) \<and>
     list_all (\<lambda>x. case x of
         Some (In_buf a off) \<Rightarrow> rec_buff pzd = Some a \<and> bufs a \<noteq> None | _ \<Rightarrow> False) (unread pzd)"

definition px_inv :: "lcap_cl_ctx \<Rightarrow> bool" where
  "px_inv s \<longleftrightarrow> cl_live s \<and> ccc_ops s = Some cl_ops_proxy \<and>
     pred_option (pzd_ok (m_bufs s)) (ccc_ptr s) \<and> ccc_ptr s \<noteq> None \<and>
     (\<forall>a. m_bufs s a \<noteq> None \<longrightarrow> a < m_buf_brk s)"

lemma px_invE:
  assumes "px_inv s"
  obtains pzd where "ccc_ptr s = Some pzd" "pzd_ok (m_bufs s) pzd" "cl_live s"
    "ccc_ops s = Some cl_ops_proxy" "m_bufs s (m_buf_brk s) = None"
  using assms by (cases "ccc_ptr s") (auto simp: px_inv_def)

lemma unread_Nil: "pzd_ok m pzd \<Longrightarrow> unread pzd = [] \<longleftrightarrow> rec_nxt pzd = rec_cnt pzd"
  by (auto simp: pzd_ok_def unread_def split: option.splits)

lemma unread_Cons:
  assumes "pzd_ok m pzd" "unread pzd = x # xs"
  obtains rs a off where "px_records pzd = Some rs" "rec_nxt pzd < rec_cnt pzd"
    "rs ! nat (rec_nxt pzd) = x" "nat (rec_nxt pzd) < length rs" "x = Some (In_buf a off)"
    "rec_buff pzd = Some a" "m a \<noteq> None" "unread (pzd\<lparr>rec_nxt := rec_nxt pzd + 1\<rparr>) = xs"
proof -
  obtain rs where rs: "px_records pzd = Some rs"
    using assms by (auto simp: unread_def split: option.splits)
  let ?n = "nat (rec_nxt pzd)" and ?us = "take (nat (rec_cnt pzd)) rs"
  have us: "drop ?n ?us = x # xs" using assms(2) rs by (simp add: unread_def)
  then have n: "?n < length ?us" by (metis drop_all not_less list.distinct(1))
  have x: "?us ! ?n = x" "drop (Suc ?n) ?us = xs" using us n by (simp_all add: Cons_nth_drop_Suc [symmetric])
  have pos: "0 \<le> rec_nxt pzd" using assms(1) by (simp add: pzd_ok_def)
  then have "unread (pzd\<lparr>rec_nxt := rec_nxt pzd + 1\<rparr>) = xs"
    using rs x(2) by (simp add: unread_def nat_add_distrib)
  moreover obtain a off where "x = Some (In_buf a off)" "rec_buff pzd = Some a" "m a \<noteq> None"
    using assms by (auto simp: pzd_ok_def split: option.splits rec_ref.splits)
  ultimately show ?thesis using that rs n x(1) pos by simp
qed

lemma pzd_ok_next:
  assumes "pzd_ok m pzd" "unread pzd = x # xs"
  shows "pzd_ok m (pzd\<lparr>rec_nxt := rec_nxt pzd + 1\<rparr>)"
proof -
  obtain rs a off where *: "px_records pzd = Some rs" "rec_nxt pzd < rec_cnt pzd"
    "unread (pzd\<lparr>rec_nxt := rec_nxt pzd + 1\<rparr>) = xs" using unread_Cons [OF assms] by metis
  then show ?thesis using assms *(2) unfolding pzd_ok_def by (simp add: *(1,3))
qed

subsection \<open>Reading from the cache\<close>

lemma with_ops_proxy: "px_inv s \<Longrightarrow> with_ops f s = f cl_ops_proxy s"
  by (auto simp: with_ops_def elim!: px_invE)

lemma rec_at_ptr [simp]: "rec_at L (s\<lparr>ccc_ptr := p\<rparr>) = rec_at L s"
  by (auto simp: rec_at_def split: rec_ref.splits)

lemma px_pending_Nil:
  "px_inv s \<Longrightarrow> ccc_ptr s = Some pzd \<Longrightarrow> px_pending L s = [] \<longleftrightarrow> rec_nxt pzd = rec_cnt pzd"
  by (auto simp: px_pending_def unread_Nil elim!: px_invE)

lemma px_recv_cached:
  assumes inv: "px_inv s" and pend: "px_pending L s = x # xs"
  shows "\<exists>r p. lcap_changelog_recv L s = Ok (0, Some r) (s\<lparr>ccc_ptr := p\<rparr>) \<and> px_inv (s\<lparr>ccc_ptr := p\<rparr>) \<and>
    px_pending L (s\<lparr>ccc_ptr := p\<rparr>) = xs \<and> rec_at L (s\<lparr>ccc_ptr := p\<rparr>) r = Some x"
proof -
  obtain pzd where pzd: "ccc_ptr s = Some pzd" "pzd_ok (m_bufs s) pzd" using px_invE [OF inv] .
  then obtain y ys where us: "unread pzd = y # ys" and x: "x = the (rec_at L s (the y))"
      and xs: "xs = map (the \<circ> rec_at L s \<circ> the) ys"
    using pend by (auto simp: px_pending_def)
  obtain rs a off where *: "px_records pzd = Some rs" "rec_nxt pzd < rec_cnt pzd"
      "rs ! nat (rec_nxt pzd) = y" "nat (rec_nxt pzd) < length rs" "y = Some (In_buf a off)"
      "m_bufs s a \<noteq> None" "unread (pzd\<lparr>rec_nxt := rec_nxt pzd + 1\<rparr>) = ys"
    using unread_Cons [OF pzd(2) us] by metis
  let ?p = "Some (pzd\<lparr>rec_nxt := rec_nxt pzd + 1\<rparr>)"
  have pos: "0 \<le> rec_nxt pzd" using pzd(2) by (simp add: pzd_ok_def)
  have "px_record_at pzd = Inr (In_buf a off)"
    using * pos by (auto simp: px_record_at_def)
  then have "lcap_changelog_recv L s = Ok (0, Some (In_buf a off)) (s\<lparr>ccc_ptr := ?p\<rparr>)"
    using pzd * by (simp add: lcap_changelog_recv_def with_ops_proxy [OF inv] px_changelog_recv_def
        get_pzd_def set_pzd_def)
  moreover have "px_inv (s\<lparr>ccc_ptr := ?p\<rparr>)"
    using inv pzd_ok_next [OF pzd(2) us] by (simp add: px_inv_def)
  moreover have "px_pending L (s\<lparr>ccc_ptr := ?p\<rparr>) = xs" using * xs by (simp add: px_pending_def)
  moreover have "rec_at L s (In_buf a off) = Some x" using x * by (auto simp: rec_at_def)
  ultimately show ?thesis by fastforce
qed

lemma px_free_kept:
  assumes inv: "px_inv s"
  shows "\<exists>t. lcap_changelog_free L r s = Ok (0, None) t \<and> px_inv t \<and> px_pending L t = px_pending L s \<and>
    w_log t = w_log s \<and> w_in t = w_in s"
proof -
  obtain pzd where pzd: "ccc_ptr s = Some pzd" "pzd_ok (m_bufs s) pzd" using px_invE [OF inv] .
  have eq: "lcap_changelog_free L r s = px_changelog_free s"
    by (simp add: lcap_changelog_free_def with_ops_proxy [OF inv])
  show ?thesis
  proof (cases "rec_nxt pzd = rec_cnt pzd")
    case True
    define t where "t = set_pzd (pzd\<lparr>rec_buff := None\<rparr>) (free_buf (rec_buff pzd) s)"
    have u: "unread pzd = []" using unread_Nil [OF pzd(2)] True by simp
    then have "unread (pzd\<lparr>rec_buff := None\<rparr>) = []" by (simp add: unread_def split: option.splits)
    with pzd(2) have "pzd_ok m (pzd\<lparr>rec_buff := None\<rparr>)" for m by (simp add: pzd_ok_def split: option.splits)
    with inv have "px_inv t" by (auto simp: px_inv_def t_def set_pzd_def free_buf_def split: option.splits)
    moreover have "px_pending L t = px_pending L s"
      using u pzd(1) by (simp add: t_def px_pending_def set_pzd_def unread_def split: option.splits)
    ultimately show ?thesis
      using pzd(1) True eq by (simp add: px_changelog_free_def get_pzd_def t_def set_pzd_def free_buf_def split: option.splits)
  next
    case False
    then show ?thesis using pzd(1) eq inv by (simp add: px_changelog_free_def get_pzd_def)
  qed
qed

subsection \<open>A source of records\<close>

text \<open>The loop an application runs: receive a record, use it, release it, so many times.\<close>

fun drain ::
    "('s \<Rightarrow> (int \<times> 'r option, 's) res) \<Rightarrow> ('r option \<Rightarrow> 's \<Rightarrow> (int \<times> 'r option, 's) res) \<Rightarrow>
      ('s \<Rightarrow> 'r \<Rightarrow> bytes option) \<Rightarrow> nat \<Rightarrow> 's \<Rightarrow> (int \<times> bytes option list, 's) res" where
  "drain fetch release use 0 s = Ok (0, []) s"
| "drain fetch release use (Suc n) s =
     bindR (fetch s) (\<lambda>(rc, r) s.
     if rc \<noteq> 0 then Ok (rc, []) s
     else let b = Option.bind r (use s)
          in bindR (release r s) (\<lambda>(_, _) s.
             bindR (drain fetch release use n s) (\<lambda>(rc, bs) s. Ok (rc, b # bs) s)))"

locale record_source =
  fixes inv :: "'s \<Rightarrow> bool"
    and pending :: "'s \<Rightarrow> bytes list"
    and fetch :: "'s \<Rightarrow> (int \<times> 'r option, 's) res"
    and release :: "'r option \<Rightarrow> 's \<Rightarrow> (int \<times> 'r option, 's) res"
    and content :: "'s \<Rightarrow> 'r \<Rightarrow> bytes option"
    and sent :: "'s \<Rightarrow> bytes list list"
  assumes fetch_pending:
      "inv s \<Longrightarrow> pending s = x # xs \<Longrightarrow>
        \<exists>r t. fetch s = Ok (0, Some r) t \<and> inv t \<and> pending t = xs \<and> content t r = Some x \<and> sent t = sent s"
    and release_kept:
      "inv s \<Longrightarrow> \<exists>rc t. release r s = Ok (rc, None) t \<and> inv t \<and> pending t = pending s \<and> sent t = sent s"
begin

lemma drain_pending:
  "inv s \<Longrightarrow> n \<le> length (pending s) \<Longrightarrow>
    \<exists>t. drain fetch release content n s = Ok (0, map Some (take n (pending s))) t \<and> inv t \<and>
      pending t = drop n (pending s) \<and> sent t = sent s"
proof (induction n arbitrary: s)
  case (Suc n)
  then obtain x xs where p: "pending s = x # xs" by (cases "pending s") auto
  from fetch_pending [OF Suc.prems(1) p] obtain r t where
    t: "fetch s = Ok (0, Some r) t" "inv t" "pending t = xs" "content t r = Some x" "sent t = sent s" by blast
  from release_kept [OF t(2), of "Some r"] obtain rc u where
    u: "release (Some r) t = Ok (rc, None) u" "inv u" "pending u = xs" "sent u = sent s" using t by auto
  have "n \<le> length (pending u)" using Suc.prems(2) p u(3) by simp
  from Suc.IH [OF u(2) this] u t p show ?case by auto
qed simp

end

text \<open>The messages sent so far.\<close>

definition sent_so_far :: "'a world_scheme \<Rightarrow> bytes list list" where
  "sent_so_far s = fst (out_run [] (rev (w_log s)))"

interpretation proxy: record_source px_inv "px_pending L" "lcap_changelog_recv L" "lcap_changelog_free L"
    "rec_at L" sent_so_far
proof unfold_locales
  fix s :: lcap_cl_ctx and x xs
  assume "px_inv s" "px_pending L s = x # xs"
  from px_recv_cached [OF this] show "\<exists>r t. lcap_changelog_recv L s = Ok (0, Some r) t \<and> px_inv t \<and>
      px_pending L t = xs \<and> rec_at L t r = Some x \<and> sent_so_far t = sent_so_far s"
    by (fastforce simp: sent_so_far_def)
next
  fix s :: lcap_cl_ctx and r
  assume "px_inv s"
  from px_free_kept [OF this] show "\<exists>rc t. lcap_changelog_free L r s = Ok (rc, None) t \<and> px_inv t \<and>
      px_pending L t = px_pending L s \<and> sent_so_far t = sent_so_far s"
    by (fastforce simp: sent_so_far_def)
qed

text \<open>In direct mode: the records Lustre has before the next error or the end.\<close>

definition lu_inv :: "lcap_cl_ctx \<Rightarrow> bool" where
  "lu_inv s \<longleftrightarrow> cl_live s \<and> ccc_ops s = Some cl_ops_null"

definition lu_pending :: "lcap_cl_ctx \<Rightarrow> bytes list" where
  "lu_pending s = map projr (takeWhile (\<lambda>x. \<not> isl x) (cl_changelog s))"

lemma sent_so_far_quiet:
  "w_log t = e # w_log s \<Longrightarrow> quiet_event e \<Longrightarrow> sent_so_far t = sent_so_far s"
proof -
  assume *: "w_log t = e # w_log s" "quiet_event e"
  obtain ms a where "out_run [] (rev (w_log s)) = (ms, a)" by force
  moreover from out_run_append [OF this, of "[e]" "[]" a] *(2)
  have "out_run [] (rev (w_log s) @ [e]) = (ms, a)"
    using out_run_quiet [of "[e]" a] by simp
  ultimately show ?thesis using *(1) by (simp add: sent_so_far_def)
qed

lemma lu_recv_pending:
  assumes "lu_inv s" "lu_pending s = x # xs"
  shows "\<exists>t. lcap_changelog_recv L s = Ok (0, Some (Direct x)) t \<and> lu_inv t \<and> lu_pending t = xs \<and>
    w_log t = Ev_ll_recv (Inr x) # w_log s"
proof -
  obtain y ys where y: "cl_changelog s = y # ys" "\<not> isl y"
    using assms(2) by (cases "cl_changelog s") (auto simp: lu_pending_def split: if_splits)
  then obtain r where "y = Inr r" by (cases y) auto
  with y assms show ?thesis
    by (simp add: lcap_changelog_recv_def with_ops_def lu_inv_def lu_changelog_recv_def lu_pending_def)
qed

interpretation direct: record_source lu_inv lu_pending "lcap_changelog_recv L" "lcap_changelog_free L"
    "rec_at L" sent_so_far
proof unfold_locales
  fix s :: lcap_cl_ctx and x xs
  assume *: "lu_inv s" "lu_pending s = x # xs"
  show "\<exists>r t. lcap_changelog_recv L s = Ok (0, Some r) t \<and> lu_inv t \<and> lu_pending t = xs \<and>
      rec_at L t r = Some x \<and> sent_so_far t = sent_so_far s"
    using lu_recv_pending [OF *, of L]
    by (fastforce simp: rec_at_def quiet_event_def intro: sent_so_far_quiet)
next
  fix s :: lcap_cl_ctx and r
  assume "lu_inv s"
  then show "\<exists>rc t. lcap_changelog_free L r s = Ok (rc, None) t \<and> lu_inv t \<and>
      lu_pending t = lu_pending s \<and> sent_so_far t = sent_so_far s"
    by (simp add: lcap_changelog_free_def with_ops_def lu_inv_def lu_changelog_free_def lu_pending_def)
      (rule sent_so_far_quiet [where e = "Ev_ll_free (case r of Some (Direct b) \<Rightarrow> Some b | _ \<Rightarrow> None)"],
        simp_all add: quiet_event_def)
qed

subsection \<open>Receiving a reply\<close>

definition sockopts_ok :: "libs \<Rightarrow> bool" where
  "sockopts_ok L \<longleftrightarrow> (\<forall>h. lib_getsockopt L h = 0)"

lemma emits_more:
  "w_log u = evs @ w_log t \<Longrightarrow> list_all quiet_event evs \<Longrightarrow> emits s t ms \<Longrightarrow> emits s u ms"
  using emits_trans [of s t ms u "[]"] emits_quiet [of u evs t] by simp

lemma cl_rep_recv_wire:
  assumes "sockopts_ok L" "fs \<noteq> []" "length (acc @ concat fs) \<le> bufflen" "w_in s = wire fs @ rest"
  shows "\<exists>evs. list_all quiet_event evs \<and> cl_rep_recv L bufflen acc s =
    Ok (int (length (acc @ concat fs)), acc @ concat fs) (s\<lparr>w_in := rest, w_log := evs @ w_log s\<rparr>)"
  using assms(2-)
proof (induction fs arbitrary: acc s rule: wire.induct)
  case (2 f)
  then show ?case using assms(1)
    by (intro exI [of _ "[Ev_zmq_getsockopt 0, Ev_recv f False]"])
      (simp add: cl_rep_recv.simps [of L bufflen acc s] zmq_msg_recv_def sockopts_ok_def)
next
  case (3 f g fs)
  define t where "t = s\<lparr>w_in := wire (g # fs) @ rest, w_log := [Ev_zmq_getsockopt 0, Ev_recv f True] @ w_log s\<rparr>"
  have "\<not> bufflen - length acc < length f" using 3(3) by simp
  then have "cl_rep_recv L bufflen acc s = cl_rep_recv L bufflen (acc @ f) t"
    using 3(4) assms(1)
    by (simp add: cl_rep_recv.simps [of L bufflen acc s] zmq_msg_recv_def sockopts_ok_def t_def)
  moreover obtain evs where "list_all quiet_event evs" "cl_rep_recv L bufflen (acc @ f) t =
      Ok (int (length (acc @ f @ concat (g # fs))), acc @ f @ concat (g # fs)) (t\<lparr>w_in := rest, w_log := evs @ w_log t\<rparr>)"
    using 3(1) [of "acc @ f" t] 3(3) by (auto simp: t_def)
  ultimately show ?case
    by (intro exI [of _ "evs @ [Ev_zmq_getsockopt 0, Ev_recv f True]"]) (simp add: t_def)
qed simp

lemma ack_code: "in_int32 e \<Longrightarrow> sint (ack_pr_retcode (dec_ack (ack_msg e))) = e"
  unfolding in_int32_def ack_msg_def by (simp add: sint_sbintrunc' signed_take_bit_int_eq_self)

lemma cl_ack_retcode_wire:
  assumes "sockopts_ok L" "w_in s = wire [ack_msg e] @ rest" "in_int32 e"
  shows "\<exists>evs. list_all quiet_event evs \<and>
    cl_ack_retcode L s = Ok e (s\<lparr>w_in := rest, w_log := evs @ w_log s\<rparr>)"
proof -
  obtain evs where "list_all quiet_event evs" "cl_rep_recv L sizeof_ack [] s =
      Ok (int sizeof_ack, ack_msg e) (s\<lparr>w_in := rest, w_log := evs @ w_log s\<rparr>)"
    using cl_rep_recv_wire [OF assms(1), of "[ack_msg e]" "[]" sizeof_ack s rest] assms(2) by auto
  with ack_code [OF assms(3)] show ?thesis by (intro exI [of _ evs]) (simp add: cl_ack_retcode_def)
qed

text \<open>What a request of the proxy looks like on the wire.\<close>

definition px_frames :: "px_zmq_data \<Rightarrow> bytes \<Rightarrow> bytes list" where
  "px_frames pzd rpc = [take (rec_mdt_len pzd) (rec_mdt pzd), rpc]"

lemma px_rpc_send_ok:
  assumes "sends_ok L" "zmq_srv pzd"
  shows "\<exists>evs. px_rpc_send L pzd rpc s = (0, s\<lparr>w_log := evs @ w_log s\<rparr>) \<and>
    out_run [] (rev evs) = ([px_frames pzd rpc], [])"
  using assms
  by (intro exI [of _ "[Ev_send rpc False 0, Ev_send (take (rec_mdt_len pzd) (rec_mdt pzd)) True 0]"])
    (simp add: px_rpc_send_def send_frames_ok px_frames_def)

text \<open>
  A DEQUEUE whose reply is the message of the frames \<open>fs\<close>: the bytes are in a new buffer when
  the switch on the operation code is reached, and the request has been sent.
\<close>

definition replied_in :: "libs \<Rightarrow> bytes list \<Rightarrow> in_event list \<Rightarrow> lcap_cl_ctx \<Rightarrow> bool" where
  "replied_in L fs rest s \<longleftrightarrow> sends_ok L \<and> allocs_ok L \<and> sockopts_ok L \<and> fs \<noteq> [] \<and>
     length (concat fs) \<le> RECV_BUFFER_LENGTH \<and> w_in s = wire fs @ rest"

definition with_buffer :: "bytes \<Rightarrow> in_event list \<Rightarrow> event list \<Rightarrow> lcap_cl_ctx \<Rightarrow> lcap_cl_ctx" where
  "with_buffer m rest l s = s\<lparr>m_buf_brk := m_buf_brk s + 1, w_in := rest,
     w_log := l, m_bufs := (m_bufs s)(m_buf_brk s \<mapsto> m)\<rparr>"

lemma px_dequeue_records_eq:
  assumes "replied_in L fs rest s" "ccc_ptr s = Some pzd" "zmq_srv pzd"
  shows "\<exists>l. px_dequeue_records L s =
      bindR (px_dequeue_reply L (m_buf_brk s) (concat fs) pzd (with_buffer (concat fs) rest l s)) (\<lambda>(rc, pzd) u.
        Ok rc (set_pzd pzd (if rc \<noteq> 0 then free_buf (Some (m_buf_brk s)) u else u))) \<and>
    emits s (with_buffer (concat fs) rest l s) [px_frames pzd (enc_dequeue cl_dequeue_pack)]"
proof -
  have L: "sends_ok L" "allocs_ok L" "sockopts_ok L" and fs: "fs \<noteq> []"
      "length ([] @ concat fs) \<le> RECV_BUFFER_LENGTH" "w_in s = wire fs @ rest"
    using assms(1) by (simp_all add: replied_in_def)
  obtain evs where send: "px_rpc_send L pzd (enc_dequeue cl_dequeue_pack) s = (0, s\<lparr>w_log := evs @ w_log s\<rparr>)"
      and out: "out_run [] (rev evs) = ([px_frames pzd (enc_dequeue cl_dequeue_pack)], [])"
    using px_rpc_send_ok [OF L(1) assms(3)] by blast
  let ?a = "m_buf_brk s"
  let ?t = "s\<lparr>w_log := Ev_alloc RECV_BUFFER_LENGTH True # evs @ w_log s, m_bufs := (m_bufs s)(?a \<mapsto> []),
    m_buf_brk := ?a + 1\<rparr>"
  obtain evs' where q: "list_all quiet_event evs'" and recv: "cl_rep_recv L RECV_BUFFER_LENGTH [] ?t =
      Ok (int (length ([] @ concat fs)), [] @ concat fs) (?t\<lparr>w_in := rest, w_log := evs' @ w_log ?t\<rparr>)"
    using cl_rep_recv_wire [OF L(3) fs(1,2), of ?t rest] fs(3) by auto
  define l where "l = evs' @ Ev_alloc RECV_BUFFER_LENGTH True # evs @ w_log s"
  have "emits s (s\<lparr>w_log := evs @ w_log s\<rparr>) [px_frames pzd (enc_dequeue cl_dequeue_pack)]"
    using out by (auto simp: emits_def)
  then have "emits s (with_buffer (concat fs) rest l s) [px_frames pzd (enc_dequeue cl_dequeue_pack)]"
    by (rule emits_more [rotated 2, where evs = "evs' @ [Ev_alloc RECV_BUFFER_LENGTH True]"])
      (use q in \<open>simp_all add: with_buffer_def l_def\<close>)
  moreover have "px_dequeue_records L s =
      bindR (px_dequeue_reply L ?a (concat fs) pzd (with_buffer (concat fs) rest l s)) (\<lambda>(rc, pzd) u.
        Ok rc (set_pzd pzd (if rc \<noteq> 0 then free_buf (Some ?a) u else u)))"
    using assms(2) send recv L(2)
    by (simp add: px_dequeue_records_def get_pzd_def alloc_def allocs_ok_def with_buffer_def l_def Let_def
        cong: if_cong)
  ultimately show ?thesis by blast
qed

end
