(* ===== verification/Client_Props.thy ===== *)
theory Client_Props
  imports Client_Inv
begin

text \<open>
  The properties of the client library: a batch of records is delivered one by one, in order and
  unchanged; every refusal of the daemon reaches the caller and frees the receive buffer; an
  acknowledgement is sent for the last record of a batch only; registration and its failures; and
  the replies after which the library reads memory it never wrote.
\<close>

subsection \<open>A batch of records\<close>

definition batch_msg :: "bytes list \<Rightarrow> bytes" where
  "batch_msg rs =
     enc_enqueue \<lparr>enq_hdr = mk_hdr RPC_OP_ENQUEUE, enq_count = of_nat (length rs), enq_records = concat rs\<rparr>"

definition batch_hdr :: "nat \<Rightarrow> bytes" where
  "batch_hdr n = enc_hdr (mk_hdr RPC_OP_ENQUEUE) @ put32 (of_nat n)"

lemma batch_msg_eq: "batch_msg rs = batch_hdr (length rs) @ concat rs" "length (batch_hdr n) = sizeof_enqueue"
  by (simp_all add: batch_msg_def batch_hdr_def enc_enqueue_def)

lemma batch_msg_facts:
  "length (batch_msg rs) = sizeof_enqueue + length (concat rs)" "body_op (batch_msg rs) = 4"
  "length rs < 2 ^ 31 \<Longrightarrow> unat (enq_count (dec_enqueue (batch_msg rs))) = length rs"
proof -
  show "length (batch_msg rs) = sizeof_enqueue + length (concat rs)" by (simp add: batch_msg_eq)
  show "body_op (batch_msg rs) = 4"
    using body_op_mk_hdr [of "batch_msg rs" RPC_OP_ENQUEUE] by (simp add: batch_msg_def)
  show "unat (enq_count (dec_enqueue (batch_msg rs))) = length rs" if "length rs < 2 ^ 31"
    using that by (simp add: batch_msg_def unat_of_nat)
qed

text \<open>A proxy context that can talk to the daemon and has its array of records.\<close>

definition px_ready :: "lcap_cl_ctx \<Rightarrow> bool" where
  "px_ready s \<longleftrightarrow> pred_option (\<lambda>pzd. zmq_srv pzd \<and> px_records pzd \<noteq> None) (ccc_ptr s)"

definition batch_ok :: "libs \<Rightarrow> bytes list \<Rightarrow> bool" where
  "batch_ok L rs \<longleftrightarrow> rec_layout L \<and> rs \<noteq> [] \<and> list_all (wire_rec L) rs \<and> length rs < 2 ^ 31 \<and>
     length (batch_msg rs) \<le> RECV_BUFFER_LENGTH"

lemma reply_batch:
  assumes b: "batch_ok L rs" and al: "allocs_ok L" and ok: "pzd_ok m pzd" and rec: "px_records pzd \<noteq> None"
  shows "\<exists>evs cells. list_all quiet_event evs \<and> px_dequeue_reply L a (batch_msg rs) pzd u =
    Ok (0, pzd\<lparr>px_records := Some (map (Some \<circ> In_buf a) (rec_offs sizeof_enqueue rs) @ cells), rec_nxt := 0,
               rec_cnt := int (length rs), rec_buff := Some a\<rparr>) (u\<lparr>w_log := evs @ w_log u\<rparr>)"
proof -
  let ?n = "length rs"
  have n: "?n < 2 ^ 31" and lay: "rec_layout L" and wr: "\<forall>r \<in> set rs. wire_rec L r"
    using b by (auto simp: batch_ok_def list_all_iff)
  obtain r rs' where rs: "rs = r # rs'" using b by (auto simp: batch_ok_def neq_Nil_conv)
  have sz: "sizeof_enqueue + sizeof_changelog_rec L \<le> length (batch_msg rs)"
    using wr rs by (auto simp: batch_msg_facts wire_rec_def)
  obtain xs where xs: "px_records pzd = Some xs" using rec by auto
  define evs where "evs = (if int ?n > rec_cnt pzd then [Ev_alloc (?n * 8) True] else [])"
  define ys where "ys = (if int ?n > rec_cnt pzd then resize ?n xs else xs)"
  have grow: "(if int ?n > rec_cnt pzd then pzd_cache_grow L pzd ?n u else ((0, pzd), u)) =
      ((0, pzd\<lparr>px_records := Some ys\<rparr>), u\<lparr>w_log := evs @ w_log u\<rparr>)"
    using al xs n by (simp add: pzd_cache_grow_def alloc_def allocs_ok_def evs_def ys_def)
  have "?n \<le> length ys" using ok xs by (auto simp: ys_def resize_def pzd_ok_def)
  then have fill: "fill_records L a (batch_msg rs) ?n 0 sizeof_enqueue (Some ys) =
      Inr (Some (map (Some \<circ> In_buf a) (rec_offs sizeof_enqueue rs) @ drop ?n ys))"
    using fill_records_wire [OF lay wr, of "batch_hdr ?n" 0 ys a] b n
    by (simp add: batch_msg_eq batch_ok_def)
  have "list_all quiet_event evs" by (simp add: evs_def)
  with grow fill sz batch_msg_facts [of rs] n show ?thesis
    by (intro exI [of _ evs] exI [of _ "drop ?n ys"]) (simp add: px_dequeue_reply_def Let_def)
qed

lemma rec_at_batch:
  assumes "batch_ok L rs" "m_bufs s a = Some (batch_msg rs)" "i < length rs"
  shows "rec_at L s (In_buf a (rec_offs sizeof_enqueue rs ! i)) = Some (rs ! i)"
proof -
  let ?r = "rs ! i"
  have "drop (rec_offs sizeof_enqueue rs ! i) (batch_msg rs) = concat (drop i rs)"
    using rec_offs_nth [OF assms(3), of "batch_hdr (length rs)"] by (simp add: batch_msg_eq)
  also have "\<dots> = ?r @ concat (drop (Suc i) rs)" using assms(3) by (simp add: Cons_nth_drop_Suc [symmetric])
  finally have d: "drop (rec_offs sizeof_enqueue rs ! i) (batch_msg rs) = ?r @ concat (drop (Suc i) rs)" .
  have "wire_rec L ?r" "rec_layout L" using assms(1,3) by (auto simp: batch_ok_def list_all_length)
  then have "wire_len L (?r @ concat (drop (Suc i) rs)) = length ?r"
    using wire_len_append by (simp add: wire_rec_def)
  with d assms(2) show ?thesis by (simp add: rec_at_def)
qed

lemma with_buffer_log:
  "(with_buffer m rest l s)\<lparr>w_log := evs @ w_log (with_buffer m rest l s)\<rparr> = with_buffer m rest (evs @ l) s"
  by (simp add: with_buffer_def)

lemma dequeue_batch:
  assumes inv: "px_inv s" and rdy: "px_ready s" and r: "replied_in L fs rest s"
    and b: "concat fs = batch_msg rs" "batch_ok L rs"
  shows "\<exists>v. px_dequeue_records L s = Ok 0 v \<and> px_inv v \<and> px_pending L v = rs \<and> w_in v = rest \<and>
    emits s v [px_frames (the (ccc_ptr s)) (enc_dequeue cl_dequeue_pack)]"
proof -
  obtain pzd where pzd: "ccc_ptr s = Some pzd" "pzd_ok (m_bufs s) pzd" using px_invE [OF inv] .
  with rdy have z: "zmq_srv pzd" "px_records pzd \<noteq> None" by (auto simp: px_ready_def)
  let ?a = "m_buf_brk s"
  obtain l where d: "px_dequeue_records L s = bindR (px_dequeue_reply L ?a (batch_msg rs) pzd
        (with_buffer (batch_msg rs) rest l s)) (\<lambda>(rc, pzd) u.
        Ok rc (set_pzd pzd (if rc \<noteq> 0 then free_buf (Some ?a) u else u)))"
      and em: "emits s (with_buffer (batch_msg rs) rest l s) [px_frames pzd (enc_dequeue cl_dequeue_pack)]"
    using px_dequeue_records_eq [OF r pzd(1) z(1)] b(1) by auto
  have "allocs_ok L" using r by (simp add: replied_in_def)
  from reply_batch [OF b(2) this pzd(2) z(2), of ?a "with_buffer (batch_msg rs) rest l s"]
  obtain evs cells where q: "list_all quiet_event evs"
      and rep: "px_dequeue_reply L ?a (batch_msg rs) pzd (with_buffer (batch_msg rs) rest l s) =
        Ok (0, pzd\<lparr>px_records := Some (map (Some \<circ> In_buf ?a) (rec_offs sizeof_enqueue rs) @ cells),
                   rec_nxt := 0, rec_cnt := int (length rs), rec_buff := Some ?a\<rparr>)
          (with_buffer (batch_msg rs) rest (evs @ l) s)"
    unfolding with_buffer_log by blast
  define p where "p = pzd\<lparr>px_records := Some (map (Some \<circ> In_buf ?a) (rec_offs sizeof_enqueue rs) @ cells),
                   rec_nxt := 0, rec_cnt := int (length rs), rec_buff := Some ?a\<rparr>"
  define v where "v = set_pzd p (with_buffer (batch_msg rs) rest (evs @ l) s)"
  have v: "px_dequeue_records L s = Ok 0 v" using d rep by (simp add: p_def v_def)
  have un: "unread p = map (Some \<circ> In_buf ?a) (rec_offs sizeof_enqueue rs)" by (simp add: unread_def p_def)
  have bufs: "m_bufs v ?a = Some (batch_msg rs)" by (simp add: v_def set_pzd_def with_buffer_def)
  have "pzd_ok (m_bufs v) p" using un bufs by (simp add: pzd_ok_def list_all_iff) (simp add: p_def)
  then have "px_inv v" using inv by (auto simp: px_inv_def v_def set_pzd_def with_buffer_def less_SucI)
  moreover have "px_pending L v = rs"
    using rec_at_batch [OF b(2) bufs] un by (intro nth_equalityI) (simp_all add: px_pending_def v_def set_pzd_def)
  moreover have "emits s v [px_frames pzd (enc_dequeue cl_dequeue_pack)]"
    by (rule emits_more [OF _ q em]) (simp add: v_def set_pzd_def with_buffer_def)
  ultimately show ?thesis using v pzd by (auto simp: v_def set_pzd_def with_buffer_def)
qed

lemma px_recv_after:
  assumes "px_inv s" "px_pending L s = []" "px_dequeue_records L s = Ok 0 v" "px_inv v" "px_pending L v \<noteq> []"
  shows "lcap_changelog_recv L s = lcap_changelog_recv L v"
proof -
  obtain p q where pq: "ccc_ptr s = Some p" "ccc_ptr v = Some q"
    using px_invE [OF assms(1)] px_invE [OF assms(4)] by metis
  with assms(2,5) px_pending_Nil [OF assms(1) pq(1)] px_pending_Nil [OF assms(4) pq(2)]
  have "rec_nxt p = rec_cnt p" "rec_nxt q \<noteq> rec_cnt q" by auto
  with pq assms(3) show ?thesis
    by (simp add: lcap_changelog_recv_def with_ops_proxy [OF assms(1)] with_ops_proxy [OF assms(4)]
        px_changelog_recv_def get_pzd_def)
qed

text \<open>(C32) A client with nothing cached asks the daemon for records. When the reply, in any number of
  frames, is an ENQUEUE message of the records \<open>rs\<close>, the call returns the first record byte for byte
  and the others are cached in their order; one DEQUEUE request was sent, to the MDT of the
  context, and only the frames of the reply were read.\<close>

theorem client_receives_batch:
  assumes "px_inv s" "px_ready s" "px_pending L s = []" "replied_in L fs rest s"
    and "concat fs = batch_msg rs" "batch_ok L rs"
  shows "\<exists>r t. lcap_changelog_recv L s = Ok (0, Some r) t \<and> rec_at L t r = Some (hd rs) \<and> px_inv t \<and>
    px_pending L t = tl rs \<and> w_in t = rest \<and>
    emits s t [px_frames (the (ccc_ptr s)) (enc_dequeue cl_dequeue_pack)]"
proof -
  obtain x xs where rs: "rs = x # xs" using assms(6) by (auto simp: batch_ok_def neq_Nil_conv)
  obtain v where v: "px_dequeue_records L s = Ok 0 v" "px_inv v" "px_pending L v = x # xs" "w_in v = rest"
      "emits s v [px_frames (the (ccc_ptr s)) (enc_dequeue cl_dequeue_pack)]"
    using dequeue_batch [OF assms(1,2,4,5,6)] rs by auto
  have "lcap_changelog_recv L s = lcap_changelog_recv L v"
    using px_recv_after [OF assms(1,3) v(1,2)] v(3) by simp
  with px_recv_cached [OF v(2,3)] v(4,5) rs show ?thesis by (fastforce simp: emits_def)
qed

subsection \<open>An example\<close>

text \<open>A context of MDT \<^verbatim>\<open>M0\<close> with the given cache, and the frames its socket will deliver.\<close>

definition demo_pzd :: px_zmq_data where
  "demo_pzd = pzd_zero\<lparr>zmq_ctx := True, zmq_srv := True, px_records := Some [None], rec_mdt_len := 2,
     rec_mdt := [77, 48]\<rparr>"

definition demo_client_ctx :: "px_zmq_data option \<Rightarrow> in_event list \<Rightarrow> lcap_cl_ctx" where
  "demo_client_ctx p inp = \<lparr>w_log = [], w_errno = 0, w_in = inp, cl_live = True, ccc_ops = Some cl_ops_proxy,
     ccc_ptr = p, ccc_ll = False, m_bufs = Map.empty, m_buf_brk = 0, cl_changelog = []\<rparr>"

definition wire_1 :: bytes where "wire_1 = replicate 64 0"
definition wire_2 :: bytes where "wire_2 = [2, 0] @ replicate 62 0 @ [65, 66]"

lemma demo_layout: "rec_layout demo_libs"
  by (simp add: rec_layout_def demo_libs_def min_def)

lemma demo_batch_ok: "batch_ok demo_libs [wire_1, wire_2]"
proof -
  have "take 2 wire_1 = [0, 0]" "take 2 wire_2 = [2, 0]" by (simp_all add: wire_1_def wire_2_def numeral_2_eq_2)
  then have "wire_rec demo_libs wire_1" "wire_rec demo_libs wire_2"
    by (simp_all add: wire_rec_def wire_len_def demo_libs_def) (simp_all add: wire_1_def wire_2_def)
  moreover have "length (batch_msg [wire_1, wire_2]) = 142"
    by (simp add: batch_msg_facts wire_1_def wire_2_def)
  ultimately show ?thesis by (simp add: batch_ok_def demo_layout)
qed

lemma demo_px:
  "px_inv (demo_client_ctx (Some demo_pzd) inp)" "px_ready (demo_client_ctx (Some demo_pzd) inp)"
  "px_pending L (demo_client_ctx (Some demo_pzd) inp) = []"
  by (simp_all add: px_inv_def px_ready_def px_pending_def pzd_ok_def unread_def demo_client_ctx_def
      demo_pzd_def pzd_zero_def)

lemma demo_replied:
  "fs \<noteq> [] \<Longrightarrow> length (concat fs) \<le> RECV_BUFFER_LENGTH \<Longrightarrow>
     replied_in demo_libs fs rest (demo_client_ctx p (wire fs @ rest))"
  by (simp add: replied_in_def demo_client_ctx_def sockopts_ok_def) (simp add: demo_libs_def)

theorem client_receives_batch_witness:
  "\<exists>r t. lcap_changelog_recv demo_libs (demo_client_ctx (Some demo_pzd) (wire [batch_msg [wire_1, wire_2]])) =
      Ok (0, Some r) t \<and> rec_at demo_libs t r = Some wire_1 \<and> px_pending demo_libs t = [wire_2]"
  using client_receives_batch [OF demo_px demo_replied [of "[batch_msg [wire_1, wire_2]]" "[]"] _ demo_batch_ok]
    demo_batch_ok by (fastforce simp: batch_ok_def)

subsection \<open>Delivery\<close>

text \<open>(C33) Receiving and releasing \<open>n\<close> records, as an application does in its loop, returns the next \<open>n\<close>
  records the context holds, in order and byte for byte, without any request to the daemon, and
  leaves the others: for the records cached from the daemon and for those Lustre has in direct mode.\<close>

theorem client_delivers_in_order:
  assumes "px_inv s \<and> P = px_pending L \<or> lu_inv s \<and> P = lu_pending" "n \<le> length (P s)"
  shows "\<exists>t. drain (lcap_changelog_recv L) (lcap_changelog_free L) (rec_at L) n s =
      Ok (0, map Some (take n (P s))) t \<and> P t = drop n (P s) \<and> sent_so_far t = sent_so_far s"
  using proxy.drain_pending [of s n L] direct.drain_pending [of s n L] assms by auto

definition demo_direct :: lcap_cl_ctx where
  "demo_direct = (demo_client_ctx None [])\<lparr>ccc_ops := Some cl_ops_null,
     cl_changelog := [Inr wire_1, Inr wire_2, Inl (- 5)]\<rparr>"

theorem client_delivers_in_order_witness:
  "\<exists>t. drain (lcap_changelog_recv demo_libs) (lcap_changelog_free demo_libs) (rec_at demo_libs) 2 demo_direct =
      Ok (0, [Some wire_1, Some wire_2]) t \<and> lu_pending t = []"
  using client_delivers_in_order [of demo_direct lu_pending demo_libs 2]
  by (auto simp: lu_pending_def lu_inv_def demo_direct_def demo_client_ctx_def)

subsection \<open>Refusals\<close>

text \<open>
  The code a reply stands for, by the bytes of the message. The two kinds of reply that have none
  claim success: an acknowledgement with code 0, and an ENQUEUE long enough to hold a record.
\<close>

definition refusal_code :: "libs \<Rightarrow> bytes \<Rightarrow> int option" where
  "refusal_code L m =
     (if length m < sizeof_hdr then Some (- EINVAL)
      else if body_op m = rpc_op_code RPC_OP_ACK then
        if length m < sizeof_ack then Some (- EINVAL)
        else if sint (get32 8 m) = 0 then None else Some (sint (get32 8 m))
      else if body_op m = rpc_op_code RPC_OP_ENQUEUE then
        if length m < sizeof_enqueue + sizeof_changelog_rec L then Some (- EINVAL) else None
      else Some (- EPROTO))"

lemma refusal_code_kinds:
  "refusal_code L m = Some rc \<Longrightarrow> rc \<noteq> 0 \<and> px_dequeue_reply L a m pzd u = Ok (rc, pzd) u"
  by (auto simp: refusal_code_def px_dequeue_reply_def rpc_op_of_def dec_ack_def Let_def split: if_splits)

text \<open>(C35) A reply that does not claim success reaches the caller as a code. With any split of the message into
  frames, the answer to a DEQUEUE that is too short for a header, an acknowledgement that is cut
  (its code missing or incomplete) or an ENQUEUE too short to hold one record gives -EINVAL; a whole
  acknowledgement with a code other than 0 gives that code (1 at the end of the changelog, negative on
  errors), whatever follows it; a message with any other operation code gives -EPROTO. In all
  these cases no record is returned, one DEQUEUE was sent, the receive buffer is freed and the context
  is as before. The replies that claim success, an acknowledgement with code 0 and an ENQUEUE
  long enough to hold a record, are not covered here.\<close>

theorem client_refusals:
  assumes "px_inv s" "px_ready s" "px_pending L s = []" "replied_in L fs rest s"
    and "refusal_code L (concat fs) = Some rc"
  shows "\<exists>t. lcap_changelog_recv L s = Ok (rc, None) t \<and> px_inv t \<and> ccc_ptr t = ccc_ptr s \<and>
    m_bufs t = m_bufs s \<and> w_in t = rest \<and>
    emits s t [px_frames (the (ccc_ptr s)) (enc_dequeue cl_dequeue_pack)]"
proof -
  define m where "m = concat fs"
  obtain pzd where pzd: "ccc_ptr s = Some pzd" "pzd_ok (m_bufs s) pzd" and free: "m_bufs s (m_buf_brk s) = None"
    using px_invE [OF assms(1)] .
  have nxt: "rec_nxt pzd = rec_cnt pzd" using px_pending_Nil [OF assms(1) pzd(1)] assms(3) by auto
  have z: "zmq_srv pzd" using assms(2) pzd(1) by (simp add: px_ready_def)
  obtain l where d: "px_dequeue_records L s = bindR (px_dequeue_reply L (m_buf_brk s) m pzd
        (with_buffer m rest l s)) (\<lambda>(rc, pzd) u.
        Ok rc (set_pzd pzd (if rc \<noteq> 0 then free_buf (Some (m_buf_brk s)) u else u)))"
      and em: "emits s (with_buffer m rest l s) [px_frames pzd (enc_dequeue cl_dequeue_pack)]"
    using px_dequeue_records_eq [OF assms(4) pzd(1) z] m_def by auto
  have rep: "px_dequeue_reply L a m pzd u = Ok (rc, pzd) u" and rc: "rc \<noteq> 0" for a u
    using refusal_code_kinds [OF assms(5)] by (simp_all add: m_def)
  let ?t = "set_pzd pzd (free_buf (Some (m_buf_brk s)) (with_buffer m rest l s))"
  have bufs: "m_bufs ?t = m_bufs s" using free by (auto simp: set_pzd_def free_buf_def with_buffer_def)
  then have "px_inv ?t" using assms(1) pzd unfolding px_inv_def bufs
    by (auto simp: set_pzd_def free_buf_def with_buffer_def less_SucI)
  moreover have "lcap_changelog_recv L s = Ok (rc, None) ?t"
    using d rep rc nxt pzd(1)
    by (simp add: lcap_changelog_recv_def with_ops_proxy [OF assms(1)] px_changelog_recv_def get_pzd_def)
  moreover have "emits s ?t [px_frames pzd (enc_dequeue cl_dequeue_pack)]"
    using em by (simp add: emits_def set_pzd_def free_buf_def)
  ultimately show ?thesis using pzd bufs by (auto simp: set_pzd_def free_buf_def with_buffer_def)
qed

lemma demo_refusals:
  "refusal_code demo_libs (ack_msg 1) = Some 1" "refusal_code demo_libs (take 9 (ack_msg 1)) = Some (- EINVAL)"
  "refusal_code demo_libs (ack_msg 0) = None"
  by code_simp+

theorem client_refusals_witness:
  "(\<exists>t. lcap_changelog_recv demo_libs (demo_client_ctx (Some demo_pzd) (wire [ack_msg 1])) = Ok (1, None) t \<and>
     m_bufs t = Map.empty) \<and>
   (\<exists>t. lcap_changelog_recv demo_libs (demo_client_ctx (Some demo_pzd) (wire [take 9 (ack_msg 1)])) =
     Ok (- EINVAL, None) t \<and> m_bufs t = Map.empty)"
proof (intro conjI)
  have bufs: "m_bufs (demo_client_ctx (Some demo_pzd) es) = Map.empty" for es by (simp add: demo_client_ctx_def)
  show "\<exists>t. lcap_changelog_recv demo_libs (demo_client_ctx (Some demo_pzd) (wire [ack_msg 1])) = Ok (1, None) t \<and>
     m_bufs t = Map.empty"
    using client_refusals [OF demo_px demo_replied [of "[ack_msg 1]" "[]"], where rc = 1] demo_refusals(1) bufs
    by fastforce
  show "\<exists>t. lcap_changelog_recv demo_libs (demo_client_ctx (Some demo_pzd) (wire [take 9 (ack_msg 1)])) =
     Ok (- EINVAL, None) t \<and> m_bufs t = Map.empty"
    using client_refusals [OF demo_px demo_replied [of "[take 9 (ack_msg 1)]" "[]"], where rc = "- EINVAL"]
      demo_refusals(2) bufs by fastforce
qed

text \<open>(C38) A reply that claims success but carries no record (an acknowledgement with code 0) makes a fresh
  context return an element of its array of records that was never written.\<close>

theorem success_without_records_reads_garbage:
  assumes "px_inv s" "px_ready s" "ccc_ptr s = Some pzd" "rec_nxt pzd = 0" "rec_cnt pzd = 0"
    and "px_records pzd = Some (replicate (Suc n) None)" "replied_in L [ack_msg 0] rest s"
  shows "\<exists>t. lcap_changelog_recv L s = Bad Uninit_read t"
proof -
  have z: "zmq_srv pzd" using assms(2,3) by (simp add: px_ready_def)
  have "px_dequeue_reply L a (ack_msg 0) pzd u = Ok (0, pzd) u" for a u
    using ack_code [of 0] by (simp add: px_dequeue_reply_def in_int32_def)
  then obtain v where "px_dequeue_records L s = Ok 0 (set_pzd pzd v)"
    using px_dequeue_records_eq [OF assms(7,3) z] by auto
  then show ?thesis
    using assms(3-6)
    by (simp add: lcap_changelog_recv_def with_ops_proxy [OF assms(1)] px_changelog_recv_def get_pzd_def
        set_pzd_def px_record_at_def)
qed

theorem success_without_records_reads_garbage_witness:
  "\<exists>t. lcap_changelog_recv demo_libs (demo_client_ctx (Some demo_pzd) (wire [ack_msg 0])) = Bad Uninit_read t"
  using success_without_records_reads_garbage [OF demo_px(1,2), of _ demo_pzd 0 demo_libs "[]"]
    demo_replied [of "[ack_msg 0]" "[]"]
  by (simp add: demo_client_ctx_def demo_pzd_def pzd_zero_def)

subsection \<open>Acknowledging\<close>

lemma clear_pack_facts:
  assumes "0 \<notin> set idn" "0 \<notin> set mdt"
  shows "dec_clear (enc_clear (cl_clear_pack mdt idn i)) = cl_clear_pack mdt idn i"
    "body_op (enc_clear (cl_clear_pack mdt idn i)) = rpc_op_code RPC_OP_CLEAR"
    "px_rpc_get_id (cl_clear_pack mdt idn i) = idn" "px_rpc_get_mdtname (cl_clear_pack mdt idn i) = mdt"
  using assms body_op_mk_hdr [of "enc_clear (cl_clear_pack mdt idn i)" RPC_OP_CLEAR]
  by (simp_all add: cl_clear_pack_def px_rpc_get_id_def px_rpc_get_mdtname_def)

text \<open>(C34) Clearing records: while records of the batch are left to read the call returns 0 and does
  nothing at all; after the last one it sends a single CLEAR request, from which the daemon reads
  back the record number, the reader identifier and the MDT name, and returns the code of the
  acknowledgement; the context is as before.\<close>

theorem client_clear:
  assumes "px_inv s" "px_ready s" "0 \<notin> set idn" "0 \<notin> set mdt"
    and "length idn + length mdt < 2 ^ 62" "replied_in L [ack_msg e] rest s" "in_int32 e"
  shows "if px_pending L s \<noteq> [] then lcap_changelog_clear L mdt idn i s = Ok 0 s
    else \<exists>t m. lcap_changelog_clear L mdt idn i s = Ok e t \<and> world.more t = world.more s \<and> w_in t = rest \<and>
      emits s t [px_frames (the (ccc_ptr s)) m] \<and> body_op m = rpc_op_code RPC_OP_CLEAR \<and>
      clr_index (dec_clear m) = i \<and> px_rpc_get_id (dec_clear m) = idn \<and> px_rpc_get_mdtname (dec_clear m) = mdt"
proof -
  obtain pzd where pzd: "ccc_ptr s = Some pzd" "pzd_ok (m_bufs s) pzd" using px_invE [OF assms(1)] .
  then have le: "rec_nxt pzd \<le> rec_cnt pzd" and z: "zmq_srv pzd"
    using assms(2) by (simp_all add: pzd_ok_def px_ready_def)
  note nil = px_pending_Nil [OF assms(1) pzd(1), of L]
  have L: "sends_ok L" "allocs_ok L" "sockopts_ok L" "w_in s = wire [ack_msg e] @ rest"
    using assms(6) by (simp_all add: replied_in_def)
  have call: "lcap_changelog_clear L mdt idn i s = px_changelog_clear L mdt idn i s"
    by (simp add: lcap_changelog_clear_def with_ops_proxy [OF assms(1)])
  show ?thesis
  proof (cases "rec_nxt pzd = rec_cnt pzd")
    case False
    then show ?thesis using nil le pzd(1) call by (simp add: px_changelog_clear_def get_pzd_def)
  next
    case True
    let ?m = "enc_clear (cl_clear_pack mdt idn i)"
    define u where "u = s\<lparr>w_log := Ev_alloc (sizeof_clear + length idn + length mdt + 2) True # w_log s\<rparr>"
    obtain evs where send: "px_rpc_send L pzd ?m u = (0, u\<lparr>w_log := evs @ w_log u\<rparr>)"
        and out: "out_run [] (rev evs) = ([px_frames pzd ?m], [])"
      using px_rpc_send_ok [OF L(1) z] by blast
    obtain evs' where q: "list_all quiet_event evs'" and ack: "cl_ack_retcode L (u\<lparr>w_log := evs @ w_log u\<rparr>) =
        Ok e (u\<lparr>w_in := rest, w_log := evs' @ evs @ w_log u\<rparr>)"
      using cl_ack_retcode_wire [OF L(3) _ assms(7), of "u\<lparr>w_log := evs @ w_log u\<rparr>" rest] L(4)
      by (auto simp: u_def)
    let ?t = "u\<lparr>w_in := rest, w_log := evs' @ evs @ w_log u\<rparr>"
    have "emits s u []" by (rule emits_quiet [of _ "[Ev_alloc _ True]"]) (simp_all add: u_def)
    moreover have "emits u (u\<lparr>w_log := evs @ w_log u\<rparr>) [px_frames pzd ?m]" using out by (auto simp: emits_def)
    ultimately have "emits s (u\<lparr>w_log := evs @ w_log u\<rparr>) [px_frames pzd ?m]" using emits_trans by fastforce
    then have "emits s ?t [px_frames pzd ?m]" by (rule emits_more [rotated 2, OF _ _ q]) simp
    moreover have "px_changelog_clear L mdt idn i s = Ok e ?t"
      using pzd(1) True send ack L(2) assms(5)
      by (simp add: px_changelog_clear_def get_pzd_def alloc_def allocs_ok_def u_def)
    moreover have "world.more ?t = world.more s" "w_in ?t = rest" by (simp_all add: u_def)
    moreover have "clr_index (cl_clear_pack mdt idn i) = i" by (simp add: cl_clear_pack_def)
    moreover have "\<not> px_pending L s \<noteq> []" using nil True by simp
    ultimately show ?thesis
      unfolding if_not_P [OF \<open>\<not> px_pending L s \<noteq> []\<close>]
      using call pzd(1) clear_pack_facts [OF assms(3,4), of i] by (intro exI [of _ ?t] exI [of _ ?m]) simp
  qed
qed

theorem client_clear_witness:
  "\<exists>t m. lcap_changelog_clear demo_libs [77, 48] [99, 108, 49] 7 (demo_client_ctx (Some demo_pzd) (wire [ack_msg 0])) =
      Ok 0 t \<and> emits (demo_client_ctx (Some demo_pzd) (wire [ack_msg 0])) t [px_frames demo_pzd m] \<and>
      clr_index (dec_clear m) = 7 \<and> px_rpc_get_id (dec_clear m) = [99, 108, 49] \<and>
      px_rpc_get_mdtname (dec_clear m) = [77, 48]"
proof -
  let ?s = "demo_client_ctx (Some demo_pzd) (wire [ack_msg 0] @ [])"
  have r: "replied_in demo_libs [ack_msg 0] [] ?s" by (rule demo_replied) simp_all
  have "the (ccc_ptr ?s) = demo_pzd" by (simp add: demo_client_ctx_def)
  then show ?thesis
    using client_clear [OF demo_px(1,2) _ _ _ r, of "[99, 108, 49]" "[77, 48]" 7]
    unfolding demo_px(3) by (simp add: in_int32_def) blast
qed

subsection \<open>Registration\<close>

definition zmq_up :: "libs \<Rightarrow> bool" where
  "zmq_up L \<longleftrightarrow> (\<forall>h. lib_ctx_new L h = 0 \<and> lib_socket L h = 0 \<and> lib_connect L h = 0)"

definition closes :: "'a world_scheme \<Rightarrow> nat" where
  "closes s = count_list (w_log s) Ev_zmq_close"

definition bufs_below :: "lcap_cl_ctx \<Rightarrow> bool" where
  "bufs_below s \<longleftrightarrow> (\<forall>a. m_bufs s a \<noteq> None \<longrightarrow> a < m_buf_brk s)"

lemma start_pack_facts:
  fixes flags :: nat and start :: "64 word"
  assumes "0 \<notin> set mdt" "length mdt < 128"
  defines "m \<equiv> enc_register (cl_start_pack flags mdt start)"
  shows "length m = sizeof_register" "body_op m = rpc_op_code RPC_OP_START"
    "dec_register m = cl_start_pack flags mdt start" "c_str (reg_mdtname (dec_register m)) = mdt"
proof -
  have l: "length (reg_mdtname (cl_start_pack flags mdt start)) = 128" by (simp add: cl_start_pack_def)
  then show "length m = sizeof_register" by (simp add: m_def)
  show "body_op m = rpc_op_code RPC_OP_START"
    by (rule body_op_mk_hdr) (simp add: m_def cl_start_pack_def)
  show d: "dec_register m = cl_start_pack flags mdt start"
    using dec_enc_register [OF l, of "[]"] by (simp add: m_def)
  have "reg_mdtname (cl_start_pack flags mdt start) = mdt @ 0 # replicate (127 - length mdt) 0"
    using assms(2) by (simp add: cl_start_pack_def flip: replicate_Suc)
  with assms(1) d show "c_str (reg_mdtname (dec_register m)) = mdt" by simp
qed

text \<open>The private data and the calls made when the socket is connected.\<close>

definition started_pzd :: "bytes \<Rightarrow> px_zmq_data" where
  "started_pzd mdt = \<lparr>zmq_ctx = True, zmq_srv = True, rec_buff = None,
     px_records = Some (replicate DEFAULT_CACHE_SIZE None), rec_nxt = 0, rec_cnt = 0,
     rec_mdt_len = length mdt, rec_mdt = mdt\<rparr>"

lemma pzd_init_up:
  assumes "zmq_up L" "allocs_ok L"
  shows "pzd_init L (Some mdt) s =
    (let s = s\<lparr>w_log := Ev_zmq_socket True # Ev_zmq_ctx True # w_log s\<rparr>
     in if length mdt > 128
        then Ok (Inl (- EINVAL)) (s\<lparr>w_log := Ev_zmq_term # Ev_zmq_close # w_log s\<rparr>)
        else if length mdt = 128 then Bad Out_of_bounds s
        else Ok (Inr (started_pzd mdt)) (s\<lparr>w_log := Ev_alloc (DEFAULT_CACHE_SIZE * 8) True # w_log s\<rparr>))"
  using assms
  by (simp add: pzd_init_def zmq_up_def allocs_ok_def alloc_def pzd_cache_grow_def pzd_destroy_def pzd_zero_def
      started_pzd_def resize_def free_buf_def Let_def)

text \<open>(C36) Registering with the daemon sends one START request that carries the flags, the first record
  and the MDT name, and returns the code of the acknowledgement. When it is not negative the context
  is ready with nothing cached. When the daemon refuses, the context is gone although its socket
  was not closed and its private data not freed.\<close>

theorem client_start:
  assumes L: "zmq_up L" "allocs_ok L" "sends_ok L"
    and mdt: "0 \<notin> set mdt" "length mdt < 128" and fl: "flags AND LCAP_CL_DIRECT = 0"
    and s: "w_in s = wire [ack_msg e] @ rest" "in_int32 e" "bufs_below s"
  shows "\<exists>t m. lcap_changelog_start L flags (Some mdt) start s = Ok e t \<and> emits s t [[mdt, m]] \<and>
    body_op m = rpc_op_code RPC_OP_START \<and> c_str (reg_mdtname (dec_register m)) = mdt \<and>
    reg_start (dec_register m) = start \<and> reg_flags (dec_register m) = of_nat flags \<and> w_in t = rest \<and>
    (if e < 0 then \<not> cl_live t \<and> ccc_ptr t = Some (started_pzd mdt) \<and> closes t = closes s
     else px_inv t \<and> px_ready t \<and> px_pending L t = [])"
proof -
  let ?m = "enc_register (cl_start_pack flags mdt start)" and ?p = "started_pzd mdt"
  let ?pre = "[Ev_zmq_connect 0, Ev_alloc (DEFAULT_CACHE_SIZE * 8) True, Ev_zmq_socket True, Ev_zmq_ctx True,
    Ev_alloc sizeof_pzd True, Ev_alloc sizeof_cl_ctx True]"
  define u where "u = s\<lparr>w_log := ?pre @ w_log s, cl_live := True, ccc_ptr := Some ?p, ccc_ll := False,
    ccc_ops := Some cl_ops_proxy\<rparr>"
  let ?evs = "[Ev_recv (ack_msg e) False, Ev_send ?m False 0, Ev_send mdt True 0]"
  define t where "t = u\<lparr>w_in := rest, w_log := ?evs @ w_log u, cl_live := \<not> e < 0\<rparr>"
  have code: "sint (ack_pr_retcode (dec_ack (take sizeof_ack (ack_msg e)))) = e"
    using ack_code [OF s(2)] by (metis length_ack_msg order_refl take_all)
  have "lcap_changelog_start L flags (Some mdt) start s = Ok e t"
    using L fl s(1) code mdt(2) pzd_init_up [OF L(1,2), of mdt]
    by (simp add: lcap_changelog_start_def px_changelog_start_def alloc_def zmq_up_def Let_def u_def t_def
        allocs_ok_def px_rpc_send_def send_frames_ok started_pzd_def zmq_msg_recv_def)
  moreover have "emits s t [[mdt, ?m]]"
    unfolding emits_def by (rule exI [of _ "?evs @ ?pre"]) (simp add: u_def t_def)
  moreover have "closes t = closes s" by (simp add: closes_def u_def t_def)
  moreover have "px_inv t \<and> px_ready t \<and> px_pending L t = []" if "\<not> e < 0"
    using that s(3)
    by (simp add: px_inv_def px_ready_def px_pending_def u_def t_def started_pzd_def pzd_ok_def unread_def bufs_below_def)
  moreover have "w_in t = rest" "cl_live t \<longleftrightarrow> \<not> e < 0" "ccc_ptr t = Some ?p" by (simp_all add: t_def u_def)
  moreover have "reg_start (dec_register ?m) = start" "reg_flags (dec_register ?m) = of_nat flags"
    unfolding start_pack_facts(3) [OF mdt] by (simp_all add: cl_start_pack_def)
  ultimately show ?thesis
    using start_pack_facts(2,4) [OF mdt, of flags start] by (intro exI [of _ t] exI [of _ ?m]) simp
qed

lemma demo_zmq_up: "zmq_up demo_libs" "lib_getsockopt demo_libs h = 0"
  by (simp_all add: zmq_up_def demo_libs_def)

theorem client_start_witness:
  "\<exists>t. lcap_changelog_start demo_libs 10 (Some [77, 48]) 0 (demo_client_ctx None (wire [ack_msg (- 19)])) = Ok (- 19) t \<and>
     \<not> cl_live t \<and> closes t = 0 \<and> ccc_ptr t \<noteq> None"
proof -
  let ?s = "demo_client_ctx None (wire [ack_msg (- 19)] @ [])"
  have "w_in ?s = wire [ack_msg (- 19)] @ []" "bufs_below ?s" "closes ?s = 0"
    by (simp_all add: demo_client_ctx_def bufs_below_def closes_def)
  moreover have "in_int32 (- 19)" by (simp add: in_int32_def)
  ultimately show ?thesis
    using client_start [OF demo_zmq_up(1) demo_libs_ok(1,2), of "[77, 48]" 10 ?s "- 19" "[]" 0] by auto
qed

text \<open>(C37) The MDT name is copied into an array of 128 bytes. A name of more than 128 characters is
  refused with -EINVAL, everything opened is closed and no context is left. A name of exactly 128
  characters passes the test and its terminating NUL is written after the array.\<close>

theorem client_start_name_bound:
  assumes "zmq_up L" "allocs_ok L" "flags AND LCAP_CL_DIRECT = 0" "length mdt \<ge> 128"
  shows "if length mdt = 128 then \<exists>t. lcap_changelog_start L flags (Some mdt) start s = Bad Out_of_bounds t
    else \<exists>t. lcap_changelog_start L flags (Some mdt) start s = Ok (- EINVAL) t \<and> \<not> cl_live t \<and>
      ccc_ptr t = None \<and> closes t = closes s + 1 \<and> emits s t []"
proof (cases "length mdt = 128")
  case True
  then show ?thesis
    using assms pzd_init_up [OF assms(1,2), of mdt]
    by (simp add: lcap_changelog_start_def px_changelog_start_def alloc_def allocs_ok_def Let_def)
next
  case False
  let ?evs = "[Ev_zmq_term, Ev_zmq_close, Ev_zmq_socket True, Ev_zmq_ctx True, Ev_alloc sizeof_pzd True,
    Ev_alloc sizeof_cl_ctx True]"
  define t where "t = s\<lparr>w_log := ?evs @ w_log s, cl_live := False, ccc_ptr := None, ccc_ll := False,
    ccc_ops := Some cl_ops_proxy\<rparr>"
  have "lcap_changelog_start L flags (Some mdt) start s = Ok (- EINVAL) t"
    using assms False pzd_init_up [OF assms(1,2), of mdt]
    by (simp add: lcap_changelog_start_def px_changelog_start_def alloc_def allocs_ok_def Let_def t_def)
  moreover have "emits s t []" by (rule emits_quiet [of _ ?evs]) (simp_all add: t_def quiet_event_def)
  ultimately show ?thesis using False by (auto simp: t_def closes_def)
qed

theorem client_start_name_bound_witness:
  "\<exists>t. lcap_changelog_start demo_libs 10 (Some (replicate 128 65)) 0 (demo_client_ctx None []) = Bad Out_of_bounds t"
  using client_start_name_bound [OF demo_zmq_up(1) demo_libs_ok(1), of 10 "replicate 128 65" 0 "demo_client_ctx None []"]
  by simp

end
