(* ===== verification/System.thy ===== *)
theory System
  imports Reader_Spec Client_Props
begin

text \<open>
  The parts together: the broker, a reader for each MDT and any number of clients, connected by
  ZeroMQ. A state holds the state of the broker and of each reader and the messages in flight; a
  step delivers one of them, lets a client send or a reader read its changelog, in any order. Messages
  of one sender to one receiver stay in order. A fault of a thread ends the daemon.
\<close>

subsection \<open>Sockets\<close>

text \<open>
  What ZeroMQ does to the frames of a message between the sockets of the parts: the client's is a
  REQ socket, the broker's a ROUTER and a reader's a DEALER whose identity is the name of its MDT.
\<close>

record zmq_links =
  req_in :: "bytes \<Rightarrow> bytes list \<Rightarrow> bytes list" \<comment> \<open>sent by the REQ peer of that identity, received by the ROUTER\<close>
  dealer_in :: "bytes \<Rightarrow> bytes list \<Rightarrow> bytes list" \<comment> \<open>sent by the DEALER peer, received by the ROUTER\<close>
  dealer_out :: "bytes \<Rightarrow> bytes list \<Rightarrow> bytes list option" \<comment> \<open>sent by the ROUTER, received by that DEALER\<close>
  req_out :: "bytes \<Rightarrow> bytes list \<Rightarrow> bytes list option" \<comment> \<open>sent by the ROUTER, received by that REQ\<close>

text \<open>zmq_socket(3): a REQ socket adds an empty frame and takes it off the reply, a ROUTER prepends
  the identity of the sender and takes the identity of the receiver off, a DEALER changes nothing.\<close>

definition zmq_envelopes :: "zmq_links \<Rightarrow> bool" where
  "zmq_envelopes Z \<longleftrightarrow> (\<forall>i m. req_in Z i m = i # [] # m \<and> dealer_in Z i m = i # m \<and>
     dealer_out Z i (i # m) = Some m \<and> req_out Z i (i # [] # m) = Some m)"

text \<open>One message handed to a server by its socket.\<close>

definition broker_gets :: "libs \<Rightarrow> bytes list \<Rightarrow> lcap_ctx \<Rightarrow> (int, lcap_ctx) res" where
  "broker_gets L fs ctx =
     lcap_rpc_recv_once L LCAP_RECV_NONBLOCK (lcapd_process_request L) (ctx\<lparr>w_in := wire fs\<rparr>)"

definition reader_gets :: "libs \<Rightarrow> bytes list \<Rightarrow> reader_env \<Rightarrow> (int, reader_env) res" where
  "reader_gets L fs s =
     lcap_rpc_recv_once L (LCAP_RECV_NONBLOCK OR LCAP_RECV_NO_ENVELOPE) (changelog_reader_rpc_hdl L)
       (s\<lparr>w_in := wire fs\<rparr>)"

lemma emits_same_log: "w_log s' = evs @ w_log s \<Longrightarrow> list_all quiet_event evs \<Longrightarrow> emits s' t ms \<Longrightarrow> emits s t ms"
  using emits_trans [of s s' "[]" t ms] emits_quiet [of s' evs s] by simp

lemma broker_gets_spec:
  assumes "sends_ok L" "allocs_ok L" "broker_inv ctx"
    and "filter (\<lambda>f. f \<noteq> []) fs = [r, f, b]" "length (concat fs) + 8 < 2 ^ 63"
    and "broker_spec (cc_config ctx) (cc_rcid ctx) (cid r) (cid f) b = (tab, out)"
    and returns: "broker_fault (cc_config ctx) (cid f) b = None \<or> (\<exists>rc t. broker_gets L fs ctx = Ok rc t)"
  shows "\<exists>t. broker_gets L fs ctx = Ok 0 t \<and> broker_inv t \<and> cc_config t = cc_config ctx \<and> cc_rcid t = tab \<and>
    emits ctx t out \<and> w_in t = []"
proof -
  let ?req = "request_of True fs"
  let ?c = "ctx\<lparr>w_in := wire fs\<rparr>"
  have "b \<in> set (filter (\<lambda>f. f \<noteq> []) fs)" using assms(4) by simp
  then have fs: "fs \<noteq> []" "b \<noteq> []" by auto
  have req: "lr_remote ?req = Some (cid r)" "lr_forward ?req = Some (cid f)" "lr_body ?req = b"
      "lr_body_len ?req = length b"
    using fs(2) assms(4) by (simp_all add: request_of_def body_of_def)
  obtain evs where once: "list_all quiet_event evs"
      "broker_gets L fs ctx = lcapd_process_request L ?req (?c\<lparr>w_in := [], w_log := evs @ w_log ctx\<rparr>)"
    using lcap_rpc_recv_once_wire [of L fs ?c "[]" LCAP_RECV_NONBLOCK "lcapd_process_request L"] assms(2,5) fs req
    by (auto simp: broker_gets_def)
  define d where "d = ?c\<lparr>w_in := [], w_log := evs @ w_log ctx\<rparr>"
  have d: "broker_inv d" "cc_config d = cc_config ctx" "cc_rcid d = cc_rcid ctx" "w_log d = evs @ w_log ctx"
    using assms(3) broker_inv_more [of ctx d] by (simp_all add: d_def)
  have "req_ok LCAP_RECV_NONBLOCK ?req" using req fs by (simp add: req_ok_def)
  from lcapd_process_request_handled [OF d(1) this req(2), of L]
  have h: "handled (broker_fault (cc_config ctx) (cid f) b) d (lcapd_process_request L ?req d)"
    using d(2) req(3) by simp
  then have none: "broker_fault (cc_config ctx) (cid f) b = None"
    using returns once(2) by (auto simp: handled_def d_def split: option.splits)
  with h have inv: "handled None d (lcapd_process_request L ?req d)" by simp
  have "r \<in> set fs" using assms(4) by (metis filter_is_subset list.set_intros(1) subsetD)
  then have "length r \<le> length (concat fs)" by (auto dest!: split_list)
  then have "refines_spec d (lcapd_process_request L ?req d) (tab, out)"
    using lcapd_process_request_refines [OF assms(1,2) d(1) req(1) _ req(2)] req assms(5,6) none d by simp
  with inv obtain t where t: "lcapd_process_request L ?req d = Ok 0 t" "broker_inv t" "cc_config t = cc_config ctx"
      "cc_rcid t = tab" "emits d t out" "w_in t = []"
    using d by (auto simp: refines_spec_def handled_def kept_ctx_def d_def)
  from emits_same_log [OF d(4) once(1) t(5)] t once(2) show ?thesis by (auto simp: d_def)
qed

definition demo_links :: zmq_links where
  "demo_links = \<lparr>req_in = (\<lambda>i m. i # [] # m), dealer_in = (\<lambda>i m. i # m),
     dealer_out = (\<lambda>i m. if take 1 m = [i] then Some (drop 1 m) else None),
     req_out = (\<lambda>i m. if take 2 m = [i, []] then Some (drop 2 m) else None)\<rparr>"

subsection \<open>The system\<close>

text \<open>A message in flight: its peer, and the frames its receiver gets.\<close>

datatype packet = To_broker bytes "bytes list" | From_broker bytes "bytes list"

primrec link :: "packet \<Rightarrow> bool \<times> bytes" where
  "link (To_broker i fs) = (True, i)"
| "link (From_broker i fs) = (False, i)"

text \<open>What ended the daemon: a message to the broker or to a reader, or the end of a reader.\<close>

datatype crash = Broker_crash "bytes list" fault | Reader_crash bytes "bytes list" fault | End_crash bytes fault

text \<open>
  The readers are under the names of their MDTs, which are the identities of their sockets.
  \<open>sys_busy\<close> are the clients that wait for a reply.
\<close>

record system =
  sys_broker :: lcap_ctx
  sys_readers :: "bytes \<rightharpoonup> reader_env"
  sys_stopped :: "bytes set"
  sys_net :: "packet list"
  sys_busy :: "bytes set"
  sys_fault :: "crash option"

text \<open>All messages a thread has sent, those it sent between two states, and the frames of one not yet complete.\<close>

definition sent :: "'a world_scheme \<Rightarrow> bytes list list" where
  "sent s = fst (out_run [] (rev (w_log s)))"

definition unsent :: "'a world_scheme \<Rightarrow> bytes list" where
  "unsent s = snd (out_run [] (rev (w_log s)))"

definition new_msgs :: "'a world_scheme \<Rightarrow> 'a world_scheme \<Rightarrow> bytes list list" where
  "new_msgs s t = drop (length (sent s)) (sent t)"

text \<open>The ROUTER socket passes a message to the peer its first frame names, and drops it when there is none.\<close>

definition route :: "zmq_links \<Rightarrow> bytes set \<Rightarrow> bytes list \<Rightarrow> packet list" where
  "route Z R m =
     (case m of
        [] \<Rightarrow> []
      | i # _ \<Rightarrow>
          (case (if i \<in> R then dealer_out Z i m else req_out Z i m) of
             None \<Rightarrow> [] | Some fs \<Rightarrow> [From_broker i fs]))"

definition takes :: "system \<Rightarrow> packet \<Rightarrow> packet list \<Rightarrow> bool" where
  "takes S p net \<longleftrightarrow> (\<exists>xs ys. sys_net S = xs @ p # ys \<and> net = xs @ ys \<and> link p \<notin> link ` set xs)"

text \<open>A request as the client library writes it: the MDT, and an operation with all its fields.\<close>

definition request_body :: "bytes \<Rightarrow> bool" where
  "request_body b \<longleftrightarrow> rpc_op_of (body_op b) \<in> Some ` {RPC_OP_START, RPC_OP_DEQUEUE, RPC_OP_CLEAR, RPC_OP_FINI}
     \<and> sizeof_hdr \<le> length b \<and> rpc_expected_length (body_op b) \<le> length b \<and> length b < 2 ^ 31"

text \<open>zmq_setsockopt(3): an identity has between 1 and 255 bytes.\<close>

definition identity :: "bytes \<Rightarrow> bool" where
  "identity i \<longleftrightarrow> i \<noteq> [] \<and> length i \<le> 255"

text \<open>
  How the loop of a reader is left: by a termination signal or a failed poll, or by a changelog that failed.
\<close>

definition leaves :: "libs \<Rightarrow> reader_env \<Rightarrow> int \<Rightarrow> reader_env \<Rightarrow> bool" where
  "leaves L s rc t \<longleftrightarrow> (rc \<le> 0 \<and> t = s) \<or> (rc < 0 \<and> changelog_reader_enqueue L s = Ok rc t)"

text \<open>
  The steps. A client with a REQ socket sends when it waits for nothing, and waits until it gets a
  message. With \<open>rogue\<close>, peers of any other kind send any frames at any time. A reader that leaves
  its loop tells the broker of an error, closes its socket, computes its statistics and stops.
\<close>

inductive sys_step :: "libs \<Rightarrow> zmq_links \<Rightarrow> bool \<Rightarrow> system \<Rightarrow> system \<Rightarrow> bool" for L Z rogue where
  client_send: "sys_fault S = None \<Longrightarrow> c \<notin> dom (sys_readers S) \<Longrightarrow> identity c \<Longrightarrow> c \<notin> sys_busy S \<Longrightarrow>
    mdt \<in> dom (sys_readers S) \<Longrightarrow> request_body b \<Longrightarrow>
    sys_step L Z rogue S (S\<lparr>sys_net := sys_net S @ [To_broker c (req_in Z c [mdt, b])], sys_busy := insert c (sys_busy S)\<rparr>)"
| client_recv: "sys_fault S = None \<Longrightarrow> takes S (From_broker c fs) net \<Longrightarrow> c \<notin> dom (sys_readers S) \<Longrightarrow>
    sys_step L Z rogue S (S\<lparr>sys_net := net, sys_busy := sys_busy S - {c}\<rparr>)"
| rogue_send: "sys_fault S = None \<Longrightarrow> rogue \<Longrightarrow> c \<notin> dom (sys_readers S) \<Longrightarrow> identity c \<Longrightarrow>
    sys_step L Z rogue S (S\<lparr>sys_net := sys_net S @ [To_broker c (c # fs)]\<rparr>)"
| broker_serve: "sys_fault S = None \<Longrightarrow> takes S (To_broker i fs) net \<Longrightarrow>
    broker_gets L fs (sys_broker S) = Ok rc B \<Longrightarrow>
    sys_step L Z rogue S (S\<lparr>sys_broker := B,
      sys_net := net @ concat (map (route Z (dom (sys_readers S))) (new_msgs (sys_broker S) B))\<rparr>)"
| broker_fault: "sys_fault S = None \<Longrightarrow> takes S (To_broker i fs) net \<Longrightarrow>
    broker_gets L fs (sys_broker S) = Bad e B \<Longrightarrow> e \<noteq> No_return \<Longrightarrow>
    sys_step L Z rogue S (S\<lparr>sys_fault := Some (Broker_crash fs e)\<rparr>)"
| reader_serve: "sys_fault S = None \<Longrightarrow> takes S (From_broker mdt fs) net \<Longrightarrow> sys_readers S mdt = Some s \<Longrightarrow>
    mdt \<notin> sys_stopped S \<Longrightarrow> reader_gets L fs s = Ok rc t \<Longrightarrow>
    sys_step L Z rogue S (S\<lparr>sys_readers := (sys_readers S)(mdt \<mapsto> t),
      sys_net := net @ map (\<lambda>m. To_broker mdt (dealer_in Z mdt m)) (new_msgs s t)\<rparr>)"
| reader_fault: "sys_fault S = None \<Longrightarrow> takes S (From_broker mdt fs) net \<Longrightarrow> sys_readers S mdt = Some s \<Longrightarrow>
    mdt \<notin> sys_stopped S \<Longrightarrow> reader_gets L fs s = Bad e t \<Longrightarrow>
    sys_step L Z rogue S (S\<lparr>sys_fault := Some (Reader_crash mdt fs e)\<rparr>)"
| reader_read: "sys_fault S = None \<Longrightarrow> sys_readers S mdt = Some s \<Longrightarrow> mdt \<notin> sys_stopped S \<Longrightarrow>
    changelog_reader_enqueue L s = Ok rc t \<Longrightarrow> 0 \<le> rc \<Longrightarrow>
    sys_step L Z rogue S (S\<lparr>sys_readers := (sys_readers S)(mdt \<mapsto> t)\<rparr>)"
| reader_stop: "sys_fault S = None \<Longrightarrow> sys_readers S mdt = Some s \<Longrightarrow> mdt \<notin> sys_stopped S \<Longrightarrow>
    leaves L s rc t \<Longrightarrow> reader_out_path L rc t = Ok rc' u \<Longrightarrow>
    sys_step L Z rogue S (S\<lparr>sys_readers := (sys_readers S)(mdt \<mapsto> u), sys_stopped := insert mdt (sys_stopped S),
      sys_net := sys_net S @ map (\<lambda>m. To_broker mdt (dealer_in Z mdt m)) (new_msgs s u)\<rparr>)"
| end_fault: "sys_fault S = None \<Longrightarrow> sys_readers S mdt = Some s \<Longrightarrow> mdt \<notin> sys_stopped S \<Longrightarrow>
    leaves L s rc t \<Longrightarrow> reader_out_path L rc t = Bad e u \<Longrightarrow>
    sys_step L Z rogue S (S\<lparr>sys_fault := Some (End_crash mdt e)\<rparr>)"
| read_fault: "sys_fault S = None \<Longrightarrow> sys_readers S mdt = Some s \<Longrightarrow> mdt \<notin> sys_stopped S \<Longrightarrow>
    changelog_reader_enqueue L s = Bad e t \<Longrightarrow> sys_step L Z rogue S (S\<lparr>sys_fault := Some (Reader_crash mdt [] e)\<rparr>)"

inductive_cases sys_stepE: "sys_step L Z rogue S T"

text \<open>The daemon has started: every reader has announced itself, and nothing is in flight.\<close>

definition sys_init :: "libs \<Rightarrow> system \<Rightarrow> bool" where
  "sys_init L S \<longleftrightarrow> broker_inv (sys_broker S) \<and> sys_net S = [] \<and> sys_busy S = {} \<and> sys_fault S = None \<and>
     (\<forall>mdt s. sys_readers S mdt = Some s \<longrightarrow> reader_good L s \<and> reader_device s = Some mdt)"

subsection \<open>Invariants of the reachable states\<close>

text \<open>A predicate that every step keeps holds in every state reached from one where it holds.\<close>

locale kept_by_steps =
  fixes step :: "'s \<Rightarrow> 's \<Rightarrow> bool" and good :: "'s \<Rightarrow> bool"
  assumes good_step: "step S T \<Longrightarrow> good S \<Longrightarrow> good T"
begin

lemma good_reach: "step\<^sup>*\<^sup>* S T \<Longrightarrow> good S \<Longrightarrow> good T"
  by (induction rule: rtranclp_induct) (blast intro: good_step)+

end

subsection \<open>No message can break the daemon\<close>

text \<open>The faults that can end the daemon, each with its cause in the message or in the clock.\<close>

definition crash_cause :: "lcap_cfg \<Rightarrow> (bytes \<rightharpoonup> reader_env) \<Rightarrow> crash \<Rightarrow> bool" where
  "crash_cause cfg R x \<longleftrightarrow>
     (case x of
        Broker_crash fs e \<Rightarrow> \<exists>f b. ci_data f \<in> set fs \<and> body_in (wire fs) b \<and> broker_fault cfg f b = Some e
      | Reader_crash mdt fs e \<Rightarrow> \<exists>s b. R mdt = Some s \<and> body_in (wire fs) b \<and> request_fault (re_cfg s) b e
      | End_crash mdt e \<Rightarrow> e = Signed_overflow)"

definition sys_good :: "libs \<Rightarrow> system \<Rightarrow> bool" where
  "sys_good L S \<longleftrightarrow> broker_inv (sys_broker S) \<and> (\<forall>s \<in> ran (sys_readers S). reader_good L s) \<and>
     pred_option (crash_cause (cc_config (sys_broker S)) (sys_readers S)) (sys_fault S)"

lemma frames_wire [simp]: "frames (wire fs) = fs"
  by (induction fs rule: wire.induct) simp_all

lemma broker_gets_good:
  assumes "broker_inv ctx"
  shows "case broker_gets L fs ctx of Ok rc t \<Rightarrow> broker_inv t \<and> cc_config t = cc_config ctx
    | Bad e t \<Rightarrow> e = No_return \<or> crash_cause (cc_config ctx) R (Broker_crash fs e)"
proof -
  let ?c = "ctx\<lparr>w_in := wire fs\<rparr>"
  have "broker_inv ?c \<and> cc_config ?c = cc_config ctx \<and> suffix (w_in ?c) (wire fs)" using assms broker_inv_more by simp
  from broker.once_served [OF this, of L] show ?thesis
    by (auto simp: broker_gets_def broker_bad_def crash_cause_def made_of_def split: res.splits)
qed

lemma reader_gets_good:
  assumes "reader_good L s" "ZMQ_DONTWAIT L = 1" "R mdt = Some s"
  shows "case reader_gets L fs s of Ok rc t \<Rightarrow> reader_good L t | Bad e t \<Rightarrow> crash_cause cfg R (Reader_crash mdt fs e)"
proof -
  have "serving L (re_cfg s) (wire fs) (s\<lparr>w_in := wire fs\<rparr>)" using reader_good_more [OF assms(1)] by (simp add: serving_def)
  from reader.once_served [OF this] assms(2,3) show ?thesis
    by (auto simp: reader_gets_def serving_def reader_bad_def crash_cause_def split: res.splits)
qed

lemma ran_updD: "x \<in> ran (m(k \<mapsto> v)) \<Longrightarrow> x = v \<or> x \<in> ran m"
  by (auto simp: ran_def split: if_splits)

lemma reader_good_closed: "reader_good L (s\<lparr>w_log := l, re_sock := a, re_zctx := b\<rparr>) = reader_good L s"
  by (simp add: reader_good_def reader_inv_def limit_def reader_device_def buckets_of_def peers_of_def)

text \<open>The end of a reader: a message about an error, then nothing more.\<close>

lemma reader_out_path_steps:
  assumes "reader_out_path L rc s = Ok rc' u"
  obtains v where "if rc = 0 then v = s else \<exists>x. changelog_reader_signal L rc s = Ok x v"
    "u = v\<lparr>w_log := w_log u, re_sock := False, re_zctx := False\<rparr>"
    "\<exists>evs. w_log u = evs @ w_log v \<and> list_all quiet_event evs"
proof -
  obtain x v where v: "(if rc \<noteq> 0 then changelog_reader_signal L rc s else Ok 0 s) = Ok x v"
    and u: "bindR (changelog_reader_release L v) (\<lambda>_ s. Ok rc s) = Ok rc' u"
    using assms by (cases "if rc \<noteq> 0 then changelog_reader_signal L rc s else Ok 0 s") (simp_all add: reader_out_path_def)
  obtain y where "changelog_reader_release L v = Ok y u"
    using u by (cases "changelog_reader_release L v") simp_all
  note rel = run_OkD [OF changelog_reader_release_run this]
  show thesis by (rule that [of v]) (use v rel in \<open>auto split: if_splits\<close>)
qed

lemma reader_out_path_good:
  assumes "reader_good L s" "reader_out_path L rc s = Ok rc' u"
  shows "reader_good L u"
proof -
  obtain v where v: "if rc = 0 then v = s else \<exists>x. changelog_reader_signal L rc s = Ok x v"
    and u: "u = v\<lparr>w_log := w_log u, re_sock := False, re_zctx := False\<rparr>"
    using reader_out_path_steps [OF assms(2)] by blast
  obtain dev where "reader_device s = Some dev" "length dev < sizeof_mdtname" using assms(1) by (auto simp: reader_good_def)
  then have "world.more v = world.more s"
    using changelog_reader_signal_returns [of s dev L rc] v by (auto split: if_splits)
  then have "reader_good L v" by (rule reader_good_more [OF assms(1)])
  then show ?thesis by (subst u) (simp only: reader_good_closed)
qed

lemma leaves_good:
  assumes "reader_good L s" "leaves L s rc t"
  shows "reader_good L t"
  using changelog_reader_enqueue_good [OF assms(1)] assms by (auto simp: leaves_def)

lemma sys_step_good:
  assumes "sys_step L Z rogue S T" "sys_good L S" "ZMQ_DONTWAIT L = 1"
  shows "sys_good L T"
proof -
  have broker: "broker_inv (sys_broker S)" and readers: "\<And>m s. sys_readers S m = Some s \<Longrightarrow> reader_good L s"
    using assms(2) by (auto simp: sys_good_def ran_def)
  note enq = changelog_reader_enqueue_good [unfolded run_def]
  note [dest!] = ran_updD
  from assms(1) show ?thesis
  proof cases
    case (broker_serve i fs net rc B)
    then show ?thesis using broker_gets_good [OF broker, where L = L and fs = fs] assms(2) by (simp add: sys_good_def)
  next
    case (broker_fault i fs net e B)
    then show ?thesis using broker_gets_good [OF broker, where L = L and fs = fs and R = "sys_readers S"] assms(2) by (simp add: sys_good_def)
  next
    case (reader_serve mdt fs net s rc t)
    then have "reader_good L t"
      using reader_gets_good [where fs = fs and R = "sys_readers S", OF readers [OF reader_serve(4)] assms(3) reader_serve(4)] by simp
    then show ?thesis using reader_serve assms(2) by (auto simp: sys_good_def)
  next
    case (reader_fault mdt fs net s e t)
    then have "crash_cause (cc_config (sys_broker S)) (sys_readers S) (Reader_crash mdt fs e)"
      using reader_gets_good [where fs = fs and R = "sys_readers S", OF readers [OF reader_fault(4)] assms(3) reader_fault(4)] by simp
    then show ?thesis using reader_fault assms(2) by (auto simp: sys_good_def)
  next
    case (reader_read mdt s rc t)
    then show ?thesis using enq [OF readers, of mdt s] assms(2) by (auto simp: sys_good_def)
  next
    case (reader_stop mdt s rc t rc' u)
    then have "reader_good L u" using reader_out_path_good leaves_good readers by blast
    then show ?thesis using reader_stop assms(2) by (auto simp: sys_good_def)
  next
    case (end_fault mdt s rc t e u)
    then have "reader_good L t" using leaves_good readers by blast
    then have "named t" by (simp add: reader_good_def named_def)
    then have "e = Signed_overflow"
      using run_BadD [OF reader_out_path_run end_fault(6)] by (simp add: stats_fault_def)
    then show ?thesis using end_fault assms(2) by (simp add: sys_good_def crash_cause_def)
  next
    case (read_fault mdt s e t)
    then show ?thesis using enq [OF readers, of mdt s] by simp
  qed (use assms(2) in \<open>simp_all add: sys_good_def\<close>)
qed

lemma sys_init_good: "sys_init L S \<Longrightarrow> sys_good L S"
  by (auto simp: sys_init_def sys_good_def ran_def)

text \<open>The hypothesis on the libraries is part of the predicate, so that it holds for all of them.\<close>

interpretation sys_safety: kept_by_steps "sys_step L Z rogue" "\<lambda>S. sys_good L S \<and> ZMQ_DONTWAIT L = 1" for L Z rogue
  by unfold_locales (blast intro: sys_step_good)

end
