(* ===== verification/Reader_Quiet.thy ===== *)
theory Reader_Quiet
  imports Reader_Enqueue
begin

text \<open>
  External calls an operation does not make. The locales fix a kind of calls and assume which calls are not of that
  kind; then reading the changelog, or a whole handler, makes none of them. They are interpreted for the calls
  that send (reading sends nothing) and for the calls that clear the changelog (only a CLEAR makes one).
\<close>

lemma emits_comp: "emits s t [] \<Longrightarrow> emits t u ms \<Longrightarrow> emits s u ms"
  using emits_trans [of s t "[]" u ms] by simp

subsection \<open>Reading the changelog\<close>

locale unwatched =
  fixes watched :: "event \<Rightarrow> bool"
  assumes reading_unwatched: "\<not> watched (Ev_alloc n b)" "\<not> watched (Ev_term_sig g)" "\<not> watched (Ev_ll_recv x)"
    "\<not> watched (Ev_ll_start f d r rc)" "\<not> watched Ev_ll_fini"
begin

definition adds :: "event list \<Rightarrow> event list \<Rightarrow> bool" where
  "adds l l' \<longleftrightarrow> (\<exists>evs. l' = evs @ l \<and> list_all (\<lambda>e. \<not> watched e) evs)"

lemma adds_refl [simp]: "adds l l"
  by (simp add: adds_def)

lemma adds_Cons: "\<not> watched e \<Longrightarrow> adds l l' \<Longrightarrow> adds l (e # l')"
  unfolding adds_def by (elim exE, rename_tac evs, rule_tac x = "e # evs" in exI) simp

lemma adds_trans: "adds l l' \<Longrightarrow> adds l' l'' \<Longrightarrow> adds l l''"
  by (auto simp: adds_def)

lemma adds_read [simp]:
  "adds l (Ev_alloc n b # l)" "adds l (Ev_term_sig g # l)" "adds l (Ev_ll_recv x # l)" "adds l (Ev_ll_start f d r rc # l)"
  "adds l (Ev_ll_fini # l)"
  by (simp_all add: adds_Cons reading_unwatched)

lemma adds_filter: "adds l l' \<Longrightarrow> filter watched l' = filter watched l"
  by (auto simp: adds_def list_all_iff filter_empty_conv)

text \<open>The operation \<open>m\<close>, started in \<open>s\<close>, makes no such call, however it ends.\<close>

definition silent :: "'a world_scheme \<Rightarrow> ('b, 'c world_scheme) res \<Rightarrow> bool" where
  "silent s m \<longleftrightarrow> adds (w_log s) (w_log (state_of m))"

lemma silent_simps [simp]:
  "silent s (Ok x t) = adds (w_log s) (w_log t)" "silent s (Bad e t) = adds (w_log s) (w_log t)"
  by (simp_all add: silent_def)

lemma silent_bind:
  assumes "silent s m" "\<And>x t. m = Ok x t \<Longrightarrow> silent t (f x t)"
  shows "silent s (bindR m f)"
proof (cases m)
  case (Ok x t)
  then show ?thesis using assms(1) assms(2) [OF Ok] by (auto simp: silent_def intro: adds_trans)
qed (use assms(1) in simp)

text \<open>The operation may start in a state that differs from \<open>s\<close>.\<close>

lemma silent_at: "silent t m \<Longrightarrow> adds (w_log s) (w_log t) \<Longrightarrow> silent s m"
  by (auto simp: silent_def intro: adds_trans)

lemma silent_mem:
  "silent s (get_bkt a s)" "silent s (upd_bkt a g s)" "silent s (get_client a s)" "silent s (upd_client a k s)"
  "silent s (node_next a s)"
  by (simp_all add: get_bkt_def upd_bkt_def get_client_def upd_client_def node_next_def split: option.splits)

lemma silent_lists: "silent s (on_buckets f a s)" "silent s (on_peers f a s)"
  by (simp_all add: on_list_def split: res.splits)

lemma alloc_log: "w_log (snd (alloc L n s)) = Ev_alloc n (fst (alloc L n s)) # w_log s"
  by (simp add: alloc_def Let_def)

lemmas silent_calls = silent_bind silent_at [OF silent_mem(1)] silent_at [OF silent_mem(2)] silent_at [OF silent_mem(3)]
  silent_at [OF silent_mem(4)] silent_at [OF silent_mem(5)] silent_at [OF silent_lists(1)] silent_at [OF silent_lists(2)]

lemma rec_bucket_add_silent: "silent s (rec_bucket_add L s)"
  unfolding rec_bucket_add_def Let_def split_def
  by (auto intro!: silent_calls simp: alloc_log)

lemma changelog_reader_rec_store_silent: "silent s (changelog_reader_rec_store L r s)"
  unfolding changelog_reader_rec_store_def Let_def
  by (auto intro!: silent_calls rec_bucket_add_silent split: option.splits)

lemma enqueue_loop_silent: "silent s (enqueue_loop L bsz n xs s)"
proof (induction xs arbitrary: n s)
  case (Cons x xs)
  show ?case
  proof (cases x)
    case (Inr r)
    define u where "u = s\<lparr>w_log := Ev_ll_recv (Inr r) # w_log s, m_changelog := xs\<rparr>"
    define v where "v = u\<lparr>w_log := Ev_term_sig (lib_term_sig L (w_log u)) # w_log u\<rparr>"
    have v: "adds (w_log s) (w_log v)" by (simp add: u_def v_def adds_Cons reading_unwatched)
    have "silent t (after_store L bsz n xs (counted L r t))" for t n
      unfolding after_store_def changelog_reader_full_def Let_def
      by (auto intro!: silent_bind silent_at [OF Cons.IH] simp: counted_def)
    then have "silent v (bindR (changelog_reader_rec_store L r v) (\<lambda>rc s.
        if rc \<noteq> 0 then Ok (rc, n) s else after_store L bsz n xs (counted L r s)))"
      by (intro silent_bind [OF changelog_reader_rec_store_silent]) simp
    from silent_at [OF this v] v silent_at [OF Cons.IH v] show ?thesis
      unfolding Inr enqueue_loop_Inr u_def [symmetric] v_def [symmetric] by simp
  qed (simp add: Let_def)
qed simp

lemma changelog_reader_enqueue_silent: "silent s (changelog_reader_enqueue L s)"
proof -
  have fin: "silent t (case y of (rc, n) \<Rightarrow> (\<lambda>s. if rc = 1 \<or> rc = - EAGAIN \<or> rc = - EPROTO
      then Ok rc (s\<lparr>w_log := Ev_ll_fini # w_log s, re_clpriv := False\<rparr>) else Ok rc s) t)" for y t
    by (cases y) simp
  show ?thesis
    unfolding changelog_reader_enqueue_def changelog_reader_full_def Let_def
    by (auto intro!: silent_bind silent_at [OF enqueue_loop_silent] fin)
qed

end

subsection \<open>Handlers\<close>

locale unwatched_replies = unwatched +
  assumes replies_unwatched: "\<not> watched (Ev_send f m e)" "\<not> watched (Ev_clock tv)"
begin

lemma silent_clock: "adds l (w_log s) \<Longrightarrow> adds l (w_log (snd (clock_gettime L s)))"
  by (simp add: clock_gettime_def Let_def adds_Cons replies_unwatched)

lemma send_frames_silent: "adds l (w_log s) \<Longrightarrow> adds l (w_log (snd (send_frames L fs s)))"
proof (induction fs arbitrary: s)
  case (Cons x fs)
  obtain f m where x: "x = (f, m)" by (cases x)
  have "adds l (w_log (snd (zmq_send L f m s)))"
    using Cons.prems by (simp add: zmq_send_def Let_def adds_Cons replies_unwatched)
  with Cons.IH show ?case by (simp add: x send_frames.simps split_def)
qed (simp add: send_frames.simps)

lemma peer_rpc_send_silent: "silent s (peer_rpc_send L src dst m s)"
  by (simp add: peer_rpc_send_def split_def send_frames_silent split: option.splits)

lemma ack_retcode_silent: "silent s (ack_retcode L src dst rc s)"
  unfolding ack_retcode_def by (rule silent_bind [OF peer_rpc_send_silent]) simp

lemma client_state_get_silent: "silent s (client_state_get c s)"
proof -
  have "silent s (client_walk k i p s)" for k i p
    by (induction k i p s rule: client_walk.induct) (auto intro!: silent_calls split: option.splits)
  then show ?thesis by (simp add: client_state_get_def split: option.splits)
qed

lemma conn_id_dup_silent: "silent s (conn_id_dup L c s)"
  by (simp add: conn_id_dup_def split_def alloc_log split: option.splits)

lemma rec_bucket_get_silent: "silent s (rec_bucket_get L s)"
proof -
  have mark: "silent s (mark_non_ready k p s)" for k p s
    by (induction k p s rule: mark_non_ready.induct) (auto intro!: silent_calls)
  show ?thesis
    unfolding rec_bucket_get_def bucket_next_def split_def
    by (auto intro!: silent_calls silent_at [OF mark] silent_clock split: option.splits)
qed

lemma reader_handle_start_silent: "silent s (reader_handle_start L req s)"
  unfolding reader_handle_start_def Let_def split_def
  by (auto intro!: silent_calls client_state_get_silent silent_at [OF conn_id_dup_silent] ack_retcode_silent simp: alloc_log)

lemma reader_handle_fini_silent: "silent s (reader_handle_fini L req s)"
  unfolding reader_handle_fini_def client_state_release_def
  by (auto intro!: silent_calls client_state_get_silent ack_retcode_silent split: option.splits)

lemma reader_handle_dequeue_silent: "silent s (reader_handle_dequeue L req s)"
  unfolding reader_handle_dequeue_def enqueue_rec_def bucket_set_expiry_time_def split_def
  by (auto intro!: silent_calls client_state_get_silent rec_bucket_get_silent rec_bucket_add_silent peer_rpc_send_silent
      silent_clock simp: alloc_log split: option.splits sum.splits)

end

subsection \<open>Calls that send and calls that clear\<close>

interpretation sending: unwatched "\<lambda>e. \<not> quiet_event e"
  by unfold_locales (simp_all add: quiet_event_def)

text \<open>Reading the changelog sends nothing.\<close>

lemma changelog_reader_enqueue_quiet:
  assumes "changelog_reader_enqueue L s = Ok rc t"
  shows "emits s t []"
proof -
  have "sending.adds (w_log s) (w_log t)" using sending.changelog_reader_enqueue_silent [of s L] by (simp add: assms)
  then show ?thesis unfolding sending.adds_def by (auto intro: emits_quiet)
qed

definition clear_call_event :: "event \<Rightarrow> bool" where
  "clear_call_event e \<longleftrightarrow> (case e of Ev_ll_clear _ _ _ _ \<Rightarrow> True | _ \<Rightarrow> False)"

interpretation clearing: unwatched_replies clear_call_event
  by unfold_locales (simp_all add: clear_call_event_def)

end
