(* ===== verification/System_Flight.thy ===== *)
theory System_Flight
  imports System Reader_Quiet
begin

text \<open>
  When all peers are clients with REQ sockets and the libraries grant memory and accept messages,
  each client has at most one message in flight, whatever the order of the steps: its request, or the
  reply to it. So the message a client receives answers the request it is waiting for.
\<close>

subsection \<open>Messages sent between two states\<close>

lemma emits_new:
  assumes "emits s t ms" "unsent s = []"
  shows "new_msgs s t = ms" "unsent t = []"
proof -
  obtain evs where evs: "w_log t = evs @ w_log s" "out_run [] (rev evs) = (ms, [])"
    using assms(1) by (auto simp: emits_def)
  have "out_run [] (rev (w_log s)) = (sent s, [])" using assms(2) by (simp add: sent_def unsent_def prod_eq_iff)
  from out_run_append [OF this evs(2)] show "new_msgs s t = ms" "unsent t = []"
    by (simp_all add: new_msgs_def sent_def unsent_def evs(1))
qed

subsection \<open>Messages in flight\<close>

definition reply_body :: "bytes \<Rightarrow> bool" where
  "reply_body m \<longleftrightarrow> rpc_op_of (body_op m) \<in> Some ` {RPC_OP_ENQUEUE, RPC_OP_ACK} \<and> sizeof_hdr \<le> length m \<and> length m \<le> 2 ^ 62 + sizeof_enqueue"

definition signal_body :: "bytes \<Rightarrow> bool" where
  "signal_body m \<longleftrightarrow> rpc_op_of (body_op m) = Some RPC_OP_SIGNAL \<and> length m = sizeof_signal"

lemma body_sizes:
  "request_body b \<Longrightarrow> b \<noteq> [] \<and> length b \<le> 2 ^ 62 + sizeof_enqueue"
  "reply_body b \<Longrightarrow> b \<noteq> [] \<and> length b \<le> 2 ^ 62 + sizeof_enqueue"
  "signal_body b \<Longrightarrow> b \<noteq> [] \<and> length b \<le> 2 ^ 62 + sizeof_enqueue"
  by (auto simp: request_body_def reply_body_def signal_body_def)

text \<open>The messages between clients, broker and the readers \<open>R\<close>.\<close>

inductive pkt_ok :: "bytes set \<Rightarrow> packet \<Rightarrow> bool" for R where
  request: "c \<notin> R \<Longrightarrow> identity c \<Longrightarrow> mdt \<in> R \<Longrightarrow> request_body b \<Longrightarrow> pkt_ok R (To_broker c [c, [], mdt, b])"
| forwarded: "c \<notin> R \<Longrightarrow> identity c \<Longrightarrow> mdt \<in> R \<Longrightarrow> request_body b \<Longrightarrow> pkt_ok R (From_broker mdt [[], c, [], b])"
| answer: "c \<notin> R \<Longrightarrow> identity c \<Longrightarrow> mdt \<in> R \<Longrightarrow> reply_body m \<Longrightarrow> pkt_ok R (To_broker mdt [mdt, c, [], m])"
| reply: "c \<notin> R \<Longrightarrow> reply_body m \<Longrightarrow> pkt_ok R (From_broker c [m])"
| signal: "mdt \<in> R \<Longrightarrow> signal_body m \<Longrightarrow> pkt_ok R (To_broker mdt [mdt, [], mdt, m])"
| refusal: "mdt \<in> R \<Longrightarrow> reply_body m \<Longrightarrow> pkt_ok R (From_broker mdt [[], m])"

lemma pkt_ok_To_broker:
  assumes "pkt_ok R (To_broker i fs)"
  obtains (request) mdt b where "fs = [i, [], mdt, b]" "i \<notin> R" "identity i" "mdt \<in> R" "request_body b"
  | (answer) c m where "fs = [i, c, [], m]" "c \<notin> R" "identity c" "i \<in> R" "reply_body m"
  | (signal) m where "fs = [i, [], i, m]" "i \<in> R" "signal_body m"
  using assms by cases auto

lemma pkt_ok_From_broker:
  assumes "pkt_ok R (From_broker i fs)"
  obtains (forwarded) c b where "fs = [[], c, [], b]" "c \<notin> R" "identity c" "i \<in> R" "request_body b"
  | (reply) m where "fs = [m]" "i \<notin> R" "reply_body m"
  | (refusal) m where "fs = [[], m]" "i \<in> R" "reply_body m"
  using assms by cases auto

text \<open>The client a message is for or from.\<close>

definition owner :: "bytes set \<Rightarrow> packet \<Rightarrow> bytes option" where
  "owner R p =
     (case p of
        To_broker i fs \<Rightarrow> (if i \<notin> R then Some i else case fs of [_, c, [], _] \<Rightarrow> Some c | _ \<Rightarrow> None)
      | From_broker i fs \<Rightarrow> (if i \<notin> R then Some i else case fs of [[], c, [], _] \<Rightarrow> Some c | _ \<Rightarrow> None))"

definition flight :: "bytes set \<Rightarrow> bytes \<Rightarrow> packet list \<Rightarrow> nat" where
  "flight R c ps = length (filter (\<lambda>p. owner R p = Some c) ps)"

lemma flight_simps [simp]:
  "flight R c [] = 0" "flight R c (p # ps) = (if owner R p = Some c then 1 else 0) + flight R c ps"
  "flight R c (ps @ qs) = flight R c ps + flight R c qs"
  by (simp_all add: flight_def)

lemma takes_flight:
  assumes "takes S p net"
  shows "flight R c (sys_net S) = (if owner R p = Some c then 1 else 0) + flight R c net"
    "set net \<subseteq> set (sys_net S)" "p \<in> set (sys_net S)"
  using assms by (auto simp: takes_def)

subsection \<open>What the broker makes of a message\<close>

lemma broker_spec_request:
  assumes "request_body b"
  shows "broker_spec cfg tab (cid c) (cid mdt) b = (tab, [[mdt, [], c, [], b]])"
  using assms by (auto simp: request_body_def broker_spec_def peer_frames_def)

lemma broker_spec_reply:
  assumes "reply_body m"
  shows "broker_spec cfg tab (cid mdt) (cid c) m = (tab, [[c, [], m]])"
  using assms by (auto simp: reply_body_def broker_spec_def peer_frames_def)

lemma broker_spec_signal:
  assumes "signal_body m"
  shows "\<exists>tab' e. broker_spec cfg tab (cid mdt) f m = (tab', []) \<or> broker_spec cfg tab (cid mdt) f m = (tab', [[mdt, [], ack_msg e]])"
  using assms by (auto simp: signal_body_def broker_spec_def peer_frames_def split: option.splits)

lemma reply_no_fault: "reply_body m \<Longrightarrow> broker_fault cfg f m = None"
  by (auto simp: reply_body_def broker_fault_def)

lemma reply_body_ack: "reply_body (ack_msg e)"
  by (simp add: reply_body_def)

lemma route_simps:
  assumes "zmq_envelopes Z"
  shows "mdt \<in> R \<Longrightarrow> route Z R (mdt # m) = [From_broker mdt m]"
    "c \<notin> R \<Longrightarrow> route Z R (c # [] # m) = [From_broker c m]"
  using assms by (simp_all add: route_def zmq_envelopes_def)

text \<open>One message in, at most one out, for the same client.\<close>

definition passes_on :: "bytes set \<Rightarrow> packet \<Rightarrow> packet list \<Rightarrow> bool" where
  "passes_on R p ps \<longleftrightarrow> (\<forall>q \<in> set ps. pkt_ok R q) \<and> (\<forall>c. flight R c ps \<le> (if owner R p = Some c then 1 else 0))"

lemma broker_passes_on:
  assumes L: "sends_ok L" "allocs_ok L" and Z: "zmq_envelopes Z" and inv: "broker_inv ctx" "unsent ctx = []"
    and p: "pkt_ok R (To_broker i fs)" and R: "\<forall>m \<in> R. identity m"
    and step: "broker_gets L fs ctx = Ok rc t"
  shows "passes_on R (To_broker i fs) (concat (map (route Z R) (new_msgs ctx t))) \<and> unsent t = []"
proof -
  have run: "new_msgs ctx t = out \<and> unsent t = []"
    if fs: "fs = [r, [], f, b] \<or> fs = [r, f, [], b]" "identity r" "identity f" "b \<noteq> [] \<and> length b \<le> 2 ^ 62 + sizeof_enqueue"
      and sp: "broker_spec (cc_config ctx) (cc_rcid ctx) (cid r) (cid f) b = (tab, out)" for r f b tab out
  proof -
    have fr: "filter (\<lambda>f. f \<noteq> []) fs = [r, f, b]" "length (concat fs) + 8 < 2 ^ 63"
      using fs by (auto simp: identity_def)
    obtain u where "broker_gets L fs ctx = Ok 0 u" "emits ctx u out"
      using broker_gets_spec [OF L inv(1) fr sp] step by blast
    then show ?thesis using step emits_new [of ctx u out] inv(2) by simp
  qed
  from p show ?thesis
  proof (cases rule: pkt_ok_To_broker)
    case (request mdt b)
    then have "new_msgs ctx t = [[mdt, [], i, [], b]] \<and> unsent t = []"
      using run [OF _ _ _ body_sizes(1) broker_spec_request, of i mdt b] R by simp
    then show ?thesis
      using request by (auto simp: passes_on_def route_simps [OF Z] owner_def intro: pkt_ok.intros)
  next
    case (answer c m)
    then have "new_msgs ctx t = [[c, [], m]] \<and> unsent t = []"
      using run [OF _ _ _ body_sizes(2) broker_spec_reply, of i c m] R by simp
    then show ?thesis
      using answer by (auto simp: passes_on_def route_simps [OF Z] owner_def intro: pkt_ok.intros)
  next
    case (signal m)
    obtain tab' e where "broker_spec (cc_config ctx) (cc_rcid ctx) (cid i) (cid i) m = (tab', []) \<or>
        broker_spec (cc_config ctx) (cc_rcid ctx) (cid i) (cid i) m = (tab', [[i, [], ack_msg e]])"
      using broker_spec_signal [OF signal(3)] by blast
    then have "(new_msgs ctx t = [] \<or> new_msgs ctx t = [[i, [], ack_msg e]]) \<and> unsent t = []"
      using run [OF _ _ _ body_sizes(3), of i i m] signal R by auto
    moreover have "pkt_ok R (From_broker i [[], ack_msg e])" by (rule pkt_ok.refusal [OF signal(2) reply_body_ack])
    ultimately show ?thesis
      using signal by (auto simp: passes_on_def route_simps [OF Z] owner_def)
  qed
qed

subsection \<open>What a reader makes of a message\<close>

definition small_recs :: "libs \<Rightarrow> bool" where
  "small_recs L \<longleftrightarrow> (\<forall>r. rec_len L r \<le> 2 ^ 31)"

lemma sum_list_bound: "(\<And>x. x \<in> set xs \<Longrightarrow> f x \<le> k) \<Longrightarrow> sum_list (map f xs) \<le> length xs * (k :: nat)"
  by (induction xs) (auto simp: add_mono)

lemma bucket_size:
  assumes "bucket_ok L n b" "n < 2 ^ 31" "small_recs L"
  shows "lrb_size b \<le> 2 ^ 62" "length (record_bytes L (bkt_recs b)) \<le> 2 ^ 62"
proof -
  have "int (length (bkt_recs b)) < 2 ^ 31" using assms(1,2) bucket_ok_count [OF assms(1)] by (simp add: bucket_ok_def)
  then have n: "length (bkt_recs b) \<le> 2 ^ 31" by simp
  have "sum_list (map (rec_len L) (bkt_recs b)) \<le> length (bkt_recs b) * 2 ^ 31"
    using assms(3) by (intro sum_list_bound) (simp add: small_recs_def)
  also have "\<dots> \<le> 2 ^ 31 * 2 ^ 31" using n by simp
  finally have "sum_list (map (rec_len L) (bkt_recs b)) \<le> 2 ^ 62" by simp
  then show "lrb_size b \<le> 2 ^ 62" "length (record_bytes L (bkt_recs b)) \<le> 2 ^ 62"
    using assms(1) by (simp_all add: bucket_ok_def length_record_bytes)
qed

lemma reply_frames_cases:
  assumes "batch_of L s r" "ccf_rec_batch_count (re_cfg s) < 2 ^ 31" "small_recs L"
  shows "reply_frames L (cid c) r = [] \<or> (\<exists>m. reply_body m \<and> reply_frames L (cid c) r = [[c, [], m]])"
proof (cases r)
  case (Ack e)
  then show ?thesis using reply_body_ack by (simp add: reply_frames_def peer_frames_def)
next
  case (Batch rs)
  then obtain b where b: "bucket_ok L (ccf_rec_batch_count (re_cfg s)) b" "rs = bkt_recs b"
    using assms(1) by (auto simp: batch_of_def)
  let ?m = "enqueue_msg (int (length rs)) (record_bytes L rs)"
  have "body_op ?m = rpc_op_code RPC_OP_ENQUEUE"
    by (rule body_op_mk_hdr) (simp add: enqueue_msg_def)
  moreover have "length ?m = sizeof_enqueue + length (record_bytes L rs)" by (simp add: enqueue_msg_def)
  ultimately have "reply_body ?m" using bucket_size(2) [OF b(1) assms(2,3)] b(2) by (simp add: reply_body_def)
  then show ?thesis using Batch by (auto simp: reply_frames_def peer_frames_def)
qed (simp_all add: reply_frames_def)

lemma reader_gets_request:
  assumes L: "sends_ok L" "allocs_ok L" "small_recs L" and s: "reader_inv L s"
    and c: "identity c" and b: "request_body b"
    and step: "reader_gets L [[], c, [], b] s = Ok rc t"
  shows "emits s t [] \<or> (\<exists>m. reply_body m \<and> emits s t [[c, [], m]])"
proof -
  let ?fs = "[[], c, [], b]" let ?req = "request_of False [[], c, [], b]"
  have sizes: "c \<noteq> []" "b \<noteq> []" "length b + (length c + 8) < 2 ^ 63" "length c + 8 < 2 ^ 63"
    using c b by (auto simp: identity_def request_body_def)
  have req: "lr_remote ?req = None" "lr_forward ?req = Some (cid c)" "lr_body ?req = b" "lr_body_len ?req = length b"
    using sizes by (simp_all add: request_of_def body_of_def)
  obtain evs where once: "list_all quiet_event evs"
      "reader_gets L ?fs s = changelog_reader_rpc_hdl L ?req (s\<lparr>w_in := [], w_log := evs @ w_log s\<rparr>)"
    using lcap_rpc_recv_once_wire [of L ?fs "s\<lparr>w_in := wire ?fs\<rparr>" "[]" "LCAP_RECV_NONBLOCK OR LCAP_RECV_NO_ENVELOPE"
        "changelog_reader_rpc_hdl L"] L(2) sizes req
    by (auto simp: reader_gets_def)
  define u where "u = s\<lparr>w_in := [], w_log := evs @ w_log s\<rparr>"
  have u: "reader_inv L u" by (rule reader_inv_more [OF s]) (simp add: u_def)
  have cfg: "ccf_rec_batch_count (re_cfg u) < 2 ^ 31" using u by (auto simp: reader_inv_def rinv_def cfg_ok_def)
  have small: "\<forall>d \<in> set (buckets_of u). lrb_size (bkt_at u d) + sizeof_enqueue < 2 ^ 63"
  proof
    fix d assume d: "d \<in> set (buckets_of u)"
    obtain x where "m_bkts u d = Some x" "bucket_ok L (ccf_rec_batch_count (re_cfg u)) x"
      using rinv_bkt [OF u [unfolded reader_inv_def] d] .
    then show "lrb_size (bkt_at u d) + sizeof_enqueue < 2 ^ 63"
      using bucket_size(1) [OF _ cfg L(3)] by (fastforce simp: bkt_at_def)
  qed
  have sz: "ci_length (cid c) + 8 < 2 ^ 63" using sizes(4) by simp
  have ok: "req_ok 3 ?req" using req sizes by (simp add: req_ok_def)
  have logged: "\<not> op_overrun (re_cfg u) ?req" using b req(4) by (simp add: request_body_def)
  obtain r where r: "implements L (cid c) u (changelog_reader_rpc_hdl L ?req u) r"
    using rpc_hdl_implements [OF u ok req(2) L(1,2) sz small] logged by blast
  have "fst r \<noteq> Crash" using r step once(2) by (auto simp: implements_def u_def)
  then have out: "emits u t (reply_frames L (cid c) (fst r))" "batch_of L u (fst r)"
    using r step once(2) by (auto simp: implements_def u_def)
  have "w_log u = evs @ w_log s" by (simp add: u_def)
  from emits_same_log [OF this once(1)] have e: "emits s t ms" if "emits u t ms" for ms using that .
  from reply_frames_cases [OF out(2) cfg L(3), of c] out(1) e show ?thesis by auto
qed

lemma reader_gets_refusal:
  assumes "allocs_ok L" "reply_body m" "reader_gets L [[], m] s = Ok rc t"
  shows "emits s t []"
proof -
  have sizes: "m \<noteq> []" "length m + 8 < 2 ^ 63" using assms(2) by (auto simp: reply_body_def)
  then have "lr_body (request_of False [[], m]) = []" by (simp add: request_of_def body_of_def)
  then obtain evs where "list_all quiet_event evs" "t = s\<lparr>w_in := [], w_log := evs @ w_log s\<rparr>"
    using lcap_rpc_recv_once_wire [of L "[[], m]" "s\<lparr>w_in := wire [[], m]\<rparr>" "[]" "LCAP_RECV_NONBLOCK OR LCAP_RECV_NO_ENVELOPE"
        "changelog_reader_rpc_hdl L"] assms(1,3) sizes
    by (auto simp: reader_gets_def)
  then show ?thesis by (intro emits_quiet [of _ evs]) simp_all
qed

lemma reader_passes_on:
  assumes L: "sends_ok L" "allocs_ok L" "small_recs L" and Z: "zmq_envelopes Z"
    and s: "reader_inv L s" "unsent s = []" and p: "pkt_ok R (From_broker mdt fs)" and mdt: "mdt \<in> R"
    and step: "reader_gets L fs s = Ok rc t"
  shows "passes_on R (From_broker mdt fs) (map (\<lambda>m. To_broker mdt (dealer_in Z mdt m)) (new_msgs s t)) \<and> unsent t = []"
  using p
proof (cases rule: pkt_ok_From_broker)
  case (forwarded c b)
  have z: "dealer_in Z mdt m = mdt # m" for m using Z by (simp add: zmq_envelopes_def)
  have "(new_msgs s t = [] \<or> (\<exists>m. reply_body m \<and> new_msgs s t = [[c, [], m]])) \<and> unsent t = []"
    using reader_gets_request [OF L s(1) forwarded(3,5)] step forwarded(1) emits_new [OF _ s(2)] by blast
  then show ?thesis
    using forwarded by (auto simp: passes_on_def z owner_def intro: pkt_ok.intros)
next
  case (refusal m)
  have "emits s t []" using reader_gets_refusal [OF L(2) refusal(3)] step refusal(1) by simp
  then show ?thesis using emits_new [OF _ s(2)] by (simp add: passes_on_def)
qed (use mdt in simp)

subsection \<open>At most one message in flight for a client\<close>

definition flight_inv :: "libs \<Rightarrow> system \<Rightarrow> bool" where
  "flight_inv L S \<longleftrightarrow> sys_good L S \<and> unsent (sys_broker S) = []
     \<and> (\<forall>mdt s. sys_readers S mdt = Some s \<longrightarrow> unsent s = [] \<and> reader_device s = Some mdt \<and> identity mdt)
     \<and> (\<forall>p \<in> set (sys_net S). pkt_ok (dom (sys_readers S)) p)
     \<and> (\<forall>c. flight (dom (sys_readers S)) c (sys_net S) \<le> (if c \<in> sys_busy S then 1 else 0))"

text \<open>A delivery that passes on at most what it takes keeps the numbers of messages in flight.\<close>

lemma flight_passes_on:
  assumes "takes S p net" "passes_on R p ps"
    and "\<forall>c. flight R c (sys_net S) \<le> f c" "\<forall>q \<in> set (sys_net S). pkt_ok R q"
  shows "(\<forall>q \<in> set (net @ ps). pkt_ok R q) \<and> (\<forall>c. flight R c (net @ ps) \<le> f c)"
proof -
  have "flight R c (net @ ps) \<le> f c" for c
    using takes_flight(1) [OF assms(1), of R c] assms(2,3) spec [OF assms(3), of c]
    unfolding passes_on_def by (auto split: if_splits intro: order_trans dest!: spec [of _ c])
  then show ?thesis using takes_flight(2) [OF assms(1)] assms(2,4) by (auto simp: passes_on_def)
qed

lemma signal_msg_body: "length dev < sizeof_mdtname \<Longrightarrow> signal_body (signal_msg dev e)"
  using body_op_mk_hdr [of "signal_msg dev e" RPC_OP_SIGNAL]
  by (simp add: signal_body_def signal_msg_def)

lemma changelog_reader_signal_emits:
  assumes "sends_ok L" "reader_device s = Some dev" "changelog_reader_signal L e s = Ok rc t"
  shows "emits s t [[[], dev, signal_msg dev e]]" "world.more t = world.more s" "length dev < sizeof_mdtname"
  using assms by (auto simp: changelog_reader_signal_def send_frames_ok emits_def split: if_splits)

lemma enqueue_device:
  assumes "reader_good L s" "changelog_reader_enqueue L s = Ok rc t"
  shows "reader_device t = reader_device s"
proof -
  obtain bs ps where r: "rinv L s bs ps" using assms(1) by (auto simp: reader_good_def elim: reader_invE)
  have "enq_post L s ps t"
    using changelog_reader_enqueue_spec [OF r, unfolded run_def] assms by (auto simp: reader_good_def)
  then show ?thesis by (intro cfg_cong) (auto simp: enq_post_def grown_def store_frame_def)
qed

lemma device_more: "world.more t = world.more s \<Longrightarrow> reader_device t = reader_device s"
  by (cases s; cases t) (simp add: reader_device_def)

lemma reader_gets_device:
  assumes "reader_good L s" "reader_gets L fs s = Ok rc t"
  shows "reader_device t = reader_device s"
proof -
  let ?s = "s\<lparr>w_in := wire fs\<rparr>"
  have dev: "reader_device u = reader_device s" if "world.more u = world.more ?s" for u
    using device_more [of u s] that by simp
  show ?thesis
  proof (cases rule: lcap_rpc_recv_once_cases [of L "LCAP_RECV_NONBLOCK OR LCAP_RECV_NO_ENVELOPE" "changelog_reader_rpc_hdl L" ?s])
    case (call req u)
    have good: "reader_inv L u" using reader_good_more [OF assms(1), of u] call(3) by (simp add: reader_good_def)
    obtain c where "lr_forward req = Some c" "wf_cid c" using call(2) by (auto simp: req_ok_def)
    from rpc_hdl_kept [OF good this, unfolded run_def] call(1) assms(2) have "kept L u t" by (simp add: reader_gets_def)
    then have "reader_device t = reader_device u" by (intro cfg_cong) (simp_all add: kept_def)
    then show ?thesis using dev [OF call(3)] by simp
  next
    case (fail rc' u)
    then show ?thesis using dev [OF fail(3)] assms(2) by (simp add: reader_gets_def)
  next
    case (skip u)
    then show ?thesis using dev [OF skip(2)] assms(2) by (simp add: reader_gets_def)
  next
    case (blocked u)
    then show ?thesis using assms(2) by (simp add: reader_gets_def)
  qed
qed

text \<open>What the invariant gives of a reader, and that it holds again once a reader has taken a step.\<close>

lemma flight_reader:
  assumes "flight_inv L S" "sys_readers S mdt = Some s"
  shows "reader_good L s" "unsent s = []" "reader_device s = Some mdt" "identity mdt" "reader_inv L s" "mdt \<in> dom (sys_readers S)"
  using assms by (auto simp: flight_inv_def sys_good_def ran_def reader_good_def)

lemma flight_inv_reader:
  assumes inv: "flight_inv L S" and s: "sys_readers S mdt = Some s" and good: "sys_good L T"
    and t: "unsent t = []" "reader_device t = Some mdt"
    and T: "sys_broker T = sys_broker S" "sys_busy T = sys_busy S" "sys_readers T = (sys_readers S)(mdt \<mapsto> t)"
    and net: "(\<forall>p \<in> set (sys_net T). pkt_ok (dom (sys_readers S)) p) \<and>
      (\<forall>c. flight (dom (sys_readers S)) c (sys_net T) \<le> (if c \<in> sys_busy S then 1 else 0))"
  shows "flight_inv L T"
  using inv t good T net flight_reader(4,6) [OF inv s] by (simp add: flight_inv_def insert_absorb)

lemma flight_client_send:
  assumes inv: "flight_inv L S" and Z: "zmq_envelopes Z"
    and c: "c \<notin> dom (sys_readers S)" "identity c" "c \<notin> sys_busy S" and mdt: "mdt \<in> dom (sys_readers S)" and b: "request_body b"
  shows "flight_inv L (S\<lparr>sys_net := sys_net S @ [To_broker c (req_in Z c [mdt, b])], sys_busy := insert c (sys_busy S)\<rparr>)"
proof -
  let ?R = "dom (sys_readers S)" and ?p = "To_broker c (req_in Z c [mdt, b])"
  have fl: "flight ?R c' (sys_net S) \<le> (if c' \<in> sys_busy S then 1 else 0)" for c'
    using inv by (simp add: flight_inv_def)
  have p: "pkt_ok ?R ?p" "owner ?R ?p = Some c"
    using assms pkt_ok.request [of c ?R mdt b] by (simp_all add: zmq_envelopes_def owner_def)
  have "flight ?R c (sys_net S) = 0" using fl [of c] c(3) by simp
  then have "flight ?R c' (sys_net S @ [?p]) \<le> (if c' \<in> insert c (sys_busy S) then 1 else 0)" for c'
    using fl [of c'] p(2) by auto
  then show ?thesis using inv p(1) by (simp add: flight_inv_def sys_good_def)
qed

lemma flight_client_recv:
  assumes inv: "flight_inv L S" and take: "takes S (From_broker c fs) net" and c: "c \<notin> dom (sys_readers S)"
  shows "flight_inv L (S\<lparr>sys_net := net, sys_busy := sys_busy S - {c}\<rparr>)"
proof -
  let ?R = "dom (sys_readers S)"
  have p: "owner ?R (From_broker c fs) = Some c" using c by (simp add: owner_def)
  have "flight ?R c' net \<le> (if c' \<in> sys_busy S - {c} then 1 else 0)" for c'
  proof -
    have "flight ?R c' (sys_net S) \<le> (if c' \<in> sys_busy S then 1 else 0)" using inv by (simp add: flight_inv_def)
    then show ?thesis using takes_flight(1) [OF take, of ?R c'] p by (auto split: if_splits)
  qed
  then show ?thesis using inv takes_flight(2) [OF take] by (auto simp: flight_inv_def sys_good_def)
qed

text \<open>The signal of a reader whose changelog failed.\<close>

lemma reader_stop_sends:
  assumes inv: "flight_inv L S" and s: "sys_readers S mdt = Some s" and L: "sends_ok L"
    and step: "leaves L s rc t" "reader_out_path L rc t = Ok rc' u"
  shows "new_msgs s u = [] \<or> (new_msgs s u = [[[], mdt, signal_msg mdt rc]] \<and> signal_body (signal_msg mdt rc))"
    "unsent u = []" "reader_device u = Some mdt"
proof -
  note r = flight_reader [OF inv s]
  have t: "emits s t []" "reader_device t = Some mdt"
    using step(1) changelog_reader_enqueue_quiet [of L s rc t] enqueue_device [OF r(1), of rc t] r(3)
    by (auto simp: leaves_def)
  obtain v evs where v: "if rc = 0 then v = t else \<exists>x. changelog_reader_signal L rc t = Ok x v"
    and u: "u = v\<lparr>w_log := w_log u, re_sock := False, re_zctx := False\<rparr>" "w_log u = evs @ w_log v" "list_all quiet_event evs"
    using reader_out_path_steps [OF step(2)] by blast
  have vu: "emits v u []" by (rule emits_quiet [OF u(2,3)])
  have dev: "reader_device u = reader_device v" by (subst u(1)) (simp add: reader_device_def)
  show "new_msgs s u = [] \<or> (new_msgs s u = [[[], mdt, signal_msg mdt rc]] \<and> signal_body (signal_msg mdt rc))"
    "unsent u = []" "reader_device u = Some mdt"
  proof -
    show "reader_device u = Some mdt"
    proof (cases "rc = 0")
      case True
      then show ?thesis using v dev t(2) by simp
    next
      case False
      then obtain x where "changelog_reader_signal L rc t = Ok x v" using v by auto
      from device_more [OF changelog_reader_signal_emits(2) [OF L t(2) this]] show ?thesis using dev t(2) by simp
    qed
    have sent: "emits s u [] \<or> (emits s u [[[], mdt, signal_msg mdt rc]] \<and> signal_body (signal_msg mdt rc))"
    proof (cases "rc = 0")
      case True
      then show ?thesis using v vu t(1) emits_trans [of s t "[]" u "[]"] by simp
    next
      case False
      then obtain x where x: "changelog_reader_signal L rc t = Ok x v" using v by auto
      note sig = changelog_reader_signal_emits [OF L t(2) x]
      have "emits s u [[[], mdt, signal_msg mdt rc]]" using emits_trans [OF emits_trans [OF t(1) sig(1)] vu] by simp
      then show ?thesis using signal_msg_body [OF sig(3)] by simp
    qed
    then show "new_msgs s u = [] \<or> (new_msgs s u = [[[], mdt, signal_msg mdt rc]] \<and> signal_body (signal_msg mdt rc))"
      "unsent u = []" using emits_new [OF _ r(2), of u] by auto
  qed
qed

lemma sys_step_flight:
  assumes step: "sys_step L Z False S T" and inv: "flight_inv L S"
    and L: "sends_ok L" "allocs_ok L" "small_recs L" "ZMQ_DONTWAIT L = 1" and Z: "zmq_envelopes Z"
  shows "flight_inv L T"
proof -
  let ?R = "dom (sys_readers S)"
  have good: "sys_good L T" using sys_step_good [OF step _ L(4)] inv by (simp add: flight_inv_def)
  have broker: "broker_inv (sys_broker S)" "unsent (sys_broker S) = []"
    and net: "\<forall>p \<in> set (sys_net S). pkt_ok ?R p" "\<forall>c. flight ?R c (sys_net S) \<le> (if c \<in> sys_busy S then 1 else 0)"
    and R: "\<forall>m \<in> ?R. identity m"
    using inv by (auto simp: flight_inv_def sys_good_def)
  note reader = flight_reader [OF inv] and reader_step = flight_inv_reader [OF inv]
  show ?thesis
    using step
  proof cases
    case (client_send c mdt b)
    then show ?thesis using flight_client_send [OF inv Z] by simp
  next
    case (client_recv c fs net')
    then show ?thesis using flight_client_recv [OF inv] by simp
  next
    case (broker_serve i fs net' rc B)
    have p: "pkt_ok ?R (To_broker i fs)" using takes_flight(3) [OF broker_serve(3)] net(1) by blast
    note pass = broker_passes_on [OF L(1,2) Z broker p R broker_serve(4)]
    from flight_passes_on [OF broker_serve(3) conjunct1 [OF pass] net(2,1)] show ?thesis
      using good inv pass broker_serve(1) by (simp add: flight_inv_def)
  next
    case (reader_serve mdt fs net' s rc t)
    have p: "pkt_ok ?R (From_broker mdt fs)" using takes_flight(3) [OF reader_serve(3)] net(1) by blast
    note s = reader [OF reader_serve(4)]
    note pass = reader_passes_on [OF L(1-3) Z s(5,2) p s(6) reader_serve(6)]
    have dev: "reader_device t = Some mdt" using reader_gets_device [OF s(1) reader_serve(6)] s(3) by simp
    show ?thesis
      by (rule reader_step [OF reader_serve(4) good conjunct2 [OF pass] dev])
        (use flight_passes_on [OF reader_serve(3) conjunct1 [OF pass] net(2,1)] reader_serve(1) in simp_all)
  next
    case (reader_read mdt s rc t)
    note s = reader [OF reader_read(3)]
    have "emits s t []" by (rule changelog_reader_enqueue_quiet [OF reader_read(5)])
    then have out: "unsent t = []" by (rule emits_new(2) [OF _ s(2)])
    have dev: "reader_device t = Some mdt" using enqueue_device [OF s(1) reader_read(5)] s(3) by simp
    show ?thesis
      by (rule reader_step [OF reader_read(3) good out dev]) (use net reader_read(1) in simp_all)
  next
    case (reader_stop mdt s rc t rc' u)
    note s = reader [OF reader_stop(3)] and sent = reader_stop_sends [OF inv reader_stop(3) L(1) reader_stop(5,6)]
    let ?p = "To_broker mdt [mdt, [], mdt, signal_msg mdt rc]"
    have p: "signal_body (signal_msg mdt rc) \<Longrightarrow> pkt_ok ?R ?p" by (rule pkt_ok.signal [OF s(6)])
    have own: "owner ?R ?p = None" using s(4,6) by (cases mdt) (auto simp: identity_def owner_def)
    have z: "dealer_in Z mdt m = mdt # m" for m using Z by (simp add: zmq_envelopes_def)
    have "(\<forall>q \<in> set (map (\<lambda>m. To_broker mdt (dealer_in Z mdt m)) (new_msgs s u)). pkt_ok ?R q) \<and>
        (\<forall>c. flight ?R c (map (\<lambda>m. To_broker mdt (dealer_in Z mdt m)) (new_msgs s u)) = 0)"
      using sent(1) p own by (auto simp: z)
    then show ?thesis
      by (intro reader_step [OF reader_stop(3) good sent(2,3)])
        (use net reader_stop(1) in auto)
  qed (use good inv in \<open>simp_all add: flight_inv_def\<close>)
qed

definition libs_good :: "libs \<Rightarrow> zmq_links \<Rightarrow> bool" where
  "libs_good L Z \<longleftrightarrow> sends_ok L \<and> allocs_ok L \<and> small_recs L \<and> ZMQ_DONTWAIT L = 1 \<and> zmq_envelopes Z"

interpretation sys_flight: kept_by_steps "sys_step L Z False" "\<lambda>S. flight_inv L S \<and> libs_good L Z" for L Z
  by unfold_locales (simp add: libs_good_def sys_step_flight)

subsection \<open>Properties\<close>

definition demo_sys :: system where
  "demo_sys = \<lparr>sys_broker = demo_ctx, sys_readers = [[77, 48] \<mapsto> demo_reader], sys_stopped = {}, sys_net = [],
     sys_busy = {}, sys_fault = None\<rparr>"

lemma demo_sys_init: "sys_init demo_libs demo_sys"
  using demo_ctx_inv demo_reader_good
  by (auto simp: sys_init_def demo_sys_def reader_device_def demo_reader_def demo_cfg_def split: if_splits)

lemma demo_request: "request_body demo_dequeue_body"
  using demo_dequeue_facts by (simp add: request_body_def rpc_expected_length_def)

lemma demo_sys_sends:
  "sys_step demo_libs Z rogue demo_sys
     (demo_sys\<lparr>sys_net := [To_broker [5] (req_in Z [5] [[77, 48], demo_dequeue_body])], sys_busy := {[5]}\<rparr>)"
  using client_send [of demo_sys "[5]" "[77, 48]" demo_dequeue_body demo_libs Z rogue] demo_request
  by (simp add: demo_sys_def identity_def)



text \<open>(C9) When all peers are clients with REQ sockets, memory is granted and messages are accepted, at
  most one message is in flight for a client, and none for a client that waits for nothing, in every
  state the system can reach. A message on its way to a client is the reply of one frame to the request
  the client is waiting for.
\<close>

theorem one_in_flight:
  assumes init: "sys_init L S" "unsent (sys_broker S) = []" "\<forall>mdt s. sys_readers S mdt = Some s \<longrightarrow> unsent s = [] \<and> identity mdt"
    and reach: "(sys_step L Z False)\<^sup>*\<^sup>* S T"
    and L: "sends_ok L" "allocs_ok L" "small_recs L" "ZMQ_DONTWAIT L = 1" and Z: "zmq_envelopes Z"
  shows "flight (dom (sys_readers T)) c (sys_net T) \<le> (if c \<in> sys_busy T then 1 else 0) \<and>
    (c \<notin> dom (sys_readers T) \<and> From_broker c fs \<in> set (sys_net T) \<longrightarrow> c \<in> sys_busy T \<and> (\<exists>m. fs = [m] \<and> reply_body m))"
proof -
  let ?R = "dom (sys_readers T)"
  have "flight_inv L S"
    using init sys_init_good [OF init(1)] by (simp add: flight_inv_def sys_init_def)
  with sys_flight.good_reach [OF reach] L Z have "flight_inv L T" by (simp add: libs_good_def)
  then have net: "\<forall>p \<in> set (sys_net T). pkt_ok ?R p" and fl: "flight ?R c (sys_net T) \<le> (if c \<in> sys_busy T then 1 else 0)"
    by (simp_all add: flight_inv_def)
  have "c \<in> sys_busy T \<and> (\<exists>m. fs = [m] \<and> reply_body m)" if c: "c \<notin> ?R" "From_broker c fs \<in> set (sys_net T)"
  proof -
    have "From_broker c fs \<in> set (filter (\<lambda>p. owner ?R p = Some c) (sys_net T))" using c by (simp add: owner_def)
    then have "0 < flight ?R c (sys_net T)" unfolding flight_def by (rule length_pos_if_in_set)
    moreover have "pkt_ok ?R (From_broker c fs)" using net c(2) by blast
    ultimately show ?thesis using fl c(1) by (auto elim: pkt_ok_From_broker split: if_splits)
  qed
  with fl show ?thesis by blast
qed

lemma demo_small: "small_recs demo_libs"
proof -
  have "64 + unat w \<le> 2 ^ 31" for w :: "16 word"
    using unsigned_less [of w, where ?'a = nat] by simp
  then show ?thesis by (simp add: small_recs_def rec_len_def demo_libs_def)
qed

lemma demo_links_envelopes: "zmq_envelopes demo_links"
  by (simp add: zmq_envelopes_def demo_links_def)

theorem one_in_flight_witness:
  "\<exists>T. (sys_step demo_libs demo_links False)\<^sup>*\<^sup>* demo_sys T \<and> sys_net T \<noteq> [] \<and> flight (dom (sys_readers T)) [5] (sys_net T) \<le> 1"
proof -
  define T where "T = demo_sys\<lparr>sys_net := [To_broker [5] (req_in demo_links [5] [[77, 48], demo_dequeue_body])], sys_busy := {[5]}\<rparr>"
  have reach: "(sys_step demo_libs demo_links False)\<^sup>*\<^sup>* demo_sys T"
    unfolding T_def by (rule r_into_rtranclp) (rule demo_sys_sends)
  have i: "unsent (sys_broker demo_sys) = []" "\<forall>mdt s. sys_readers demo_sys mdt = Some s \<longrightarrow> unsent s = [] \<and> identity mdt"
    by (simp_all add: demo_sys_def demo_ctx_def demo_reader_def unsent_def identity_def)
  have "flight (dom (sys_readers T)) [5] (sys_net T) \<le> (if [5] \<in> sys_busy T then 1 else 0)"
    using one_in_flight [OF demo_sys_init i reach demo_libs_ok(2,1) demo_small demo_libs_ok(3) demo_links_envelopes, of "[5]"] by blast
  moreover have "sys_net T \<noteq> []" "sys_busy T = {[5]}" by (simp_all add: T_def)
  ultimately show ?thesis using reach by (intro exI [of _ T]) simp
qed

subsection \<open>Peers that are no clients\<close>

text \<open>
  The broker asks no peer who it is: the answer of any peer that names a client is passed to that client,
  which need not have sent anything.
\<close>

theorem forged_reply:
  assumes S: "sys_fault S = None" "broker_inv (sys_broker S)" "unsent (sys_broker S) = []" "sys_net S = []"
    and ids: "r \<notin> dom (sys_readers S)" "c \<notin> dom (sys_readers S)" "identity r" "identity c" and m: "reply_body m"
    and L: "sends_ok L" "allocs_ok L" and Z: "zmq_envelopes Z"
  shows "\<exists>T. (sys_step L Z True)\<^sup>*\<^sup>* S T \<and> sys_net T = [From_broker c [m]] \<and> sys_busy T = sys_busy S"
proof -
  define U where "U = S\<lparr>sys_net := [To_broker r (r # [c, [], m])]\<rparr>"
  have 1: "sys_step L Z True S U"
    using rogue_send [of S True r L Z "[c, [], m]"] S ids by (simp add: U_def)
  have take: "takes U (To_broker r [r, c, [], m]) []"
    by (simp add: takes_def U_def)
  have "filter (\<lambda>f. f \<noteq> []) [r, c, [], m] = [r, c, m]" "length (concat [r, c, [], m]) + 8 < 2 ^ 63"
    using ids body_sizes(2) [OF m] by (auto simp: identity_def)
  from broker_gets_spec [OF L S(2) this broker_spec_reply [OF m] disjI1 [OF reply_no_fault [OF m]]] obtain B where
    B: "broker_gets L [r, c, [], m] (sys_broker S) = Ok 0 B" "emits (sys_broker S) B [[c, [], m]]" by blast
  have out: "new_msgs (sys_broker S) B = [[c, [], m]]" by (rule emits_new(1) [OF B(2) S(3)])
  have "route Z (dom (sys_readers S)) (c # [] # [m]) = [From_broker c [m]]"
    by (rule route_simps(2) [OF Z ids(2)])
  then have 2: "sys_step L Z True U (U\<lparr>sys_broker := B, sys_net := [From_broker c [m]]\<rparr>)"
    using broker_serve [of U r "[r, c, [], m]" "[]" L 0 B Z True] take B(1) out S(1) by (simp add: U_def)
  have "(sys_step L Z True)\<^sup>*\<^sup>* S (U\<lparr>sys_broker := B, sys_net := [From_broker c [m]]\<rparr>)"
    by (rule rtranclp.rtrancl_into_rtrancl [OF r_into_rtranclp [where r = "sys_step L Z True", OF 1] 2])
  then show ?thesis by (intro exI conjI) (assumption, simp_all add: U_def)
qed

end
