(* ===== verification/Reader_Spec_Read.thy ===== *)
theory Reader_Spec_Read
  imports Reader_Spec
begin

text \<open>
  The other source of changes of the specification's state: records read from the changelog go to the
  end of the last bucket, or of a new one when that is full. Reading implements a sequence of such steps.
\<close>

subsection \<open>Specification\<close>

definition spec_put :: "bytes \<Rightarrow> abs_reader \<Rightarrow> abs_reader" where
  "spec_put r A =
     A\<lparr>ar_buckets := butlast (ar_buckets A) @ [(last (ar_buckets A))\<lparr>ab_recs := ab_recs (last (ar_buckets A)) @ [r]\<rparr>]\<rparr>"

definition spec_store :: "int \<Rightarrow> addr \<Rightarrow> bytes \<Rightarrow> abs_reader \<Rightarrow> abs_reader" where
  "spec_store batch fresh r A =
     spec_put r (if int (length (ab_recs (last (ar_buckets A)))) = batch then spec_open fresh A else A)"

text \<open>Storing records one after the other, each new bucket under a name not in use.\<close>

inductive spec_reads :: "int \<Rightarrow> abs_reader \<Rightarrow> bytes list \<Rightarrow> abs_reader \<Rightarrow> bool" for batch where
  reads_none: "spec_reads batch A [] A"
| reads_one: "fresh \<notin> ab_id ` set (ar_buckets A) \<Longrightarrow> spec_reads batch (spec_store batch fresh r A) rs B \<Longrightarrow>
    spec_reads batch A (r # rs) B"

inductive_simps spec_reads_Nil [simp]: "spec_reads batch A [] B"
inductive_simps spec_reads_Cons: "spec_reads batch A (r # rs) B"

text \<open>What such a sequence does: it fills buckets in order and touches nothing else.\<close>

definition spec_stored :: "abs_reader \<Rightarrow> bytes list" where
  "spec_stored A = concat (map ab_recs (ar_buckets A))"

lemma spec_store_effect:
  assumes "ar_buckets A \<noteq> []"
  shows "spec_stored (spec_store batch fresh r A) = spec_stored A @ [r]"
    "ar_clients (spec_store batch fresh r A) = ar_clients A" "ar_next (spec_store batch fresh r A) = ar_next A"
    "ar_buckets (spec_store batch fresh r A) \<noteq> []"
proof -
  have "ar_buckets A = butlast (ar_buckets A) @ [last (ar_buckets A)]" using assms by simp
  then obtain bs b where "ar_buckets A = bs @ [b]" by blast
  then show "spec_stored (spec_store batch fresh r A) = spec_stored A @ [r]"
    "ar_clients (spec_store batch fresh r A) = ar_clients A" "ar_next (spec_store batch fresh r A) = ar_next A"
    "ar_buckets (spec_store batch fresh r A) \<noteq> []"
    by (simp_all add: spec_store_def spec_put_def spec_open_def spec_stored_def butlast_append)
qed

lemma spec_reads_effect:
  assumes "spec_reads batch A rs B" "ar_buckets A \<noteq> []"
  shows "spec_stored B = spec_stored A @ rs \<and> ar_clients B = ar_clients A \<and> ar_next B = ar_next A"
  using assms by (induction rule: spec_reads.induct) (simp_all add: spec_store_effect)

subsection \<open>Reading implements the specification\<close>

text \<open>Changes the abstraction does not see.\<close>

lemma abs_upd [simp]:
  "abs_of (s\<lparr>w_log := l\<rparr>) = abs_of s" "abs_of (s\<lparr>m_changelog := xs\<rparr>) = abs_of s" "abs_of (s\<lparr>re_clpriv := p\<rparr>) = abs_of s"
  "abs_of (counted L r s) = abs_of s"
  by (simp_all add: abs_of_def abs_bkt_def abs_client_def ident_at_def client_bucket_def bkt_at_def buckets_of_def peers_of_def
      counted_def)

lemma abs_ids: "rinv L s bs ps \<Longrightarrow> ab_id ` set (ar_buckets (abs_of s)) = set bs"
  by (auto simp: abs_rinv image_image)

lemma abs_bucket_added:
  assumes inv: "rinv L s bs ps" and add: "bucket_added s u" "rinv L u (bs @ [m_brk s]) ps"
  shows "abs_of u = spec_open (m_brk s) (abs_of s)"
proof -
  have fresh: "m_brk s \<notin> set bs" using inv by (auto simp: rinv_defs)
  have m: "m_bkts u = (m_bkts s)(m_brk s \<mapsto> fresh_bucket (re_bkt_idx s) (ccf_rec_batch_count (re_cfg s)))"
    "m_clients u = m_clients s" "re_deliver_next u = re_deliver_next s"
    using add(1) by (auto simp: bucket_added_def)
  show ?thesis
    using fresh by (intro abs_eqI [OF add(2)])
      (auto simp: spec_open_def abs_rinv [OF inv] abs_bkt_def bkt_at_def abs_client_def ident_at_def client_bucket_def m
        fresh_bucket_def bkt_recs_def)
qed

lemma abs_rec_put:
  assumes inv: "rinv L s bs ps" and r: "rec_len L r \<le> length r"
    and free: "lrb_rec_count (bkt_at s (last bs)) < ccf_rec_batch_count (re_cfg s)"
  shows "abs_of (rec_put L r s) = spec_put r (abs_of s)"
proof -
  let ?a = "last bs"
  have "bs \<noteq> []" and d: "distinct bs" using inv list_rep_distinct by (auto simp: rinv_defs)
  then obtain as where as: "bs = as @ [?a]" "?a \<notin> set as" by (cases bs rule: rev_cases) auto
  obtain b where b: "m_bkts s ?a = Some b" "bucket_ok L (ccf_rec_batch_count (re_cfg s)) b"
    using rinv_bkt [OF inv, of ?a] \<open>bs \<noteq> []\<close> by auto
  have put: "m_bkts (rec_put L r s) = (m_bkts s)(?a \<mapsto> put_rec L r b)" "peers_of (rec_put L r s) = ps"
    "buckets_of (rec_put L r s) = bs" "m_clients (rec_put L r s) = m_clients s" "re_deliver_next (rec_put L r s) = re_deliver_next s"
    using b(1) rinv_lists [OF inv] by (simp_all add: rec_put_def bkt_at_def buckets_of_def peers_of_def Let_def)
  have recs: "bkt_recs (put_rec L r b) = bkt_recs b @ [r]"
    using put_rec_ok(2) [OF b(2) _ r] free b(1) by (simp add: bkt_at_def)
  have at: "abs_bkt (rec_put L r s) ?a = (abs_bkt s ?a)\<lparr>ab_recs := bkt_recs b @ [r]\<rparr>"
    using b(1) recs by (simp add: abs_bkt_def bkt_at_def put(1)) (simp add: put_rec_def)
  have "abs_bkt (rec_put L r s) x = abs_bkt s x" if "x \<in> set as" for x
  proof -
    have "x \<noteq> ?a" using that as(2) by auto
    then show ?thesis by (simp add: abs_bkt_def bkt_at_def put(1))
  qed
  then have "map (abs_bkt (rec_put L r s)) as = map (abs_bkt s) as" by simp
  then have bkts: "map (abs_bkt (rec_put L r s)) (as @ [?a]) = map (abs_bkt s) as @ [(abs_bkt s ?a)\<lparr>ab_recs := bkt_recs b @ [r]\<rparr>]"
    using at by simp
  have old: "ar_buckets (abs_of s) = map (abs_bkt s) as @ [abs_bkt s ?a]" "bkt_recs (bkt_at s ?a) = bkt_recs b"
    using as(1) b(1) by (simp_all add: abs_rinv [OF inv] bkt_at_def) (metis list.simps(8) list.simps(9) map_append)
  have cl: "map (abs_client (rec_put L r s)) ps = ar_clients (abs_of s)"
    by (simp add: abs_rinv [OF inv] abs_client_def ident_at_def client_bucket_def put(4))
  show ?thesis
    unfolding abs_of_def [of "rec_put L r s"] put cl
    using bkts old unfolding as(1) [symmetric] by (simp add: spec_put_def abs_rinv [OF inv])
qed

lemma abs_rec_store:
  assumes inv: "rinv L s bs ps" and r: "rec_len L r \<le> length r"
  shows "(\<exists>l. changelog_reader_rec_store L r s = Ok (- ENOMEM) (s\<lparr>w_log := l\<rparr>)) \<or>
    (\<exists>u fresh. changelog_reader_rec_store L r s = Ok 0 u \<and> fresh \<notin> ab_id ` set (ar_buckets (abs_of s)) \<and>
       abs_of u = spec_store (ccf_rec_batch_count (re_cfg s)) fresh r (abs_of s))"
  using inv
proof (cases rule: rec_store_cases [where r = r])
  case (nomem l)
  then show ?thesis by blast
next
  case (put u bs')
  have ne: "bs \<noteq> []" and fresh: "m_brk s \<notin> set bs" using inv by (auto simp: rinv_defs)
  obtain b where b: "m_bkts s (last bs) = Some b" "bucket_ok L (ccf_rec_batch_count (re_cfg s)) b"
    using rinv_bkt [OF inv, of "last bs"] ne by auto
  have count: "lrb_rec_count (bkt_at s (last bs)) = int (length (ab_recs (last (ar_buckets (abs_of s)))))"
    using ne b bucket_ok_count [OF b(2)] by (simp add: abs_rinv [OF inv] last_map bkt_at_def)
  have "abs_of (rec_put L r u) = spec_store (ccf_rec_batch_count (re_cfg s)) (m_brk s) r (abs_of s)"
    using abs_rec_put [OF put(2) r put(3)] put(2,4) abs_bucket_added [OF inv, of u] count
    by (auto simp: spec_store_def split: if_splits)
  then show ?thesis using put(1) fresh abs_ids [OF inv] by blast
qed

subsection \<open>The receive loop\<close>

text \<open>
  Reading from \<open>s\<close> to \<open>t\<close>, \<open>xs\<close> being the changelog at \<open>s\<close>: what is accepted of the records taken is
  what the specification reads.
\<close>

definition reads_to :: "libs \<Rightarrow> (int + bytes) list \<Rightarrow> reader_env \<Rightarrow> reader_env \<Rightarrow> bool" where
  "reads_to L xs s t \<longleftrightarrow> (\<exists>taken lost. xs = map Inr taken @ lost @ m_changelog t \<and> length lost \<le> 1 \<and>
     spec_reads (ccf_rec_batch_count (re_cfg s)) (abs_of s) (accepted L (re_srec s) taken) (abs_of t))"

text \<open>The loop sees the state up to its log and the changelog.\<close>

definition alike :: "reader_env \<Rightarrow> reader_env \<Rightarrow> bool" where
  "alike s u \<longleftrightarrow> abs_of u = abs_of s \<and> re_srec u = re_srec s \<and> re_cfg u = re_cfg s"

lemma reads_stop: "alike s t \<Longrightarrow> xs = lost @ m_changelog t \<Longrightarrow> length lost \<le> 1 \<Longrightarrow> reads_to L xs s t"
  unfolding reads_to_def alike_def by (auto intro!: exI [of _ "[]"] exI [of _ lost])

lemma reads_skip:
  assumes "reads_to L xs u t" "cr_index L r < re_srec s" "alike s u"
  shows "reads_to L (Inr r # xs) s t"
proof -
  obtain taken lost where "xs = map Inr taken @ lost @ m_changelog t" "length lost \<le> 1"
     "spec_reads (ccf_rec_batch_count (re_cfg u)) (abs_of u) (accepted L (re_srec u) taken) (abs_of t)"
    using assms(1) unfolding reads_to_def by blast
  with assms(2,3) show ?thesis
    unfolding reads_to_def alike_def by (auto intro!: exI [of _ "r # taken"] exI [of _ lost])
qed

lemma reads_store:
  assumes "reads_to L xs u t" "\<not> cr_index L r < re_srec s" "re_srec u = cr_index L r + 1" "re_cfg u = re_cfg s"
    "fresh \<notin> ab_id ` set (ar_buckets (abs_of s))" "abs_of u = spec_store (ccf_rec_batch_count (re_cfg s)) fresh r (abs_of s)"
  shows "reads_to L (Inr r # xs) s t"
proof -
  obtain taken lost where "xs = map Inr taken @ lost @ m_changelog t" "length lost \<le> 1"
     "spec_reads (ccf_rec_batch_count (re_cfg u)) (abs_of u) (accepted L (re_srec u) taken) (abs_of t)"
    using assms(1) unfolding reads_to_def by blast
  with assms(2-) show ?thesis
    unfolding reads_to_def by (auto intro!: exI [of _ "r # taken"] exI [of _ lost] reads_one)
qed

lemma after_store_reads:
  assumes t: "rinv L t bs ps" "m_changelog t = xs"
    and IH: "run never (enqueue_loop L bsz (n + 1) xs t) (\<lambda>_ t'. reads_to L xs t t')"
  shows "run never (after_store L bsz n xs t) (\<lambda>_ t'. reads_to L xs t t')"
proof -
  have cfg: "cfg_ok (re_cfg t)" using t(1) by (simp add: rinv_def)
  have "reads_to L xs t t" using t(2) by (intro reads_stop [of _ _ _ "[]"]) (simp_all add: alike_def)
  with IH show ?thesis by (auto simp: after_store_def changelog_reader_full_eq [OF cfg])
qed

lemma enqueue_loop_reads:
  assumes "rinv L s bs ps" "changelog_ok L xs" "m_changelog s = xs"
  shows "run never (enqueue_loop L bsz n xs s) (\<lambda>_ t. reads_to L xs s t)"
  using assms
proof (induction xs arbitrary: n s bs)
  case Nil
  then show ?case by (auto intro!: reads_stop [of _ _ _ "[]"] simp: alike_def)
next
  case (Cons x xs)
  show ?case
  proof (cases x)
    case (Inl rc)
    with Cons.prems show ?thesis
      by (auto intro!: reads_stop [of _ _ _ "[Inl rc]"] simp: alike_def changelog_ok_def Let_def)
  next
    case (Inr r)
    define u where "u = s\<lparr>w_log := Ev_ll_recv (Inr r) # w_log s, m_changelog := xs\<rparr>"
    define v where "v = u\<lparr>w_log := Ev_term_sig (lib_term_sig L (w_log u)) # w_log u\<rparr>"
    have r: "rec_len L r \<le> length r" and ok: "changelog_ok L xs"
      using Cons.prems Inr by (auto simp: changelog_ok_def)
    have v: "rinv L v bs ps" "m_changelog v = xs" "alike s v"
      using Cons.prems by (auto simp: u_def v_def alike_def)
    note loop = enqueue_loop_Inr [of L bsz n r xs s, folded u_def, folded v_def]
    have stop: "reads_to L (Inr r # xs) s (v\<lparr>w_log := l\<rparr>)" for l
      using v by (intro reads_stop [of _ _ _ "[Inr r]"]) (simp_all add: alike_def)
    consider "lib_term_sig L (w_log u)" | "\<not> lib_term_sig L (w_log u)" "cr_index L r < re_srec s"
      | "\<not> lib_term_sig L (w_log u)" "\<not> cr_index L r < re_srec s" by blast
    then show ?thesis
    proof cases
      case 1
      with Inr loop stop [of "w_log v"] show ?thesis by simp
    next
      case 2
      have "run never (enqueue_loop L bsz n xs v) (\<lambda>_ t. reads_to L (x # xs) s t)"
        using Cons.IH [OF v(1) ok v(2), of n] reads_skip [OF _ 2(2) v(3)] Inr by (elim run_mono) auto
      with 2 loop v Inr show ?thesis by (simp add: alike_def)
    next
      case 3
      have "run never (after_store L bsz n xs (counted L r t)) (\<lambda>_ t'. reads_to L (x # xs) s t')"
        if t: "rinv L (counted L r t) bs' ps" "m_changelog (counted L r t) = m_changelog v" "re_cfg (counted L r t) = re_cfg v"
          and a: "fresh \<notin> ab_id ` set (ar_buckets (abs_of v))"
            "abs_of t = spec_store (ccf_rec_batch_count (re_cfg v)) fresh r (abs_of v)" for t bs' fresh
      proof -
        have xs: "m_changelog (counted L r t) = xs" using t(2) v(2) by simp
        have "re_srec (counted L r t) = cr_index L r + 1" by (simp add: counted_def)
        with reads_store [of L xs "counted L r t" _ r s fresh] t(3) a v(3) 3(2) Inr
        have "reads_to L (x # xs) s t'" if "reads_to L xs (counted L r t) t'" for t'
          using that by (simp add: alike_def)
        then show ?thesis
          by (intro run_mono [OF after_store_reads [OF t(1) xs Cons.IH [OF t(1) ok xs]]]) auto
      qed
      note after = this
      obtain rc t where st: "changelog_reader_rec_store L r v = Ok rc t"
        "(rc = - ENOMEM \<and> (\<exists>l. t = v\<lparr>w_log := l\<rparr>)) \<or>
         (rc = 0 \<and> (\<exists>bs'. rinv L (counted L r t) bs' ps) \<and> store_frame v (counted L r t) \<and>
           m_changelog (counted L r t) = m_changelog v)"
        using rec_store_counted [OF v(1) r] by (auto simp: run_never)
      have "run never (if rc \<noteq> 0 then Ok (rc, n) t else after_store L bsz n xs (counted L r t)) (\<lambda>_ t'. reads_to L (x # xs) s t')"
      proof (cases "rc = 0")
        case False
        with st(2) stop Inr show ?thesis by auto
      next
        case True
        then obtain fresh where "fresh \<notin> ab_id ` set (ar_buckets (abs_of v))"
            "abs_of t = spec_store (ccf_rec_batch_count (re_cfg v)) fresh r (abs_of v)"
          using abs_rec_store [OF v(1) r] st(1) by auto
        with st(2) True after show ?thesis by (auto simp: store_frame_def)
      qed
      with 3 loop v(3) Inr st(1) show ?thesis by (simp add: alike_def)
    qed
  qed
qed

lemma enqueue_reads:
  assumes inv: "rinv L s bs ps" and ok: "changelog_ok L (m_changelog s)"
  shows "run never (changelog_reader_enqueue L s) (\<lambda>_ t. reads_to L (m_changelog s) s t)"
proof -
  have cfg: "cfg_ok (re_cfg s)" using inv by (simp add: rinv_def)
  have loop: "run never (bindR (enqueue_loop L (ccf_rec_batch_count (re_cfg u)) 0 (m_changelog u) u)
      (\<lambda>(rc, n) s. if rc = 1 \<or> rc = - EAGAIN \<or> rc = - EPROTO
         then Ok rc (s\<lparr>w_log := Ev_ll_fini # w_log s, re_clpriv := False\<rparr>) else Ok rc s))
    (\<lambda>_ t. reads_to L (m_changelog s) s t)" if u: "u = s\<lparr>w_log := l, re_clpriv := p\<rparr>" for u l p
  proof -
    have "rinv L u bs ps" "m_changelog u = m_changelog s" using inv u by simp_all
    from enqueue_loop_reads [OF this(1) _ this(2)] ok
    have "run never (enqueue_loop L (ccf_rec_batch_count (re_cfg u)) 0 (m_changelog u) u) (\<lambda>_ t. reads_to L (m_changelog s) u t)"
      using u by simp
    then show ?thesis
      unfolding run_simps(3) using u by (elim run_mono) (auto simp: reads_to_def split_def)
  qed
  have self: "s = s\<lparr>w_log := w_log s, re_clpriv := re_clpriv s\<rparr>" by (cases s) simp
  have idle: "reads_to L (m_changelog s) s (s\<lparr>w_log := l, re_clpriv := p\<rparr>)" for l p
    by (intro reads_stop [of _ _ _ "[]"]) (simp_all add: alike_def)
  show ?thesis
  proof (cases "re_rec_cnt s \<ge> limit s")
    case True
    with idle [where l = "w_log s" and p = "re_clpriv s"] self show ?thesis
      by (simp add: changelog_reader_enqueue_def changelog_reader_full_eq [OF cfg])
  next
    case False
    then show ?thesis
      using loop [OF self] loop [OF refl] idle
      unfolding changelog_reader_enqueue_def changelog_reader_full_eq [OF cfg]
      by (cases "re_clpriv s") (simp_all add: Let_def)
  qed
qed

text \<open>(C3) Reading implements the specification: the records accepted from a prefix of the changelog are
  stored one after the other, each at the end of the open bucket or, when that is full, of a new one
  whose name was not in use; clients and the position of delivery stay. The records accepted have
  strictly increasing indices, none below the index wanted, so no record is cached twice, also when
  Lustre sends records again after a restart of the changelog.\<close>

theorem reading_implements_spec:
  assumes "reader_inv L s" "changelog_ok L (m_changelog s)" "re_rec_cnt s \<le> limit s"
  shows "\<exists>rc t taken lost. changelog_reader_enqueue L s = Ok rc t \<and> reader_inv L t \<and>
    m_changelog s = map Inr taken @ lost @ m_changelog t \<and> length lost \<le> 1 \<and>
    spec_reads (ccf_rec_batch_count (re_cfg s)) (abs_of s) (accepted L (re_srec s) taken) (abs_of t) \<and>
    ar_clients (abs_of t) = ar_clients (abs_of s) \<and> ar_next (abs_of t) = ar_next (abs_of s) \<and>
    ((\<forall>r \<in> set taken. cr_index L r < - 1) \<longrightarrow>
       sorted_wrt (<) (map (cr_index L) (accepted L (re_srec s) taken)) \<and>
       (\<forall>r \<in> set (accepted L (re_srec s) taken). re_srec s \<le> cr_index L r))"
proof -
  obtain bs ps where r: "rinv L s bs ps" using reader_invE [OF assms(1)] .
  obtain rc t where t: "changelog_reader_enqueue L s = Ok rc t" "enq_post L s ps t" "reads_to L (m_changelog s) s t"
    using changelog_reader_enqueue_spec [OF r assms(2,3)] enqueue_reads [OF r assms(2)] by (auto simp: run_never)
  then obtain taken lost where reads: "m_changelog s = map Inr taken @ lost @ m_changelog t" "length lost \<le> 1"
      "spec_reads (ccf_rec_batch_count (re_cfg s)) (abs_of s) (accepted L (re_srec s) taken) (abs_of t)"
    unfolding reads_to_def by blast
  have "bs \<noteq> []" using r by (auto simp: rinv_defs)
  then have "ar_buckets (abs_of s) \<noteq> []" by (simp add: abs_rinv [OF r])
  note effect = spec_reads_effect [OF reads(3) this]
  have "reader_inv L t" using t(2) reader_invI by (auto simp: enq_post_def)
  with t(1) reads effect accepted_sorted accepted_above show ?thesis
    by (intro exI [of _ rc] exI [of _ t] exI [of _ taken] exI [of _ lost]) blast
qed

theorem reading_implements_spec_witness:
  "\<exists>rc t rs. changelog_reader_enqueue demo_libs demo_waiting = Ok rc t \<and> spec_reads 2 demo_abs rs (abs_of t) \<and>
     ar_clients (abs_of t) = [(cid [5], None)]"
proof -
  have inv: "rinv demo_libs demo_waiting [0, 2] [1]" using demo_reader_ok by (simp add: demo_waiting_def)
  have ok: "changelog_ok demo_libs (m_changelog demo_waiting)" "re_rec_cnt demo_waiting \<le> limit demo_waiting"
    by (simp_all add: demo_waiting_def changelog_ok_def limit_def demo_reader_def demo_cfg_def
        rec_len_def demo_libs_def) (simp add: numeral_eq_Suc)
  have abs: "abs_of demo_waiting = demo_abs" using demo_abs by (simp add: demo_waiting_def)
  have n: "ccf_rec_batch_count (re_cfg demo_waiting) = 2" by (simp add: demo_waiting_def demo_reader_def demo_cfg_def)
  have "ar_clients demo_abs = [(cid [5], None)]" by (simp add: demo_abs_def)
  with reading_implements_spec [OF reader_invI [OF inv] ok] show ?thesis unfolding abs n by auto
qed

end
