(* ===== verification/Reader_Trace.thy ===== *)
theory Reader_Trace
  imports Reader_Spec_Read Reader_Quiet
begin

text \<open>
  What a reader does over a whole run, whatever its clients send and whenever it reads: which
  records it delivers and in which order, and when it lets Lustre forget records. A run is a sequence of
  requests and reads; its trace holds what can be seen from outside, latest first.
\<close>

subsection \<open>Runs\<close>

text \<open>
  A read of records into the cache, or a request: its sender, whether delivery starts over because the
  deadline of the first bucket has passed, and the messages sent. In between, the thread polls and receives,
  which changes its log and its waiting messages only and sends nothing.
\<close>

datatype io =
    Took "bytes list"
  | Served conn_id lcapnet_request bool "bytes list list"

inductive reader_run :: "libs \<Rightarrow> reader_env \<Rightarrow> io list \<Rightarrow> reader_env \<Rightarrow> bool" for L s where
  run_start: "reader_run L s [] s"
| run_read: "reader_run L s tr t \<Longrightarrow> changelog_reader_enqueue L t = Ok rc u \<Longrightarrow> stored u = stored t @ rs \<Longrightarrow>
    reader_run L s (Took rs # tr) u"
| run_idle: "reader_run L s tr t \<Longrightarrow> world.more u = world.more t \<Longrightarrow> waits t u \<Longrightarrow> reader_run L s tr u"
| run_serve: "reader_run L s tr t \<Longrightarrow> req_ok 3 req \<Longrightarrow> lr_forward req = Some c \<Longrightarrow> ci_length c + 8 < 2 ^ 63 \<Longrightarrow>
    \<forall>d \<in> set (buckets_of t). lrb_size (bkt_at t d) + sizeof_enqueue < 2 ^ 63 \<Longrightarrow>
    changelog_reader_rpc_hdl L req t = Ok rc u \<Longrightarrow> emits t u ms \<Longrightarrow>
    reader_run L s (Served c req (expired L t) ms # tr) u"

text \<open>All records read, in order.\<close>

fun taken :: "io list \<Rightarrow> bytes list" where
  "taken [] = []"
| "taken (Took rs # tr) = taken tr @ rs"
| "taken (Served c req again ms # tr) = taken tr"

text \<open>The ENQUEUE message among the messages that answer a request.\<close>

definition batch_in :: "bytes list list \<Rightarrow> bytes option" where
  "batch_in ms = (case ms of [fs] \<Rightarrow> if body_op (last fs) = rpc_op_code RPC_OP_ENQUEUE then Some (last fs) else None | _ \<Rightarrow> None)"

text \<open>The batches delivered since delivery last started over, in order.\<close>

fun pass :: "io list \<Rightarrow> bytes list" where
  "pass [] = []"
| "pass (Took rs # tr) = pass tr"
| "pass (Served c req again ms # tr) =
     (case batch_in ms of None \<Rightarrow> pass tr | Some b \<Rightarrow> if again then [b] else pass tr @ [b])"

text \<open>The last batch a client got, and whether a batch has been acknowledged: a client that got it sent a CLEAR.\<close>

fun last_batch :: "conn_id \<Rightarrow> io list \<Rightarrow> bytes option" where
  "last_batch c [] = None"
| "last_batch c (Took rs # tr) = last_batch c tr"
| "last_batch c (Served c' req again ms # tr) =
     (if c' = c \<and> batch_in ms \<noteq> None then batch_in ms else last_batch c tr)"

definition is_clear :: "lcapnet_request \<Rightarrow> bool" where
  "is_clear req \<longleftrightarrow> sizeof_clear \<le> lr_body_len req \<and> rpc_op_of (body_op (lr_body req)) = Some RPC_OP_CLEAR"

fun acknowledged :: "bytes \<Rightarrow> io list \<Rightarrow> bool" where
  "acknowledged b [] = False"
| "acknowledged b (Took rs # tr) = acknowledged b tr"
| "acknowledged b (Served c req again ms # tr) = (is_clear req \<and> last_batch c tr = Some b \<or> acknowledged b tr)"

text \<open>The message that carries records.\<close>

definition batch_body :: "libs \<Rightarrow> bytes list \<Rightarrow> bytes" where
  "batch_body L rs = enqueue_msg (int (length rs)) (record_bytes L rs)"

lemma body_op_batch: "body_op (batch_body L rs) = rpc_op_code RPC_OP_ENQUEUE"
  unfolding batch_body_def enqueue_msg_def by (rule body_op_mk_hdr) (simp add: enc_enqueue_def)

lemma batch_in_reply:
  "batch_in (reply_frames L c r) = (case r of Batch rs \<Rightarrow> Some (batch_body L rs) | _ \<Rightarrow> None)"
proof (cases r)
  case (Batch rs)
  then show ?thesis using body_op_batch [of L rs] by (simp add: batch_in_def reply_frames_def peer_frames_def batch_body_def)
qed (simp_all add: batch_in_def reply_frames_def peer_frames_def)

text \<open>A trace holds all messages sent.\<close>

fun sent_in :: "io list \<Rightarrow> bytes list list" where
  "sent_in [] = []"
| "sent_in (Took rs # tr) = sent_in tr"
| "sent_in (Served c req again ms # tr) = sent_in tr @ ms"

lemma waits_emits: "waits s t \<Longrightarrow> emits s t []"
  unfolding waits_def by (auto simp: list_all_iff intro!: emits_quiet waiting_quiet)

lemma reader_run_emits: "reader_run L s tr t \<Longrightarrow> emits s t (sent_in tr)"
proof (induction rule: reader_run.induct)
  case (run_read tr t rc u rs)
  then show ?case using emits_trans [OF _ changelog_reader_enqueue_quiet] by fastforce
next
  case (run_idle tr t u)
  then show ?case using emits_trans [OF _ waits_emits] by fastforce
qed (auto intro: emits_trans)

subsection \<open>The shelf\<close>

text \<open>
  Each bucket with its records. All but the last are closed: their records no longer change. They are the
  shelf, which only grows.
\<close>

definition core :: "abs_reader \<Rightarrow> (addr \<times> bytes list) list" where
  "core A = map (\<lambda>b. (ab_id b, ab_recs b)) (ar_buckets A)"

definition shelf :: "abs_reader \<Rightarrow> (addr \<times> bytes list) list" where
  "shelf A = butlast (core A)"

definition ready_ids :: "abs_reader \<Rightarrow> addr set" where
  "ready_ids A = ab_id ` set (filter ab_ready (ar_buckets A))"

lemma core_stored: "concat (map snd (core A)) = spec_stored A"
  by (simp add: core_def spec_stored_def comp_def)

lemma core_ids: "map fst (core A) = map ab_id (ar_buckets A)"
  by (simp add: core_def)

lemma core_on_bucket:
  assumes "\<And>b. ab_id (f b) = ab_id b \<and> ab_recs (f b) = ab_recs b"
  shows "core (on_bucket d f A) = core A"
  using assms by (simp add: core_def on_bucket_def comp_def if_distrib cong: map_cong)

lemma core_hold [simp]: "core (hold c p A) = core A" "shelf (hold c p A) = shelf A" "ready_ids (hold c p A) = ready_ids A"
  "ar_next (hold c p A) = ar_next A"
  by (simp_all add: core_def shelf_def ready_ids_def hold_def)

lemma core_open: "core (spec_open fresh A) = core A @ [(fresh, [])]" "ready_ids (spec_open fresh A) = ready_ids A"
  "ar_clients (spec_open fresh A) = ar_clients A" "ar_next (spec_open fresh A) = ar_next A"
  by (auto simp: core_def ready_ids_def spec_open_def)

lemma core_put:
  assumes "ar_buckets A = bs @ [b]"
  shows "core (spec_put r A) = butlast (core A) @ [(ab_id b, ab_recs b @ [r])]" "ready_ids (spec_put r A) = ready_ids A"
    "ar_clients (spec_put r A) = ar_clients A" "ar_next (spec_put r A) = ar_next A"
  using assms by (auto simp: core_def ready_ids_def spec_put_def butlast_append map_butlast)

subsection \<open>What holds in every run of the specification\<close>

text \<open>
  The batches of the current pass are the first ones of the shelf, and the bucket to deliver next, when
  there is one, follows them. The bucket a client holds is on the shelf and is what the client got last.
  A bucket that is ready is on the shelf and has been acknowledged.
\<close>

definition run_ok :: "libs \<Rightarrow> io list \<Rightarrow> abs_reader \<Rightarrow> bool" where
  "run_ok L tr A \<longleftrightarrow> distinct (map fst (core A)) \<and> core A \<noteq> [] \<and>
     (\<exists>k \<le> length (shelf A). pass tr = map (batch_body L \<circ> snd) (take k (shelf A)) \<and>
        (\<forall>d. ar_next A = Some d \<longrightarrow> d = fst (core A ! k))) \<and>
     (\<forall>c d. (c, Some d) \<in> set (ar_clients A) \<longrightarrow>
        (\<exists>rs. (d, rs) \<in> set (shelf A) \<and> last_batch c tr = Some (batch_body L rs))) \<and>
     (\<forall>d \<in> ready_ids A. \<exists>rs. (d, rs) \<in> set (shelf A) \<and> acknowledged (batch_body L rs) tr)"

lemma run_okE:
  assumes "run_ok L tr A"
  obtains k where "distinct (map fst (core A))" "core A \<noteq> []" "k \<le> length (shelf A)"
    "pass tr = map (batch_body L \<circ> snd) (take k (shelf A))" "\<forall>d. ar_next A = Some d \<longrightarrow> d = fst (core A ! k)"
    "\<forall>c d. (c, Some d) \<in> set (ar_clients A) \<longrightarrow> (\<exists>rs. (d, rs) \<in> set (shelf A) \<and> last_batch c tr = Some (batch_body L rs))"
    "\<forall>d \<in> ready_ids A. \<exists>rs. (d, rs) \<in> set (shelf A) \<and> acknowledged (batch_body L rs) tr"
  using assms unfolding run_ok_def by blast

lemma run_ok_Took [simp]: "run_ok L (Took rs # tr) A = run_ok L tr A"
  by (simp add: run_ok_def)

text \<open>Buckets may be added and the last one filled.\<close>

definition grows :: "abs_reader \<Rightarrow> abs_reader \<Rightarrow> bool" where
  "grows A C \<longleftrightarrow> distinct (map fst (core C)) \<and> (\<exists>ys. map fst (core C) = map fst (core A) @ ys) \<and>
     (\<exists>zs. shelf C = shelf A @ zs) \<and> ready_ids C = ready_ids A \<and> ar_clients C = ar_clients A \<and> ar_next C = ar_next A"

lemma run_ok_grows:
  assumes "run_ok L tr A" "grows A C"
  shows "run_ok L tr C"
  using assms(1)
proof (cases rule: run_okE)
  case (1 k)
  obtain ys zs where g: "distinct (map fst (core C))" "map fst (core C) = map fst (core A) @ ys" "shelf C = shelf A @ zs"
      "ready_ids C = ready_ids A" "ar_clients C = ar_clients A" "ar_next C = ar_next A"
    using assms(2) by (auto simp: grows_def)
  have k: "k < length (core A)" using 1(2,3) by (cases "core A" rule: rev_cases) (auto simp: shelf_def)
  have "length (core A) \<le> length (core C)" using arg_cong [OF g(2), of length] by simp
  then have "fst (core C ! k) = map fst (core C) ! k" using k by simp
  also have "\<dots> = map fst (core A) ! k" unfolding g(2) using k by (simp add: nth_append)
  finally have at: "fst (core C ! k) = fst (core A ! k)" using k by simp
  show ?thesis
    unfolding run_ok_def
  proof (intro conjI exI [of _ k])
    show "core C \<noteq> []" using 1(2) g(2) by auto
    show "\<forall>c d. (c, Some d) \<in> set (ar_clients C) \<longrightarrow>
        (\<exists>rs. (d, rs) \<in> set (shelf C) \<and> last_batch c tr = Some (batch_body L rs))"
      using 1(6) unfolding g(3,5) set_append by blast
    show "\<forall>d \<in> ready_ids C. \<exists>rs. (d, rs) \<in> set (shelf C) \<and> acknowledged (batch_body L rs) tr"
      using 1(7) unfolding g(3,4) set_append by blast
  qed (use 1(3-5) g(1,3,6) at in simp_all)
qed

lemma grows_open: "distinct (map fst (core A)) \<Longrightarrow> core A \<noteq> [] \<Longrightarrow> fresh \<notin> fst ` set (core A) \<Longrightarrow> grows A (spec_open fresh A)"
  by (cases "core A" rule: rev_cases) (auto simp: grows_def core_open shelf_def butlast_append)

lemma grows_put:
  assumes "distinct (map fst (core A))" "core A \<noteq> []"
  shows "grows A (spec_put r A)"
proof -
  obtain bs b where A: "ar_buckets A = bs @ [b]" using assms(2) by (cases "ar_buckets A" rule: rev_cases) (auto simp: core_def)
  then have "core A = map (\<lambda>b. (ab_id b, ab_recs b)) bs @ [(ab_id b, ab_recs b)]" by (simp add: core_def)
  with assms(1) show ?thesis by (simp add: grows_def core_put [OF A] shelf_def)
qed

lemma run_ok_reads:
  assumes "spec_reads batch A rs B" "run_ok L tr A"
  shows "run_ok L tr B"
  using assms
proof (induction rule: spec_reads.induct)
  case (reads_one fresh A r rs B)
  have A: "distinct (map fst (core A))" "core A \<noteq> []" using reads_one.prems by (simp_all add: run_ok_def)
  have "fresh \<notin> fst ` set (core A)" using reads_one.hyps(1) by (simp add: core_def image_image)
  note opened = run_ok_grows [OF reads_one.prems grows_open [OF A this]]
  have "run_ok L tr (spec_put r C)" if "run_ok L tr C" for C
    using that by (intro run_ok_grows [OF that grows_put]) (simp_all add: run_ok_def)
  from this [OF opened] this [OF reads_one.prems] reads_one.IH show ?case
    by (simp add: spec_store_def split: if_splits)
qed simp

text \<open>A request that delivers nothing and acknowledges nothing.\<close>

lemma run_ok_served:
  assumes "run_ok L tr A" "batch_in ms = None" "core C = core A" "ready_ids C \<subseteq> ready_ids A" "ar_next C = ar_next A"
    and "\<forall>i d. (i, Some d) \<in> set (ar_clients C) \<longrightarrow> (i, Some d) \<in> set (ar_clients A)"
  shows "run_ok L (Served c req again ms # tr) C"
  using assms(1)
proof (cases rule: run_okE)
  case (1 k)
  then show ?thesis
    unfolding run_ok_def using assms(2-) by (intro conjI exI [of _ k]) (auto simp: shelf_def)
qed

lemma run_ok_acknowledged:
  assumes run: "run_ok L tr A" and d: "(c, Some d) \<in> set (ar_clients A)" and req: "is_clear req" and ms: "batch_in ms = None"
    and C: "C = hold c None (on_bucket d (\<lambda>b. b\<lparr>ab_ready := True\<rparr>) A)"
  shows "run_ok L (Served c req again ms # tr) C"
  using run
proof (cases rule: run_okE)
  case (1 k)
  obtain rs where rs: "(d, rs) \<in> set (shelf A)" "last_batch c tr = Some (batch_body L rs)" using 1(6) d by blast
  have eq: "core C = core A" "ar_next C = ar_next A" by (simp_all add: C core_on_bucket) (simp add: on_bucket_def)
  have ready: "ready_ids C \<subseteq> insert d (ready_ids A)"
    by (auto simp: C ready_ids_def on_bucket_def hold_def split: if_splits)
  have cl: "(i, Some e) \<in> set (ar_clients A)" if "(i, Some e) \<in> set (ar_clients C)" for i e
    using that by (auto simp: C hold_def on_bucket_def split: if_splits)
  have "\<exists>rs. (e, rs) \<in> set (shelf C) \<and> acknowledged (batch_body L rs) (Served c req again ms # tr)" if "e \<in> ready_ids C" for e
    using that ready rs req 1(7) by (auto simp: shelf_def eq)
  with 1 eq cl ms show ?thesis
    unfolding run_ok_def by (intro conjI exI [of _ k]) (auto simp: shelf_def)
qed

lemma after_in_nth:
  assumes "distinct ids" "j < length ids"
  shows "after_in ids (ids ! j) = (if Suc j < length ids then Some (ids ! Suc j) else None)"
proof -
  have "ids ! j \<notin> set (take j ids)"
    using assms by (auto simp: in_set_conv_nth nth_eq_iff_index_eq)
  then have "after_in (take j ids @ ids ! j # drop (Suc j) ids) (ids ! j) = head_or (drop (Suc j) ids) None"
    by (rule after_in_split)
  then have "after_in ids (ids ! j) = head_or (drop (Suc j) ids) None"
    unfolding id_take_nth_drop [OF assms(2), symmetric] .
  then show ?thesis by (cases "Suc j < length ids") (simp_all add: Cons_nth_drop_Suc [symmetric])
qed

lemma filter_key: "distinct (map fst xs) \<Longrightarrow> x \<in> set xs \<Longrightarrow> filter (\<lambda>y. fst y = fst x) xs = [x]"
  by (induction xs) (force simp: filter_empty_conv)+

lemma recs_of_core:
  assumes "distinct (map fst (core A))" "x \<in> set (core A)"
  shows "recs_of (fst x) A = snd x"
proof -
  have "recs_of (fst x) A = concat (map snd (filter (\<lambda>y. fst y = fst x) (core A)))"
    by (simp add: recs_of_def core_def filter_map comp_def)
  with filter_key [OF assms] show ?thesis by simp
qed

text \<open>Choosing a bucket changes no records; the one chosen is the first or the next.\<close>

lemma spec_pick_core:
  assumes "spec_pick now A = (p, B)" "core A \<noteq> []"
  shows "core B = core A" "ready_ids B \<subseteq> ready_ids A" "ar_clients B = ar_clients A"
    "ar_next B = Option.bind p (after_in (map fst (core A)))"
    "p = (if ab_expiry (hd (ar_buckets A)) < now then Some (fst (hd (core A))) else ar_next A)"
proof -
  let ?P = "\<lambda>b. Some (ab_id b) \<noteq> ar_next A" and ?f = "\<lambda>b. (ab_id b, ab_recs b)"
  let ?u = "\<lambda>b. b\<lparr>ab_ready := False\<rparr>"
  define bs where "bs = (if ab_expiry (hd (ar_buckets A)) < now
    then map ?u (takeWhile ?P (ar_buckets A)) @ dropWhile ?P (ar_buckets A) else ar_buckets A)"
  have B: "p = (if ab_expiry (hd (ar_buckets A)) < now then Some (ab_id (hd (ar_buckets A))) else ar_next A)"
      "B = A\<lparr>ar_buckets := bs, ar_next := Option.bind p (after_in (map ab_id (ar_buckets A)))\<rparr>"
    using assms(1) by (auto simp: spec_pick_def Let_def bs_def split: if_splits)
  have "map ?f (takeWhile ?P (ar_buckets A)) @ map ?f (dropWhile ?P (ar_buckets A)) = map ?f (ar_buckets A)"
    by (metis map_append takeWhile_dropWhile_id)
  then have "map ?f bs = map ?f (ar_buckets A)" by (simp add: bs_def comp_def)
  then show "core B = core A" by (simp add: B(2) core_def)
  have "set (filter ab_ready bs) \<subseteq> set (ar_buckets A)"
    by (auto simp: bs_def dest: set_dropWhileD split: if_splits)
  then show "ready_ids B \<subseteq> ready_ids A" unfolding ready_ids_def B(2) by (intro image_mono) auto
  show "ar_clients B = ar_clients A" "ar_next B = Option.bind p (after_in (map fst (core A)))"
    by (simp_all add: B(2) core_def comp_def)
  show "p = (if ab_expiry (hd (ar_buckets A)) < now then Some (fst (hd (core A))) else ar_next A)"
    using assms(2) B(1) by (simp add: core_def hd_map)
qed

text \<open>
  Delivering the bucket at position \<open>j\<close>, after the batches of the pass so far: the state in which it is sent is
  \<open>D\<close>, with a new bucket when it was the open one.
\<close>

lemma run_ok_delivered:
  assumes run: "run_ok L tr A" and j: "d = fst (core A ! j)" "j \<le> length (shelf A)"
    and pass: "(if again then [] else pass tr) = map (batch_body L \<circ> snd) (take j (shelf A))"
    and B: "core B = core A" "ready_ids B \<subseteq> ready_ids A" "ar_clients B = ar_clients A" "ar_next B = after_in (map fst (core A)) d"
    and D: "D = (if d = fst (last (core A)) then spec_open fresh B else B)" and fresh: "fresh \<notin> fst ` set (core A)"
    and ms: "batch_in ms = Some (batch_body L (recs_of d D))"
    and f: "\<And>b. ab_id (f b) = ab_id b \<and> ab_recs (f b) = ab_recs b \<and> ab_ready (f b) = ab_ready b"
  shows "run_ok L (Served c req again ms # tr) (hold c (Some d) (on_bucket d f D))"
  using run
proof (cases rule: run_okE)
  case (1 k)
  let ?G = "on_bucket d f D" and ?K = "core A"
  have len: "j < length ?K" using j(2) 1(2) by (cases ?K rule: rev_cases) (simp_all add: shelf_def)
  have "d = fst (last ?K) \<longleftrightarrow> Suc j = length ?K"
  proof -
    have "fst (last ?K) = map fst ?K ! (length ?K - 1)" "d = map fst ?K ! j" using 1(2) j(1) len by (simp_all add: last_conv_nth)
    then show ?thesis using nth_eq_iff_index_eq [OF 1(1), of j "length ?K - 1"] len by auto
  qed
  then have core: "core ?G = ?K @ (if Suc j = length ?K then [(fresh, [])] else [])"
    using core_on_bucket [of f d D] f B(1) by (simp add: D core_open)
  have dist: "distinct (map fst (core ?G))" using 1(1) fresh by (auto simp: core)
  have sh: "\<exists>zs. shelf ?G = shelf A @ zs" and tk: "take (Suc j) (shelf ?G) = take j (shelf A) @ [?K ! j]"
  proof -
    show "\<exists>zs. shelf ?G = shelf A @ zs" unfolding shelf_def core using 1(2) by (auto simp: butlast_append intro: exI [of _ "[last ?K]"])
    show "take (Suc j) (shelf ?G) = take j (shelf A) @ [?K ! j]"
    proof (cases "Suc j = length ?K")
      case True
      then have "j = length ?K - 1" by simp
      then have "take j (shelf A) @ [?K ! j] = butlast ?K @ [last ?K]" using 1(2) by (simp add: shelf_def last_conv_nth)
      with True 1(2) show ?thesis by (simp add: shelf_def core butlast_append)
    next
      case False
      then show ?thesis using len by (simp add: shelf_def core take_Suc_conv_app_nth nth_butlast)
    qed
  qed
  have "?K ! j \<in> set (take (Suc j) (shelf ?G))" by (simp add: tk)
  then have on: "?K ! j \<in> set (shelf ?G)" by (rule in_set_takeD)
  have recs: "recs_of d D = snd (?K ! j)"
  proof -
    have "core D = core ?G" using core_on_bucket [of f d D] f by simp
    moreover have "?K ! j \<in> set (core ?G)" unfolding core using len by simp
    ultimately show ?thesis using recs_of_core [of D "?K ! j"] dist j(1) by simp
  qed
  have nxt: "\<forall>e. ar_next ?G = Some e \<longrightarrow> e = fst (core ?G ! Suc j)"
  proof -
    have "core ?G ! Suc j = ?K ! Suc j" if "Suc j < length ?K" unfolding core using that by (simp add: nth_append)
    moreover have "ar_next ?G = after_in (map fst ?K) d" by (simp add: on_bucket_def D B(4) core_open)
    ultimately show ?thesis using after_in_nth [OF 1(1), of j] len by (auto simp: j(1))
  qed
  have "Suc j \<le> length (shelf ?G)" using arg_cong [OF tk, of length] j(2) by simp
  have ready: "ready_ids (hold c (Some d) ?G) \<subseteq> ready_ids A"
    using B(2) f by (auto simp: D ready_ids_def on_bucket_def hold_def spec_open_def split: if_splits)
  have cl: "(i = c \<and> p = Some d) \<or> (i \<noteq> c \<and> (i, p) \<in> set (ar_clients A))" if "(i, p) \<in> set (ar_clients (hold c (Some d) ?G))" for i p
    using that B(3) by (auto simp: D hold_def on_bucket_def core_open split: if_splits)
  show ?thesis
    unfolding run_ok_def
  proof (intro conjI exI [of _ "Suc j"])
    show "pass (Served c req again ms # tr) = map (batch_body L \<circ> snd) (take (Suc j) (shelf (hold c (Some d) ?G)))"
      using pass by (simp add: ms recs tk split: if_splits)
    show "\<forall>i e. (i, Some e) \<in> set (ar_clients (hold c (Some d) ?G)) \<longrightarrow>
        (\<exists>rs. (e, rs) \<in> set (shelf (hold c (Some d) ?G)) \<and> last_batch i (Served c req again ms # tr) = Some (batch_body L rs))"
    proof (intro allI impI)
      fix i e assume "(i, Some e) \<in> set (ar_clients (hold c (Some d) ?G))"
      with cl consider "i = c" "e = d" | "i \<noteq> c" "(i, Some e) \<in> set (ar_clients A)" by blast
      then show "\<exists>rs. (e, rs) \<in> set (shelf (hold c (Some d) ?G)) \<and> last_batch i (Served c req again ms # tr) = Some (batch_body L rs)"
      proof cases
        case 1
        with on ms recs j(1) show ?thesis by (intro exI [of _ "snd (?K ! j)"]) simp
      next
        case 2
        then obtain rs where "(e, rs) \<in> set (shelf A)" "last_batch i tr = Some (batch_body L rs)" using 1(6) by blast
        with 2(1) sh show ?thesis by (intro exI [of _ rs]) auto
      qed
    qed
    show "\<forall>e \<in> ready_ids (hold c (Some d) ?G). \<exists>rs. (e, rs) \<in> set (shelf (hold c (Some d) ?G)) \<and> acknowledged (batch_body L rs) (Served c req again ms # tr)"
      using 1(7) ready sh by fastforce
  qed (use 1(2) dist nxt \<open>Suc j \<le> length (shelf ?G)\<close> core in simp_all)
qed

lemma run_ok_dequeue:
  assumes run: "run_ok L tr A" and sp: "spec_dequeue now now' fresh c A = (r, C)" and fresh: "fresh \<notin> fst ` set (core A)"
  shows "run_ok L (Served c req (ab_expiry (hd (ar_buckets A)) < now) (reply_frames L c r) # tr) C"
proof (cases "holding c A = Some None")
  case False
  then have "r = Ack (- EPROTO)" "C = A" using sp by (auto simp: spec_dequeue_def)
  with run show ?thesis by (intro run_ok_served [OF run]) (simp_all add: batch_in_reply)
next
  case True
  obtain p B where pick: "spec_pick now A = (p, B)" by (cases "spec_pick now A")
  from run show ?thesis
  proof (cases rule: run_okE)
    case (1 k)
    note B = spec_pick_core [OF pick 1(2)]
    show ?thesis
    proof (cases p)
      case None
      with True sp pick have "r = Ack 1" "C = B" by (simp_all add: spec_dequeue_def)
      moreover have "ar_next B = ar_next A" using None B(4,5) by (simp split: if_splits)
      ultimately show ?thesis using B(1-3) by (intro run_ok_served [OF run]) (simp_all add: batch_in_reply)
    next
      case (Some d)
      define D where "D = (if d = fst (last (core A)) then spec_open fresh B else B)"
      have "ar_buckets B \<noteq> []" using B(1) 1(2) by (auto simp: core_def)
      then have "ab_id (last (ar_buckets B)) = fst (last (core A))" unfolding B(1) [symmetric] by (simp add: core_def last_map)
      with True sp pick Some have rC: "r = Batch (recs_of d D)"
          "C = hold c (Some d) (on_bucket d (\<lambda>b. b\<lparr>ab_expiry := now' + 10\<rparr>) D)"
        by (simp_all add: spec_dequeue_def D_def Let_def)
      have nxt: "ar_next B = after_in (map fst (core A)) d" using B(4) Some by simp
      let ?late = "ab_expiry (hd (ar_buckets A)) < now"
      define j where "j = (if ?late then 0 else k)"
      have "d = fst (core A ! j)" using B(5) Some 1(2,5) by (auto simp: j_def hd_conv_nth split: if_splits)
      moreover have "j \<le> length (shelf A)" using 1(3) by (simp add: j_def)
      moreover have "(if ?late then [] else pass tr) = map (batch_body L \<circ> snd) (take j (shelf A))"
        using 1(4) by (simp add: j_def)
      ultimately show ?thesis
        unfolding rC(2) by (rule run_ok_delivered [OF run _ _ _ B(1-3) nxt D_def fresh]) (simp_all add: rC(1) batch_in_reply)
    qed
  qed
qed

lemma run_ok_clear:
  assumes run: "run_ok L tr A" and sp: "spec_clear L clear c A = (r, C)" "r \<noteq> Crash" and req: "is_clear req"
  shows "run_ok L (Served c req again (reply_frames L c r) # tr) C"
proof (cases "holding c A")
  case None
  then have "r = Ack (- EPROTO)" "C = A" using sp by (simp_all add: spec_clear_def)
  with run show ?thesis by (intro run_ok_served [OF run]) (simp_all add: batch_in_reply)
next
  case (Some p)
  show ?thesis
  proof (cases p)
    case None
    with Some sp have "r = Silence" "C = A" by (simp_all add: spec_clear_def)
    with run show ?thesis by (intro run_ok_served [OF run]) (simp_all add: batch_in_reply)
  next
    case d: (Some d)
    have "(c, Some d) \<in> set (ar_clients A)" using Some d by (simp add: map_of_SomeD)
    moreover have "batch_in (reply_frames L c r) = None" "C = hold c None (on_bucket d (\<lambda>b. b\<lparr>ab_ready := True\<rparr>) A)"
      using sp Some d by (auto simp: spec_clear_def Let_def batch_in_reply split: if_splits)
    ultimately show ?thesis by (intro run_ok_acknowledged [OF run _ req])
  qed
qed

lemma spec_request_cases:
  assumes "spec_request L now now' clear fresh c req A = (r, C)"
  obtains (refused) e where "r = Ack e" "C = A"
  | (start) "spec_start c A = (r, C)" | (fini) "spec_fini c A = (r, C)"
  | (dequeue) "spec_dequeue now now' fresh c A = (r, C)"
  | (clear) "spec_clear L clear c A = (r, C)" "is_clear req"
  using assms by (auto simp: spec_request_def Let_def is_clear_def split: if_splits option.splits rpc_op_type.splits)

lemma run_ok_request:
  assumes run: "run_ok L tr A" and sp: "spec_request L now now' clear fresh c req A = (r, C)" "r \<noteq> Crash"
    and fresh: "fresh \<notin> fst ` set (core A)"
  shows "run_ok L (Served c req (ab_expiry (hd (ar_buckets A)) < now) (reply_frames L c r) # tr) C"
  using sp(1)
proof (cases rule: spec_request_cases)
  case refused
  then show ?thesis by (intro run_ok_served [OF run]) (simp_all add: batch_in_reply)
next
  case start
  then show ?thesis
    by (intro run_ok_served [OF run]) (auto simp: spec_start_def batch_in_reply core_def ready_ids_def split: if_splits)
next
  case fini
  then show ?thesis
    by (intro run_ok_served [OF run]) (auto simp: spec_fini_def batch_in_reply core_def ready_ids_def split: if_splits)
next
  case dequeue
  then show ?thesis by (rule run_ok_dequeue [OF run _ fresh])
next
  case clear
  then show ?thesis by (intro run_ok_clear [OF run _ sp(2)])
qed

text \<open>No request changes the records in the cache.\<close>

lemma stored_on_bucket:
  assumes "\<And>b. ab_recs (f b) = ab_recs b"
  shows "spec_stored (on_bucket d f A) = spec_stored A"
proof -
  have "ab_recs \<circ> (\<lambda>b. if ab_id b = d then f b else b) = ab_recs" using assms by auto
  then show ?thesis by (simp add: spec_stored_def on_bucket_def)
qed

lemma stored_hold [simp]: "spec_stored (hold c p A) = spec_stored A" "spec_stored (spec_open fresh A) = spec_stored A"
  by (simp_all add: spec_stored_def hold_def spec_open_def)

lemma spec_request_stored:
  assumes "spec_request L now now' clear fresh c req A = (r, C)" "core A \<noteq> []"
  shows "spec_stored C = spec_stored A"
  using assms(1)
proof (cases rule: spec_request_cases)
  case dequeue
  obtain p B where pick: "spec_pick now A = (p, B)" by (cases "spec_pick now A")
  then have "spec_stored B = spec_stored A" using spec_pick_core(1) [OF pick assms(2)] by (simp add: core_stored [symmetric])
  with dequeue pick show ?thesis by (auto simp: spec_dequeue_def Let_def stored_on_bucket split: if_splits option.splits)
next
  case clear
  then show ?thesis by (auto simp: spec_clear_def Let_def stored_on_bucket split: if_splits option.splits)
qed (auto simp: spec_start_def spec_fini_def spec_stored_def split: if_splits)

subsection \<open>What holds in every run of the reader\<close>

lemma emits_unique: "emits s t ms \<Longrightarrow> emits s t ns \<Longrightarrow> ms = ns"
  by (auto simp: emits_def)

lemma spec_stored_abs: "spec_stored (abs_of s) = stored s"
  by (simp add: spec_stored_def abs_of_def stored_def comp_def)

lemma expired_abs:
  assumes "rinv L s bs ps"
  shows "expired L s \<longleftrightarrow> ab_expiry (hd (ar_buckets (abs_of s))) < tv_sec (lib_clock L (w_log s))"
proof -
  have "bs \<noteq> []" using assms by (auto simp: rinv_defs)
  then show ?thesis by (simp add: expired_def rinv_lists [OF assms] abs_rinv [OF assms] hd_map)
qed

lemma core_fresh:
  assumes "rinv L s bs ps"
  shows "m_brk s \<notin> fst ` set (core (abs_of s))"
proof -
  have "fst ` set (core (abs_of s)) = set bs" by (force simp: core_def abs_rinv [OF assms])
  then show ?thesis using assms by (auto simp: rinv_defs)
qed

lemma reader_run_ok:
  assumes "reader_run L s tr t" "reader_good L s" "run_ok L [] (abs_of s)" "sends_ok L" "allocs_ok L"
  shows "reader_good L t \<and> run_ok L tr (abs_of t) \<and> stored t = stored s @ taken tr"
  using assms(1)
proof (induction rule: reader_run.induct)
  case run_start
  with assms(2,3) show ?case by simp
next
  case (run_read tr t rc u rs)
  have good: "reader_good L t" using run_read.IH by simp
  then obtain bs ps where r: "rinv L t bs ps" by (auto simp: reader_good_def elim: reader_invE)
  have "reads_to L (m_changelog t) t u"
    using enqueue_reads [OF r] good run_read.hyps(2) by (auto simp: reader_good_def run_never)
  then obtain rs' where "spec_reads (ccf_rec_batch_count (re_cfg t)) (abs_of t) rs' (abs_of u)" by (auto simp: reads_to_def)
  then have "run_ok L tr (abs_of u)" using run_ok_reads run_read.IH by blast
  moreover have "reader_good L u" using run_OkD [OF changelog_reader_enqueue_good [OF good] run_read.hyps(2)] by simp
  ultimately show ?case using run_read.IH run_read.hyps(3) by simp
next
  case (run_idle tr t u)
  have "abs_of u = abs_of t" by (rule abs_more [OF run_idle.hyps(2)])
  with run_idle.IH reader_good_more [OF _ run_idle.hyps(2)] spec_stored_abs [of t] spec_stored_abs [of u] show ?case by simp
next
  case (run_serve tr t req c rc u ms)
  have good: "reader_good L t" and run: "run_ok L tr (abs_of t)" using run_serve.IH by simp_all
  then have inv: "reader_inv L t" by (simp add: reader_good_def)
  then obtain bs ps where r: "rinv L t bs ps" by (elim reader_invE)
  obtain h r C where sp: "spec_request L (tv_sec (lib_clock L (w_log t))) (tv_sec (lib_clock L h))
         (lib_ll_clear L (w_log t) (reader_device t) (ccf_clreader (re_cfg t))) (m_brk t) c req (abs_of t) = (r, C)"
      "implements L c t (changelog_reader_rpc_hdl L req t) (r, C)"
    using rpc_hdl_implements [OF inv run_serve.hyps(2,3) assms(4,5) run_serve.hyps(4,5) rpc_hdl_returned [OF run_serve.hyps(6)]]
    by (metis surj_pair)
  have u: "r \<noteq> Crash" "abs_of u = C" "emits t u (reply_frames L c r)"
    using implementsD [OF sp(2)] run_serve.hyps(6) by (auto split: if_splits)
  have "run_ok L (Served c req (expired L t) (reply_frames L c r) # tr) C"
    unfolding expired_abs [OF r] by (rule run_ok_request [OF run sp(1) u(1) core_fresh [OF r]])
  moreover have "stored u = stored t"
    using spec_request_stored [OF sp(1)] run u(2) by (auto simp: run_ok_def spec_stored_abs [symmetric])
  moreover have "reader_good L u" using rpc_hdl_good [OF run_serve.hyps(2) good run_serve.hyps(6)] by simp
  ultimately show ?case using run_serve.IH u emits_unique [OF run_serve.hyps(7) u(3)] by simp
qed

lemma nothing_given_ok:
  assumes "reader_inv L s" "nothing_given s"
  shows "run_ok L [] (abs_of s)"
proof -
  obtain bs ps where r: "rinv L s bs ps" using reader_invE [OF assms(1)] .
  have bs: "bs \<noteq> []" "distinct bs" "re_cleanup_next s = Some (hd bs)"
    using r list_rep_distinct by (auto simp: rinv_defs)
  have g: "re_deliver_next s = Some (hd bs)" "\<forall>a \<in> set ps. client_bucket s a = None" "\<forall>d \<in> set bs. \<not> lrb_ready (bkt_at s d)"
    using assms(2) bs(3) by (simp_all add: nothing_given_def rinv_lists [OF r])
  have core: "core (abs_of s) = map (\<lambda>d. (d, bkt_recs (bkt_at s d))) bs" by (simp add: core_def abs_rinv [OF r] comp_def)
  have "ready_ids (abs_of s) = {}" using g(3) by (auto simp: ready_ids_def abs_rinv [OF r])
  moreover have "(c, Some d) \<notin> set (ar_clients (abs_of s))" for c d
    using g(2) by (auto simp: abs_rinv [OF r] abs_client_def)
  moreover have "ar_next (abs_of s) = Some (hd bs)" using g(1) by (simp add: abs_rinv [OF r])
  moreover have "fst (core (abs_of s) ! 0) = hd bs" unfolding core using bs(1) by (simp add: hd_conv_nth)
  ultimately show ?thesis using bs(1,2) core by (auto simp: run_ok_def comp_def intro: exI [of _ 0])
qed

lemma reader_run_nothing_given:
  assumes "reader_run L s tr t" "reader_good L s" "nothing_given s" "sends_ok L" "allocs_ok L"
  shows "reader_good L t" "run_ok L tr (abs_of t)" "stored t = stored s @ taken tr"
  using reader_run_ok [OF assms(1,2) nothing_given_ok assms(4,5)] assms(2,3) by (auto simp: reader_good_def)

text \<open>The batches of the pass hold the first of all records read.\<close>

lemma pass_prefix:
  assumes "reader_run L s tr t" "reader_good L s" "nothing_given s" "sends_ok L" "allocs_ok L"
  shows "\<exists>rss rest. stored s @ taken tr = concat rss @ rest \<and> pass tr = map (batch_body L) rss"
proof -
  note run = reader_run_nothing_given [OF assms]
  from run(2) show ?thesis
  proof (cases rule: run_okE)
    case (1 k)
    let ?rss = "map snd (take k (shelf (abs_of t)))"
    have "core (abs_of t) = shelf (abs_of t) @ [last (core (abs_of t))]" using 1(2) by (simp add: shelf_def)
    then have "core (abs_of t) = take k (shelf (abs_of t)) @ drop k (shelf (abs_of t)) @ [last (core (abs_of t))]"
      by (metis append.assoc append_take_drop_id)
    then have "stored t = concat ?rss @ concat (map snd (drop k (shelf (abs_of t)) @ [last (core (abs_of t))]))"
      unfolding spec_stored_abs [symmetric] core_stored [symmetric] by (metis concat_append map_append)
    moreover have "pass tr = map (batch_body L) ?rss" using 1(4) by simp
    ultimately show ?thesis using run(3) by metis
  qed
qed

text \<open>The example: the client \<open>[5]\<close> asks once, and gets the record in the cache.\<close>

lemma demo_nothing_given: "nothing_given demo_reader"
  unfolding nothing_given_def demo_reader_lists
  by (simp add: client_bucket_def bkt_at_def) (simp add: demo_reader_def fresh_bucket_def)

lemma demo_bucket_sizes: "\<forall>d \<in> set (buckets_of demo_reader). lrb_size (bkt_at demo_reader d) + sizeof_enqueue < 2 ^ 63"
  unfolding demo_reader_lists by (simp add: bkt_at_def demo_reader_def fresh_bucket_def)

lemma demo_run:
  obtains t again where "reader_run demo_libs demo_reader
      [Served (cid [5]) (demo_req [5] demo_dequeue_body) again (reply_frames demo_libs (cid [5]) (Batch [demo_rec]))] t"
    "changelog_reader_rpc_hdl demo_libs (demo_req [5] demo_dequeue_body) demo_reader = Ok 0 t"
    "\<exists>now'. abs_of t = demo_abs\<lparr>ar_clients := [(cid [5], Some 0)], ar_next := Some 2,
        ar_buckets := [\<lparr>ab_id = 0, ab_recs = [demo_rec], ab_ready = False, ab_expiry = now' + 10\<rparr>,
          \<lparr>ab_id = 2, ab_recs = [], ab_ready = False, ab_expiry = 0\<rparr>]\<rparr>"
proof -
  let ?req = "demo_req [5] demo_dequeue_body"
  have fwd: "lr_forward ?req = Some (cid [5])" by (simp add: demo_req_def)
  have req: "req_ok 3 ?req" using demo_dequeue_facts by (intro demo_req_ok)
  obtain t now' where t: "changelog_reader_rpc_hdl demo_libs ?req demo_reader = Ok 0 t"
      "emits demo_reader t (reply_frames demo_libs (cid [5]) (Batch [demo_rec]))"
      "abs_of t = demo_abs\<lparr>ar_clients := [(cid [5], Some 0)], ar_next := Some 2,
        ar_buckets := [\<lparr>ab_id = 0, ab_recs = [demo_rec], ab_ready = False, ab_expiry = now' + 10\<rparr>,
          \<lparr>ab_id = 2, ab_recs = [], ab_ready = False, ab_expiry = 0\<rparr>]\<rparr>"
    using rpc_hdl_implements [OF reader_invI [OF demo_reader_ok] req fwd demo_libs_ok(2,1) _ demo_bucket_sizes demo_no_overrun]
    unfolding demo_abs by (auto simp: demo_spec_dequeue implements_def)
  have "reader_run demo_libs demo_reader
      [Served (cid [5]) ?req (expired demo_libs demo_reader) (reply_frames demo_libs (cid [5]) (Batch [demo_rec]))] t"
    by (rule run_serve [OF run_start req fwd _ demo_bucket_sizes t(1,2)]) simp
  with t show thesis using that by blast
qed

end
