(* ===== verification/Reader_Acked.thy ===== *)
theory Reader_Acked
  imports Reader_Trace
begin

text \<open>
  When the reader lets Lustre forget records: only after a client that got them has acknowledged them.
\<close>

subsection \<open>Only a CLEAR calls Lustre\<close>

definition clear_calls :: "'a world_scheme \<Rightarrow> event list" where
  "clear_calls s = filter clear_call_event (w_log s)"

text \<open>An operation that does not call \<^verbatim>\<open>llapi_changelog_clear\<close>, however it ends.\<close>

definition no_clear :: "reader_env \<Rightarrow> ('a, reader_env) res \<Rightarrow> bool" where
  "no_clear s m \<longleftrightarrow> clear_calls (state_of m) = clear_calls s"

lemma no_clear_silent: "clearing.silent s m \<Longrightarrow> no_clear s m"
  by (simp add: no_clear_def clear_calls_def clearing.silent_def clearing.adds_filter)

lemma no_clear_answered:
  assumes "no_clear s m"
  shows "no_clear s (bindR m (\<lambda>rc s. if rc < 0 \<or> rc = 1 then ack_retcode L None (Some c) rc s else Ok rc s))"
proof (cases m)
  case (Ok x t)
  then show ?thesis
    using assms no_clear_silent [OF clearing.ack_retcode_silent, of t L None "Some c" x] by (simp add: no_clear_def)
qed (use assms in \<open>simp add: no_clear_def\<close>)

subsection \<open>What a CLEAR calls\<close>

lemma clear_calls_ack: "clear_calls (state_of (ack_retcode L src dst rc s)) = clear_calls s" for s :: reader_env
  using no_clear_silent [OF clearing.ack_retcode_silent] unfolding no_clear_def .

text \<open>The bucket at the head of the list, once the client's bucket is marked ready, and the call for it.\<close>

definition head_call :: "libs \<Rightarrow> reader_env \<Rightarrow> event" where
  "head_call L s = Ev_ll_clear (reader_device s) (ccf_clreader (re_cfg s)) (last_index L (bkt_recs (bkt_at s (hd (buckets_of s)))))
     (clear_call L s)"

lemma clear_calls_result:
  assumes "clear_result L c s r"
  shows "clear_calls (state_of (bindR r (\<lambda>rc s. if rc < 0 \<or> rc = 1 then ack_retcode L None (Some c) rc s else Ok rc s))) =
    (if lrb_ready (bkt_at s (hd (buckets_of s))) then [head_call L s] else []) @ clear_calls s"
proof -
  have ack: "clear_calls (state_of (bindR m (\<lambda>rc s. if rc < 0 \<or> rc = 1 then ack_retcode L None (Some c) rc s else Ok rc s))) =
      clear_calls (state_of m)" for m :: "(int, reader_env) res"
    by (cases m) (simp_all add: clear_calls_ack)
  have logged: "clear_calls (clear_logged L s) = head_call L s # clear_calls s"
    by (simp add: clear_calls_def clear_logged_def head_call_def bkt_max_last clear_call_event_def)
  have freed: "clear_calls t = clear_calls u" if "head_freed u t" for t u :: reader_env
    using that by (auto simp: head_freed_def Let_def clear_calls_def clear_call_event_def filter_empty_conv)
  show ?thesis
    unfolding ack using assms logged freed by (auto simp: clear_result_def clear_calls_ack split: if_splits)
qed

lemma rpc_hdl_clear_calls:
  assumes inv: "reader_inv L s" and req: "req_ok 3 req" "lr_forward req = Some c"
  shows "clear_calls (state_of (changelog_reader_rpc_hdl L req s)) = clear_calls s \<or>
    (\<exists>a bk. is_clear req \<and> client_of s c = Some a \<and> client_bucket s a = Some bk \<and>
       lrb_ready (bkt_at (acked a bk s) (hd (buckets_of s))) \<and>
       clear_calls (state_of (changelog_reader_rpc_hdl L req s)) = head_call L (acked a bk s) # clear_calls s)"
proof -
  obtain bs ps where r: "rinv L s bs ps" using reader_invE [OF inv] .
  have c: "wf_cid c" using req by (auto simp: req_ok_def)
  note ack = no_clear_answered [of s _ L c]
  show ?thesis
  proof (cases "is_clear req")
    case False
    show ?thesis
    proof (cases "op_overrun (re_cfg s) req")
      case logged: False
      have "no_clear s (reader_handle_clear L req s)" if "lr_body_len req < sizeof_clear"
        using that by (simp add: reader_handle_clear_def no_clear_def)
      with False have "no_clear s (reader_rpc_handle_one L (body_op (lr_body req)) req s)"
        unfolding reader_rpc_handle_one_def reader_rpc_handle_def
        by (auto simp: is_clear_def no_clear_def no_clear_silent [unfolded no_clear_def] clearing.reader_handle_start_silent
            clearing.reader_handle_fini_silent clearing.reader_handle_dequeue_silent split: option.splits rpc_op_type.splits)
      then have "no_clear s (changelog_reader_rpc_hdl L req s)"
        unfolding rpc_hdl_logged [OF logged] req(2) Let_def by (intro ack) (simp add: no_clear_def)
      then show ?thesis by (simp add: no_clear_def)
    qed (simp add: rpc_hdl_overrun)
  next
    case True
    then have op: "rpc_op_of (body_op (lr_body req)) = Some RPC_OP_CLEAR" and len: "sizeof_clear \<le> lr_body_len req"
      by (simp_all add: is_clear_def)
    note hdl = clear_dispatch [OF op len req(2), of L s]
    show ?thesis
    proof (cases "\<exists>a bk. client_of s c = Some a \<and> client_bucket s a = Some bk")
      case False
      have "no_clear s (reader_handle_clear L req s)"
      proof (cases "client_of s c")
        case None
        then show ?thesis using r len req c by (simp add: reader_handle_clear_def client_state_get_eq no_clear_def)
      next
        case (Some a)
        obtain cs where cs: "m_clients s a = Some cs" using client_of_Some [OF r Some] .
        with False Some r len req c show ?thesis
          by (simp add: reader_handle_clear_def client_state_get_eq get_client_def client_bucket_def no_clear_def)
      qed
      then show ?thesis using ack unfolding hdl by (simp add: no_clear_def)
    next
      case held: True
      then obtain a bk where a: "client_of s c = Some a" "client_bucket s a = Some bk" by blast
      note res = reader_handle_clear_eq(1) [OF r len req(2) c a]
      have "clear_calls (acked a bk s) = clear_calls s" by (simp add: clear_calls_def)
      with clear_calls_result [OF res] True a show ?thesis unfolding hdl by auto
    qed
  qed
qed

text \<open>
  The records up to \<open>idx\<close> may be forgotten: \<open>idx\<close> is that of the last record of a batch which holds the first
  records read and which a client has acknowledged, after it was sent exactly these records.
\<close>

definition cleared_ok :: "libs \<Rightarrow> reader_env \<Rightarrow> io list \<Rightarrow> int \<Rightarrow> bool" where
  "cleared_ok L s tr idx \<longleftrightarrow>
     (\<exists>rs rest. stored s @ taken tr = rs @ rest \<and> idx = last_index L rs \<and> acknowledged (batch_body L rs) tr)"

lemma cleared_ok_mono:
  assumes "cleared_ok L s tr idx"
  shows "cleared_ok L s (x # tr) idx"
proof -
  obtain rs rest where rs: "stored s @ taken tr = rs @ rest" "idx = last_index L rs" "acknowledged (batch_body L rs) tr"
    using assms unfolding cleared_ok_def by blast
  obtain more where "taken (x # tr) = taken tr @ more" by (cases x) auto
  with rs(1) have "stored s @ taken (x # tr) = rs @ rest @ more" by (metis append.assoc)
  moreover have "acknowledged (batch_body L rs) (x # tr)" using rs(3) by (cases x) auto
  ultimately show ?thesis using rs(2) unfolding cleared_ok_def by blast
qed

lemma head_call_acknowledged:
  assumes "reader_run L s tr t" "reader_good L s" "nothing_given s" "sends_ok L" "allocs_ok L"
    and req: "req_ok 3 req" "lr_forward req = Some c"
  shows "\<exists>cs. clear_calls (state_of (changelog_reader_rpc_hdl L req t)) = cs @ clear_calls t \<and>
    (\<forall>dev cli idx rc. Ev_ll_clear dev cli idx rc \<in> set cs \<longrightarrow> cleared_ok L s (Served c req again ms # tr) idx)"
proof -
  note run = reader_run_nothing_given [OF assms(1-5)]
  have inv: "reader_inv L t" using run(1) by (simp add: reader_good_def)
  obtain bs ps where r: "rinv L t bs ps" using reader_invE [OF inv] .
  consider (none) "clear_calls (state_of (changelog_reader_rpc_hdl L req t)) = clear_calls t"
    | (call) a bk where "is_clear req" "client_of t c = Some a" "client_bucket t a = Some bk"
      "lrb_ready (bkt_at (acked a bk t) (hd (buckets_of t)))"
      "clear_calls (state_of (changelog_reader_rpc_hdl L req t)) = head_call L (acked a bk t) # clear_calls t"
    using rpc_hdl_clear_calls [OF inv req] by blast
  then show ?thesis
  proof cases
    case (call a bk)
    let ?v = "acked a bk t" and ?d = "hd bs" and ?tr = "Served c req False [] # tr"
    have v: "rinv L ?v bs ps" by (rule acked_kept(1) [OF r call(2,3)])
    have abs: "abs_of ?v = hold c None (on_bucket bk (\<lambda>b. b\<lparr>ab_ready := True\<rparr>) (abs_of t))"
      by (rule abs_acked [OF r call(2,3) v])
    have "(c, Some bk) \<in> set (ar_clients (abs_of t))"
      using holding_abs [OF r, of c] call(2,3) by (simp add: map_of_SomeD)
    then have ok: "run_ok L ?tr (abs_of ?v)"
      by (intro run_ok_acknowledged [OF run(2) _ call(1) _ abs]) (simp_all add: batch_in_def)
    have bs: "buckets_of t = bs" "bs \<noteq> []" using rinv_lists [OF r] r by (auto simp: rinv_defs)
    have core: "core (abs_of ?v) = map (\<lambda>d. (d, bkt_recs (bkt_at ?v d))) bs" by (simp add: core_def abs_rinv [OF v] comp_def)
    have "?d \<in> ready_ids (abs_of ?v)"
      using call(4) bs by (auto simp: ready_ids_def abs_rinv [OF v] intro!: image_eqI [of _ _ "abs_bkt ?v ?d"])
    then obtain rs where rs: "(?d, rs) \<in> set (shelf (abs_of ?v))" "acknowledged (batch_body L rs) ?tr"
      using ok by (auto simp: run_ok_def)
    then have "(?d, rs) \<in> set (core (abs_of ?v))" by (auto simp: shelf_def dest: in_set_butlastD)
    then have hd: "rs = bkt_recs (bkt_at ?v ?d)" by (auto simp: core)
    have "stored ?v = stored t" unfolding spec_stored_abs [symmetric] abs by (simp add: stored_on_bucket)
    then have "stored t = rs @ concat (map (\<lambda>d. bkt_recs (bkt_at ?v d)) (tl bs))"
      using bs(2) unfolding spec_stored_abs [symmetric] core_stored [symmetric] core hd by (cases bs) (simp_all add: comp_def)
    with run(3) rs(2) bs(1) hd have "cleared_ok L s (Served c req again ms # tr) (last_index L (bkt_recs (bkt_at ?v ?d)))"
      unfolding cleared_ok_def
      by (intro exI [of _ rs] exI [of _ "concat (map (\<lambda>d. bkt_recs (bkt_at ?v d)) (tl bs))"]) simp
    with call(5) bs(1) show ?thesis by (intro exI [of _ "[head_call L ?v]"]) (simp add: head_call_def)
  qed simp
qed

subsection \<open>A batch that could not be sent\<close>

lemma more_cfg:
  assumes "world.more t = world.more s"
  shows "re_cfg t = re_cfg s" "re_index t = re_index s"
  using assms by (cases s; cases t; simp)+

lemma rinv_libs: "rec_len L' = rec_len L \<Longrightarrow> rinv L' = rinv L"
  by (intro ext) (simp only: rinv_def bkts_ok_def bucket_ok_def)

text \<open>A DEQUEUE whose message cannot be allocated: the client is told so, and has the bucket all the same.\<close>

lemma dequeue_unsent:
  assumes r: "rinv L s bs ps" and req: "req_ok 3 req" "lr_forward req = Some c"
    and op: "rpc_op_of (body_op (lr_body req)) = Some RPC_OP_DEQUEUE" "lr_body_len req \<ge> sizeof_dequeue"
    and cl: "client_of s c = Some a" "client_bucket s a = None"
    and bk: "next_bucket L s = Some d" "d \<noteq> last bs" and ok: "sends_ok L"
    and full: "\<forall>h. \<not> lib_alloc L h (sizeof_enqueue + lrb_size (bkt_at s d))"
  obtains t where "changelog_reader_rpc_hdl L req s = Ok 0 t" "rinv L t bs ps" "emits s t [peer_frames None c (ack_msg (- ENOMEM))]"
    "client_bucket t a = Some d" "re_deliver_next t = after_in bs d" "client_of t c = Some a"
    "reader_device t = reader_device s" "re_cfg t = re_cfg s" "bkt_recs (bkt_at t d) = bkt_recs (bkt_at s d)"
proof -
  have c: "wf_cid c" using req by (auto simp: req_ok_def)
  have hdl: "changelog_reader_rpc_hdl L req s = bindR (reader_handle_dequeue L req s) (\<lambda>rc s.
      if rc < 0 \<or> rc = 1 then ack_retcode L None (Some c) rc s else Ok rc s)"
    by (rule rpc_hdl_dispatch [OF _ op(1) _ req(2)]) (use op(2) in \<open>simp_all add: reader_rpc_handle_def\<close>)
  have d: "d \<in> set bs" by (rule next_bucket_member [OF r bk(1)])
  then obtain b0 where b0: "m_bkts s d = Some b0" using rinv_bkt [OF r] by blast
  let ?g = "bucket_got L s"
  have g: "rinv L ?g bs ps" by (rule rinv_bucket_got [OF r])
  obtain cs where cs: "m_clients s a = Some cs" "cs_ident cs = Some c" using client_of_Some [OF r cl(1)] .
  define t where "t = ?g\<lparr>m_clients := (m_clients s)(a \<mapsto> cs\<lparr>cs_bucket := Some d\<rparr>)\<rparr>"
  have "rinv L (?g\<lparr>m_clients := (m_clients ?g)(a \<mapsto> cs\<lparr>cs_bucket := Some d\<rparr>)\<rparr>) bs ps"
    using cs d bk(2) by (intro rinv_set_bucket [OF g]) auto
  then have t: "rinv L t bs ps" by (simp add: t_def)
  obtain b where b: "m_bkts t d = Some b" using rinv_bkt [OF t d] .
  have "map_option bkt_core (m_bkts ?g d) = map_option bkt_core (m_bkts s d)"
    using same_core_got by (simp add: same_core_def)
  with b b0 have "bkt_core b = bkt_core b0" by (simp add: t_def)
  note core = bkt_core_eqD [OF this]
  have deq: "reader_handle_dequeue L req s = enqueue_rec L a req t"
    using reader_handle_dequeue_eq [OF r op(2) req(2) c cl] bk cs rinv_lists [OF r]
    by (simp add: upd_client_def t_def)
  let ?u = "t\<lparr>w_log := Ev_alloc (sizeof_enqueue + lrb_size b) False # w_log t\<rparr>"
  have "m_clients t a = Some (cs\<lparr>cs_bucket := Some d\<rparr>)" by (simp add: t_def)
  from enqueue_rec_eq [OF t this _ b, of req] full core(3) b0
  have enq: "enqueue_rec L a req t = Ok (- ENOMEM) ?u" by (simp add: bkt_at_def)
  have "emits s ?g []" by (rule emits_bucket_got)
  then have "emits s t []" by (simp add: t_def emits_def)
  moreover have "emits t ?u []"
    by (rule emits_quiet [of _ "[Ev_alloc (sizeof_enqueue + lrb_size b) False]"]) (simp_all add: quiet_event_def)
  ultimately have "emits s ?u []" using emits_trans [of s t "[]" ?u "[]"] by simp
  moreover have "rinv L ?u bs ps" using t by simp
  ultimately obtain v where v: "ack_retcode L None (Some c) (- ENOMEM) ?u = Ok 0 v" "rinv L v bs ps"
      "world.more v = world.more ?u" "emits s v [peer_frames None c (ack_msg (- ENOMEM))]"
    using ack_emits_inv [OF _ ok c] by blast
  note same = more_idents [OF v(3)] more_cfg [OF v(3)]
  have lists: "peers_of v = ps" "peers_of s = ps" using rinv_lists [OF v(2)] rinv_lists [OF r] by simp_all
  have "ident_at v x = ident_at s x" for x
    using same(3) cs by (auto simp: ident_at_def t_def)
  then have "client_of v c = Some a" using cl(1) by (simp add: client_of_def lists)
  moreover have "client_bucket v a = Some d" "re_deliver_next v = after_in bs d"
    using same bk(1) rinv_lists [OF r] by (simp_all add: client_bucket_def t_def bucket_got_def)
  moreover have "reader_device v = reader_device s" "re_cfg v = re_cfg s"
    using same by (simp_all add: reader_device_def t_def bucket_got_def)
  moreover have "bkt_recs (bkt_at v d) = bkt_recs (bkt_at s d)"
    using same(4) b b0 core by (simp add: bkt_at_def bkt_recs_def)
  ultimately show thesis using that [of v] hdl deq enq v by simp
qed

text \<open>(C6) A bucket counts as delivered before its message exists. When there is no memory for the message,
  its client is answered with -ENOMEM and no record is sent, but the bucket belongs to the client and
  delivery has moved past it; the next CLEAR of that client then makes Lustre forget its records,
  which no client has received.\<close>

theorem unsent_batch_cleared:
  assumes inv: "reader_inv L s" and req: "req_ok 3 req" "lr_forward req = Some c"
    and op: "rpc_op_of (body_op (lr_body req)) = Some RPC_OP_DEQUEUE" "lr_body_len req \<ge> sizeof_dequeue"
    and clr: "req_ok 3 clr" "lr_forward clr = Some c" "is_clear clr"
    and cl: "client_of s c = Some a" "client_bucket s a = None"
    and bk: "next_bucket L s = Some (hd (buckets_of s))" "hd (buckets_of s) \<noteq> last (buckets_of s)" and ok: "sends_ok L"
    and full: "\<forall>h. \<not> lib_alloc L h (sizeof_enqueue + lrb_size (bkt_at s (hd (buckets_of s))))"
  shows "\<exists>t rc. changelog_reader_rpc_hdl L req s = Ok 0 t \<and> emits s t [peer_frames None c (ack_msg (- ENOMEM))] \<and>
    client_bucket t a = Some (hd (buckets_of s)) \<and> re_deliver_next t = after_in (buckets_of s) (hd (buckets_of s)) \<and>
    clear_calls (state_of (changelog_reader_rpc_hdl L clr t)) =
      Ev_ll_clear (reader_device s) (ccf_clreader (re_cfg s)) (last_index L (bkt_recs (bkt_at s (hd (buckets_of s))))) rc # clear_calls t"
proof -
  obtain bs ps where r: "rinv L s bs ps" and bs: "buckets_of s = bs" using reader_invE [OF inv] .
  let ?d = "hd bs"
  obtain t where t: "changelog_reader_rpc_hdl L req s = Ok 0 t" "rinv L t bs ps" "emits s t [peer_frames None c (ack_msg (- ENOMEM))]"
    "client_bucket t a = Some ?d" "re_deliver_next t = after_in bs ?d" "client_of t c = Some a"
    "reader_device t = reader_device s" "re_cfg t = re_cfg s" "bkt_recs (bkt_at t ?d) = bkt_recs (bkt_at s ?d)"
    by (rule dequeue_unsent [OF r req op cl bk [unfolded bs] ok full [unfolded bs]])
  have c: "wf_cid c" using req by (auto simp: req_ok_def)
  have op': "rpc_op_of (body_op (lr_body clr)) = Some RPC_OP_CLEAR" "sizeof_clear \<le> lr_body_len clr"
    using clr(3) by (simp_all add: is_clear_def)
  let ?v = "acked a ?d t"
  have "clear_calls (state_of (changelog_reader_rpc_hdl L clr t)) =
      (if lrb_ready (bkt_at ?v (hd (buckets_of ?v))) then [head_call L ?v] else []) @ clear_calls ?v"
    unfolding clear_dispatch [OF op' clr(2)]
    by (rule clear_calls_result [OF reader_handle_clear_eq(1) [OF t(2) op'(2) clr(2) c t(6,4)]])
  moreover have "lrb_ready (bkt_at ?v ?d)" "bkt_recs (bkt_at ?v ?d) = bkt_recs (bkt_at t ?d)"
    by (simp_all add: acked_def bkt_at_def bkt_recs_def)
  ultimately have "clear_calls (state_of (changelog_reader_rpc_hdl L clr t)) =
      Ev_ll_clear (reader_device s) (ccf_clreader (re_cfg s)) (last_index L (bkt_recs (bkt_at s ?d))) (clear_call L ?v) # clear_calls t"
    using t(7-9) rinv_lists [OF t(2)] by (simp add: head_call_def clear_calls_def)
  with t bs show ?thesis by blast
qed

text \<open>The example: no memory for the message with the record of 64 bytes.\<close>

theorem unsent_batch_cleared_witness:
  "\<exists>L t rc. changelog_reader_rpc_hdl L (demo_req [5] demo_dequeue_body) demo_reader = Ok 0 t \<and>
    emits demo_reader t [peer_frames None (cid [5]) (ack_msg (- ENOMEM))] \<and>
    clear_calls (state_of (changelog_reader_rpc_hdl L (demo_req [5] demo_clear) t)) =
      Ev_ll_clear (Some [77, 48]) (Some [99, 108, 49]) 7 rc # clear_calls t"
proof -
  let ?L = "demo_libs\<lparr>lib_alloc := \<lambda>_ n. n < 70\<rparr>"
  have L: "sends_ok ?L" "cr_index ?L demo_rec = 7"
    using demo_libs_ok by (simp_all add: sends_ok_def demo_libs_def demo_rec_def field_simps_c)
  have inv: "rinv ?L demo_reader [0, 2] [1]" 
    using demo_reader_ok rinv_libs [of ?L demo_libs] by (simp add: rec_len_def fun_eq_iff)
  have nx: "next_bucket ?L demo_reader = Some 0" "lrb_size (bkt_at demo_reader 0) = 64"
    using demo_next by (simp_all add: next_bucket_def expired_def)
  have recs: "bkt_recs (bkt_at demo_reader 0) = [demo_rec]" by (simp add: bkt_recs_def bkt_at_def demo_reader_def)
  have env: "reader_device demo_reader = Some [77, 48]" "ccf_clreader (re_cfg demo_reader) = Some [99, 108, 49]"
    by (simp_all add: demo_reader_def reader_device_def demo_cfg_def)
  show ?thesis
    using unsent_batch_cleared [OF reader_invI [OF inv] demo_req_ok [of demo_dequeue_body "[5]"] _ _ _
        demo_req_ok [of demo_clear "[5]"], of "cid [5]" 1] demo_dequeue_facts demo_clear_facts demo_client demo_reader_lists
      L nx recs env
    by (auto simp: demo_req_def is_clear_def last_index_def)
qed

end
