(* ===== verification/Reader_Thread.thy ===== *)
theory Reader_Thread
  imports Reader_Acked
begin

text \<open>
  The loop of the reader thread is a run in the sense of \<open>Reader_Trace\<close>, whatever messages arrive and
  whatever the changelog holds. So what holds of runs holds of the thread: it delivers records in
  order, and it clears the changelog only after acknowledgement.
\<close>

subsection \<open>Hypotheses\<close>

text \<open>
  lustre_user.h: a record with all its extensions and names is far below 64 KiB. The thread starts with
  nothing delivered (see \<open>reader_init_establishes\<close>).
\<close>

definition small_records :: "libs \<Rightarrow> bool" where
  "small_records L \<longleftrightarrow> (\<forall>r. changelog_rec_size L r < 2 ^ 16)"

definition thread_start :: "libs \<Rightarrow> reader_env \<Rightarrow> bool" where
  "thread_start L s \<longleftrightarrow> reader_good L s \<and> nothing_given s \<and> small_records L \<and> ZMQ_DONTWAIT L = 1"

text \<open>
  The traces are those of a thread that gets the memory it asks for and whose messages ZeroMQ takes. A
  batch that could not be sent counts as delivered all the same: see \<open>unsent_batch_cleared\<close>.
\<close>

definition well_started :: "libs \<Rightarrow> reader_env \<Rightarrow> bool" where
  "well_started L s \<longleftrightarrow> thread_start L s \<and> sends_ok L \<and> allocs_ok L"

lemma sum_rec_len:
  assumes "small_records L"
  shows "sum_list (map (rec_len L) rs) \<le> length rs * 2 ^ 17"
proof (induction rs)
  case (Cons r rs)
  have "changelog_rec_size L r < 2 ^ 16" using assms by (simp add: small_records_def)
  moreover have "unat (cr_namelen L r) < 2 ^ LENGTH(16)" by (rule unsigned_less)
  ultimately have "rec_len L r \<le> 2 ^ 17" by (simp add: rec_len_def)
  with Cons show ?case by simp
qed simp

lemma bucket_sizes:
  assumes "reader_good L t" "small_records L"
  shows "\<forall>d \<in> set (buckets_of t). lrb_size (bkt_at t d) + sizeof_enqueue < 2 ^ 63"
proof
  fix d assume d: "d \<in> set (buckets_of t)"
  obtain bs ps where r: "rinv L t bs ps" and bs: "buckets_of t = bs" using assms(1) by (auto simp: reader_good_def elim: reader_invE)
  let ?n = "ccf_rec_batch_count (re_cfg t)"
  obtain b where m: "m_bkts t d = Some b" and ok: "bucket_ok L ?n b" using rinv_bkt [OF r] d bs by blast
  have b: "bkt_at t d = b" "lrb_size b = sum_list (map (rec_len L) (bkt_recs b))" "lrb_rec_count b \<le> ?n"
    using m ok by (simp add: bkt_at_def, simp only: bucket_ok_def, simp only: bucket_ok_def)
  note count = bucket_ok_count [OF ok]
  have "?n < 2 ^ 31" using r by (simp add: rinv_def cfg_ok_def)
  with b(3) count have "int (length (bkt_recs b)) \<le> 2 ^ 31" by linarith
  then have "length (bkt_recs b) \<le> 2 ^ 31" by simp
  then have "length (bkt_recs b) * 2 ^ 17 \<le> 2 ^ 31 * 2 ^ 17" by (rule mult_le_mono1)
  with sum_rec_len [OF assms(2), of "bkt_recs b"] have "lrb_size b \<le> 2 ^ 31 * 2 ^ 17" unfolding b(2) by (rule order_trans)
  then show "lrb_size (bkt_at t d) + sizeof_enqueue < 2 ^ 63" unfolding b(1) by simp
qed

subsection \<open>Traces of the thread\<close>

text \<open>A run, or one that ends in a request in which the thread faults.\<close>

definition reader_trace :: "libs \<Rightarrow> reader_env \<Rightarrow> io list \<Rightarrow> reader_env \<Rightarrow> bool" where
  "reader_trace L s tr u \<longleftrightarrow> reader_run L s tr u \<or>
     (\<exists>tr' t req c e. reader_run L s tr' t \<and> req_ok 3 req \<and> lr_forward req = Some c \<and>
        changelog_reader_rpc_hdl L req t = Bad e u \<and> tr = Served c req (expired L t) [] # tr')"

lemma well_startedD:
  assumes "well_started L s"
  shows "reader_good L s" "nothing_given s" "sends_ok L" "allocs_ok L" "small_records L" "ZMQ_DONTWAIT L = 1"
  using assms by (simp_all add: well_started_def thread_start_def)

lemma well_startedI: "thread_start L s \<Longrightarrow> sends_ok L \<Longrightarrow> allocs_ok L \<Longrightarrow> well_started L s"
  by (simp add: well_started_def)

lemma run_good:
  assumes "well_started L s" "reader_run L s tr t"
  shows "reader_good L t"
  using reader_run_nothing_given(1) [OF assms(2)] well_startedD [OF assms(1)] by blast

lemma run_request:
  assumes start: "well_started L s" and run: "reader_run L s tr t"
    and req: "req_ok 3 req" "small_ids req" and hdl: "changelog_reader_rpc_hdl L req t = Ok rc u"
  shows "\<exists>tr. reader_run L s tr u"
proof -
  note L = well_startedD [OF start] and good = run_good [OF start run]
  obtain c where c: "lr_forward req = Some c" "ci_length c + 8 < 2 ^ 63" using req by (auto simp: req_ok_def small_ids_def)
  have inv: "reader_inv L t" using good by (simp add: reader_good_def)
  note sizes = bucket_sizes [OF good L(5)]
  obtain h r where "implements L c t (changelog_reader_rpc_hdl L req t) r"
    using rpc_hdl_implements [OF inv req(1) c(1) L(3,4) c(2) sizes rpc_hdl_returned [OF hdl]] by blast
  from implementsD [OF this] have "emits t u (reply_frames L c (fst r))" unfolding hdl by (simp split: if_splits)
  with run_serve [OF run req(1) c sizes hdl] show ?thesis by blast
qed

interpretation traced: rpc_server L 3 "changelog_reader_rpc_hdl L" "\<lambda>t. well_started L s \<and> (\<exists>tr. reader_run L s tr t)"
    "\<lambda>e u. \<exists>tr. reader_trace L s tr u" for L s
proof unfold_locales
  fix req :: lcapnet_request and t :: reader_env
  assume req: "req_ok 3 req" "small_ids req" and t: "well_started L s \<and> (\<exists>tr. reader_run L s tr t)"
  then obtain tr where run: "well_started L s" "reader_run L s tr t" by blast
  show "(well_started L s \<and> (\<exists>tr. reader_run L s tr u)) \<and> w_in u = w_in t" if "changelog_reader_rpc_hdl L req t = Ok rc u" for rc u
    using run_request [OF run req that] rpc_hdl_good [OF req(1) run_good [OF run] that] run(1) by blast
next
  fix req :: lcapnet_request and t :: reader_env
  assume req: "req_ok 3 req" and t: "well_started L s \<and> (\<exists>tr. reader_run L s tr t)"
  show "\<exists>tr. reader_trace L s tr u" if "changelog_reader_rpc_hdl L req t = Bad e u" for e u
  proof -
    obtain c where "lr_forward req = Some c" using req by (auto simp: req_ok_def)
    with t req that show ?thesis unfolding reader_trace_def by blast
  qed
qed (blast intro: run_idle)

lemma serve_traced:
  assumes start: "well_started L s" "polls_ok L" and run: "reader_run L s tr t"
  shows "run (\<lambda>e u. \<exists>tr. reader_trace L s tr u) (changelog_reader_serve L t) (\<lambda>rc u. \<exists>tr. reader_run L s tr u)"
proof -
  define v where "v = t\<lparr>w_log := Ev_poll (if re_clpriv t then 50 else 1000)
    (lib_poll L (w_log t) (if re_clpriv t then 50 else 1000)) # w_log t\<rparr>"
  have poll: "waiting_event (Ev_poll i j)" for i j by (simp add: waiting_event_def)
  have "w_log v = Ev_poll (if re_clpriv t then 50 else 1000) (lib_poll L (w_log t) (if re_clpriv t then 50 else 1000)) # w_log t"
    unfolding v_def by (simp del: if_split)
  then have "waits t v" by (rule waits_event) (rule poll)
  then have v: "reader_run L s tr v" by (intro run_idle [OF run]) (simp_all add: v_def)
  have fl: "LCAP_RECV_NONBLOCK OR LCAP_RECV_NO_ENVELOPE = 3" "(3 :: nat) AND ZMQ_DONTWAIT L \<noteq> 0"
    using well_startedD(6) [OF start(1)] by simp_all
  have inv: "well_started L s \<and> (\<exists>tr. reader_run L s tr v)" using start(1) v by blast
  have "run (\<lambda>e u. \<exists>tr. reader_trace L s tr u) (lcap_rpc_recv L 3 (changelog_reader_rpc_hdl L) v) (\<lambda>rc u. \<exists>tr. reader_run L s tr u)"
    using traced.lcap_rpc_recv_inv [OF inv] traced.lcap_rpc_recv_fault [OF inv fl(2)] by (auto simp: run_def split: res.splits)
  then have "run (\<lambda>e u. \<exists>tr. reader_trace L s tr u) (lcap_rpc_recv L 3 (changelog_reader_rpc_hdl L) v) (\<lambda>rc u.
      run (\<lambda>e u. \<exists>tr. reader_trace L s tr u) (if rc < 0 then Ok rc u else Ok 0 u) (\<lambda>rc u. \<exists>tr. reader_run L s tr u))"
    by (elim run_mono) auto
  moreover have "lib_pollin L (w_log v)" if "lib_poll L (w_log t) (if re_clpriv t then 50 else 1000) > 0"
    using start(2) that by (auto simp: polls_ok_def v_def)
  ultimately show ?thesis
    using v unfolding changelog_reader_serve_def fl(1) v_def by (auto simp: Let_def)
qed

lemma enqueue_traced:
  assumes start: "well_started L s" and run: "reader_run L s tr t"
  shows "run never (changelog_reader_enqueue L t) (\<lambda>rc u. \<exists>tr. reader_run L s tr u)"
proof -
  have good: "reader_good L t" by (rule run_good [OF start run])
  then obtain bs ps where r: "rinv L t bs ps" by (auto simp: reader_good_def elim: reader_invE)
  obtain rc u where u: "changelog_reader_enqueue L t = Ok rc u" "enq_post L t ps u"
    using changelog_reader_enqueue_spec [OF r] good by (auto simp: reader_good_def run_never)
  then obtain rs where "stored u = stored t @ rs" by (auto simp: enq_post_def grown_def)
  with run_read [OF run u(1)] u(1) show ?thesis by auto
qed

lemma loop_traced:
  assumes start: "well_started L s" "polls_ok L" and run: "reader_run L s tr t"
  shows "run (\<lambda>e u. \<exists>tr. reader_trace L s tr u) (reader_loop k L rc t) (\<lambda>r u. \<exists>tr. reader_run L s tr u)"
  using run
proof (induction k arbitrary: t tr rc)
  case (Suc k)
  let ?bad = "\<lambda>e u. \<exists>tr. reader_trace L s tr u" and ?Q = "\<lambda>r u. \<exists>tr. reader_run L s tr u"
  obtain b u where sig: "read_term_sig L t = (b, u)" "world.more u = world.more t" "waits t u"
  proof
    show "read_term_sig L t = (fst (read_term_sig L t), snd (read_term_sig L t))" by simp
    show "waits t (snd (read_term_sig L t))"
      by (rule waits_event [of _ "Ev_term_sig (lib_term_sig L (w_log t))"]) (simp_all add: read_term_sig_def Let_def)
  qed (simp add: read_term_sig_def Let_def)
  have u: "reader_run L s tr u" by (rule run_idle [OF Suc.prems sig(2,3)])
  have serve: "run ?bad (if rc < 0 then Ok (Some rc) v
         else bindR (changelog_reader_serve L v) (\<lambda>rc s. if rc < 0 then Ok (Some rc) s else reader_loop k L rc s)) ?Q"
    if v: "\<exists>tr. reader_run L s tr v" for rc v
  proof -
    obtain tr where v: "reader_run L s tr v" using v by blast
    have "run ?bad (if rc < 0 then Ok (Some rc) w else reader_loop k L rc w) ?Q" if "\<exists>tr. reader_run L s tr w" for rc w
      using that Suc.IH by auto
    then have "run ?bad (changelog_reader_serve L v) (\<lambda>rc w. run ?bad (if rc < 0 then Ok (Some rc) w else reader_loop k L rc w) ?Q)"
      by (intro run_mono [OF serve_traced [OF start v]])
    with v show ?thesis by auto
  qed
  have "run ?bad (changelog_reader_enqueue L u) (\<lambda>rc v. run ?bad (if rc < 0 then Ok (Some rc) v
         else bindR (changelog_reader_serve L v) (\<lambda>rc s. if rc < 0 then Ok (Some rc) s else reader_loop k L rc s)) ?Q)"
    by (rule run_mono [OF enqueue_traced [OF start(1) u]]) (simp_all only: serve simp_thms)
  with sig(1) u show ?case by auto
qed auto

text \<open>Every execution of the reader's main loop is such a trace, for any messages that arrive, any changelog
  and any number of turns, when the libraries serve it well.\<close>

lemma thread_traced:
  assumes "thread_start L s" "sends_ok L" "allocs_ok L" "polls_ok L"
  shows "\<exists>tr. reader_trace L s tr (state_of (reader_loop k L rc s)) \<and>
    (\<forall>r t. reader_loop k L rc s = Ok r t \<longrightarrow> emits s t (sent_in tr))"
proof (cases "reader_loop k L rc s")
  case (Ok r t)
  then obtain tr where "reader_run L s tr t" using loop_traced [OF well_startedI [OF assms(1-3)] assms(4) run_start, of k rc] by auto
  with Ok reader_run_emits show ?thesis by (auto simp: reader_trace_def)
next
  case (Bad e t)
  then show ?thesis using loop_traced [OF well_startedI [OF assms(1-3)] assms(4) run_start, of k rc] by auto
qed

lemma demo_thread_start: "thread_start demo_libs demo_reader"
proof -
  have "small_records demo_libs" by (simp add: small_records_def demo_libs_def)
  then show ?thesis using demo_reader_good demo_nothing_given by (simp add: thread_start_def)
qed

subsection \<open>Order of delivery\<close>

text \<open>(C5) When a reader gets the memory it asks for and ZeroMQ takes its messages: whatever requests it gets,
  in any order and from any clients, and whenever it reads the changelog, the ENQUEUE messages it sent since delivery last started over carry, in order and each record
  once, exactly the first of all records it read; and while it runs no record it read is lost.\<close>

theorem delivered_in_order:
  assumes "thread_start L s" "sends_ok L" "allocs_ok L" "reader_trace L s tr u"
  shows "\<exists>rss rest. stored s @ taken tr = concat rss @ rest \<and> pass tr = map (batch_body L) rss \<and>
    (reader_run L s tr u \<longrightarrow> stored u = stored s @ taken tr)"
proof -
  note L = well_startedD [OF well_startedI [OF assms(1-3)]]
  from assms(4) obtain tr' t where run: "reader_run L s tr' t" "taken tr = taken tr'" "pass tr = pass tr'"
    unfolding reader_trace_def
  proof (elim disjE exE conjE)
    fix tr' t req c e
    assume "reader_run L s tr' t" "tr = Served c req (expired L t) [] # tr'"
    then show thesis by (intro that [of tr' t]) (simp_all add: batch_in_def)
  qed (use that in blast)
  have "stored u = stored s @ taken tr" if "reader_run L s tr u"
    using reader_run_nothing_given(3) [OF that L(1-4)] .
  then show ?thesis using pass_prefix [OF run(1) L(1-4)] unfolding run(2,3) by blast
qed

theorem delivered_in_order_witness:
  "\<exists>tr t rss. reader_trace demo_libs demo_reader tr t \<and> rss \<noteq> [] \<and> pass tr = map (batch_body demo_libs) rss"
proof (rule demo_run)
  fix t again
  let ?tr = "[Served (cid [5]) (demo_req [5] demo_dequeue_body) again (reply_frames demo_libs (cid [5]) (Batch [demo_rec]))]"
  assume "reader_run demo_libs demo_reader ?tr t"
  then have t: "reader_trace demo_libs demo_reader ?tr t" by (simp add: reader_trace_def)
  obtain rss where "pass ?tr = map (batch_body demo_libs) rss"
    using delivered_in_order [OF demo_thread_start demo_libs_ok(2,1) t] by blast
  moreover have "pass ?tr \<noteq> []" by (simp add: batch_in_reply)
  ultimately show ?thesis using t by (intro exI [of _ ?tr] exI [of _ t] exI [of _ rss]) auto
qed

subsection \<open>When records are cleared\<close>

lemma run_clears:
  assumes start: "well_started L s" and run: "reader_run L s tr t"
  shows "\<exists>cs. clear_calls t = cs @ clear_calls s \<and>
    (\<forall>dev cli idx rc. Ev_ll_clear dev cli idx rc \<in> set cs \<longrightarrow> cleared_ok L s tr idx)"
  using run
proof (induction rule: reader_run.induct)
  case (run_read tr t rc u rs)
  have "clear_calls u = clear_calls t"
    using clearing.adds_filter clearing.changelog_reader_enqueue_silent [of t L] run_read.hyps(2)
    by (simp add: clearing.silent_def clear_calls_def)
  with run_read.IH cleared_ok_mono show ?case by fastforce
next
  case (run_idle tr t u)
  have "clear_calls u = clear_calls t"
    using run_idle.hyps(3)
    by (auto simp: waits_def clear_calls_def list_all_iff filter_empty_conv waiting_event_def clear_call_event_def split: event.splits)
  with run_idle.IH show ?case by simp
next
  case (run_serve tr t req c rc u ms)
  note L = well_startedD [OF start]
  obtain cs where cs: "clear_calls t = cs @ clear_calls s"
      "\<forall>dev cli idx rc. Ev_ll_clear dev cli idx rc \<in> set cs \<longrightarrow> cleared_ok L s tr idx" using run_serve.IH by blast
  obtain ds where ds: "clear_calls u = ds @ clear_calls t"
      "\<forall>dev cli idx rc. Ev_ll_clear dev cli idx rc \<in> set ds \<longrightarrow> cleared_ok L s (Served c req (expired L t) ms # tr) idx"
    using head_call_acknowledged [OF run_serve.hyps(1) L(1-4) run_serve.hyps(2,3), of "expired L t" ms] run_serve.hyps(6) by auto
  show ?case
  proof (intro exI [of _ "ds @ cs"] conjI allI impI)
    show "clear_calls u = (ds @ cs) @ clear_calls s" using cs(1) ds(1) by simp
    fix dev cli idx rc
    assume "Ev_ll_clear dev cli idx rc \<in> set (ds @ cs)"
    then consider "Ev_ll_clear dev cli idx rc \<in> set ds" | "Ev_ll_clear dev cli idx rc \<in> set cs" by auto
    then show "cleared_ok L s (Served c req (expired L t) ms # tr) idx"
      using cs(2) ds(2) cleared_ok_mono by cases blast+
  qed
qed simp

lemma trace_clears:
  assumes start: "well_started L s" and trace: "reader_trace L s tr u"
  shows "\<exists>cs. clear_calls u = cs @ clear_calls s \<and>
    (\<forall>dev cli idx rc. Ev_ll_clear dev cli idx rc \<in> set cs \<longrightarrow> cleared_ok L s tr idx)"
  using trace unfolding reader_trace_def
proof (elim disjE exE conjE)
  fix tr' t req c e
  assume run: "reader_run L s tr' t" and req: "req_ok 3 req" "lr_forward req = Some c"
    and bad: "changelog_reader_rpc_hdl L req t = Bad e u" and tr: "tr = Served c req (expired L t) [] # tr'"
  note L = well_startedD [OF start]
  obtain cs where cs: "clear_calls t = cs @ clear_calls s"
      "\<forall>dev cli idx rc. Ev_ll_clear dev cli idx rc \<in> set cs \<longrightarrow> cleared_ok L s tr' idx" using run_clears [OF start run] by blast
  obtain ds where ds: "clear_calls u = ds @ clear_calls t"
      "\<forall>dev cli idx rc. Ev_ll_clear dev cli idx rc \<in> set ds \<longrightarrow> cleared_ok L s tr idx"
    using head_call_acknowledged [OF run L(1-4) req, of "expired L t" "[]"] bad unfolding tr by auto
  show ?thesis
  proof (intro exI [of _ "ds @ cs"] conjI allI impI)
    show "clear_calls u = (ds @ cs) @ clear_calls s" using cs(1) ds(1) by simp
    fix dev cli idx rc
    assume "Ev_ll_clear dev cli idx rc \<in> set (ds @ cs)"
    then consider "Ev_ll_clear dev cli idx rc \<in> set ds" | "Ev_ll_clear dev cli idx rc \<in> set cs" by auto
    then show "cleared_ok L s tr idx"
      using cs(2) ds(2) cleared_ok_mono unfolding tr by cases blast+
  qed
qed (rule run_clears [OF start])

text \<open>(C4) When a reader gets the memory it asks for and ZeroMQ takes its messages: whatever its clients send,
  whenever it reads the changelog and even when it faults, it asks
  Lustre to forget records only up to the last record of a batch that holds the first records it read, and only
  when some client was sent exactly these records and has sent a CLEAR since.\<close>

theorem cleared_after_acknowledged:
  assumes "thread_start L s" "sends_ok L" "allocs_ok L" "reader_trace L s tr u"
    and log: "w_log u = evs @ w_log s" and call: "Ev_ll_clear dev cli idx e \<in> set evs"
  shows "cleared_ok L s tr idx"
proof -
  obtain cs where cs: "clear_calls u = cs @ clear_calls s"
      "\<forall>dev cli idx rc. Ev_ll_clear dev cli idx rc \<in> set cs \<longrightarrow> cleared_ok L s tr idx"
    using trace_clears [OF well_startedI [OF assms(1-3)] assms(4)] by blast
  have "cs = filter clear_call_event evs" using cs(1) log by (simp add: clear_calls_def)
  then have "Ev_ll_clear dev cli idx e \<in> set cs" using call by (simp add: clear_call_event_def)
  with cs(2) show ?thesis by blast
qed

theorem cleared_after_acknowledged_witness:
  "\<exists>tr u dev cli. reader_trace demo_libs demo_reader tr u \<and> Ev_ll_clear dev cli 7 0 \<in> set (w_log u) \<and>
     cleared_ok demo_libs demo_reader tr 7"
proof (rule demo_run)
  fix t again
  let ?tr = "[Served (cid [5]) (demo_req [5] demo_dequeue_body) again (reply_frames demo_libs (cid [5]) (Batch [demo_rec]))]"
  let ?req = "demo_req [5] demo_clear" and ?c = "cid [5 :: byte]"
  assume t: "reader_run demo_libs demo_reader ?tr t"
    and "\<exists>now'. abs_of t = demo_abs\<lparr>ar_clients := [(cid [5], Some 0)], ar_next := Some 2,
        ar_buckets := [\<lparr>ab_id = 0, ab_recs = [demo_rec], ab_ready = False, ab_expiry = now' + 10\<rparr>,
          \<lparr>ab_id = 2, ab_recs = [], ab_ready = False, ab_expiry = 0\<rparr>]\<rparr>"
  then obtain x where abs: "ar_clients (abs_of t) = [(?c, Some 0)]"
      "ar_buckets (abs_of t) = [\<lparr>ab_id = 0, ab_recs = [demo_rec], ab_ready = False, ab_expiry = x\<rparr>,
          \<lparr>ab_id = 2, ab_recs = [], ab_ready = False, ab_expiry = 0\<rparr>]" by auto
  have inv: "reader_inv demo_libs t" using run_good [OF well_startedI [OF demo_thread_start demo_libs_ok(2,1)] t] by (simp add: reader_good_def)
  obtain bs ps where r: "rinv demo_libs t bs ps" using reader_invE [OF inv] .
  have "map ab_id (ar_buckets (abs_of t)) = bs" by (simp add: abs_rinv [OF r])
  then have bs: "buckets_of t = [0, 2]" using abs(2) rinv_lists [OF r] by simp
  have "map bkt_recs (map (bkt_at t) bs) = map ab_recs (ar_buckets (abs_of t))" by (simp add: abs_rinv [OF r] comp_def)
  then have recs: "bkt_recs (bkt_at t 0) = [demo_rec]" using bs rinv_lists [OF r] by (simp add: abs(2))
  have "holding ?c (abs_of t) = Some (Some 0)" by (simp add: abs(1))
  then obtain a where a: "client_of t ?c = Some a" "client_bucket t a = Some 0" using holding_abs [OF r, of ?c] by auto
  have req: "lr_forward ?req = Some ?c" "req_ok 3 ?req" using demo_clear_facts by (simp add: demo_req_def, intro demo_req_ok)
  let ?hb = "bkt_at (acked a 0 t) 0"
  have hb: "lrb_ready ?hb" "bkt_recs ?hb = [demo_rec]" using recs by (simp_all add: acked_def bkt_at_def bkt_recs_def)
  have "cr_index demo_libs demo_rec = 7" by (simp add: demo_libs_def demo_rec_def field_simps_c)
  then have mx: "bkt_max demo_libs ?hb = 7" using hb(2) by (simp add: bkt_max_def)
  have rc: "lib_ll_clear demo_libs h d n i = 0" for h d n i by (simp add: demo_libs_def)
  obtain u where u: "changelog_reader_rpc_hdl demo_libs ?req t = Bad Use_after_free u"
      "w_log u = (rev (map (Ev_ll_free \<circ> Some) [demo_rec]) @ [Ev_ll_clear (reader_device t) (ccf_clreader (re_cfg t)) 7 0]) @ w_log t"
    using clear_behaviour [OF inv req(2,1) _ _ a] demo_clear_facts hb mx bs rc by (auto simp: demo_req_def)
  have trace: "reader_trace demo_libs demo_reader (Served ?c ?req (expired demo_libs t) [] # ?tr) u"
    unfolding reader_trace_def using t req u(1) by blast
  have log: "w_log u = w_log u @ w_log demo_reader" by (simp add: demo_reader_def)
  have call: "Ev_ll_clear (reader_device t) (ccf_clreader (re_cfg t)) 7 0 \<in> set (w_log u)" using u(2) by simp
  from trace call cleared_after_acknowledged [OF demo_thread_start demo_libs_ok(2,1) trace log call] show ?thesis by blast
qed

end
