(* ===== verification/Strings.thy ===== *)
theory Strings
  imports Prelude
begin

text \<open>
  What the configuration parser, the logger and the command lines use of the C library on
  strings: case-insensitive comparison, white space and words (the two conversions of
  \<^verbatim>\<open>sscanf\<close>), \<^verbatim>\<open>atoi\<close>, \<^verbatim>\<open>fgets\<close>, decimal output, and \<^verbatim>\<open>getopt\<close> with the permutation of
  operands GNU's has. A string is its bytes without the terminating NUL; the C locale is in force.
\<close>

definition str :: "string \<Rightarrow> bytes" where
  "str s = map of_char s"

subsection \<open>Comparison\<close>

definition c_tolower :: "byte \<Rightarrow> byte" where
  "c_tolower b = (if 65 \<le> b \<and> b \<le> 90 then b + 32 else b)"

definition strcasecmp_eq :: "bytes \<Rightarrow> bytes \<Rightarrow> bool" where
  "strcasecmp_eq a b \<longleftrightarrow> map c_tolower a = map c_tolower b"

text \<open>\<^verbatim>\<open>strncasecmp\<close> on the first \<open>n\<close> bytes; a string that is shorter differs at its NUL.\<close>

definition strncasecmp_eq :: "bytes \<Rightarrow> bytes \<Rightarrow> nat \<Rightarrow> bool" where
  "strncasecmp_eq a b n \<longleftrightarrow> map c_tolower (take n a) = map c_tolower (take n b)"

lemma strcasecmp_refl [simp]: "strcasecmp_eq a a"
  by (simp add: strcasecmp_eq_def)

lemma strncasecmp_prefix [simp]: "strncasecmp_eq (a @ b) a (length a)"
  by (simp add: strncasecmp_eq_def)

subsection \<open>White space and words\<close>

definition c_isspace :: "byte \<Rightarrow> bool" where
  "c_isspace b \<longleftrightarrow> b = 32 \<or> (9 \<le> b \<and> b \<le> 13)"

definition skip_space :: "bytes \<Rightarrow> bytes" where
  "skip_space l = dropWhile c_isspace l"

definition word_of :: "bytes \<Rightarrow> bytes" where
  "word_of l = takeWhile (\<lambda>b. \<not> c_isspace b) (skip_space l)"

definition after_word :: "bytes \<Rightarrow> bytes" where
  "after_word l = dropWhile (\<lambda>b. \<not> c_isspace b) (skip_space l)"

definition no_space :: "bytes \<Rightarrow> bool" where
  "no_space w \<longleftrightarrow> list_all (\<lambda>b. \<not> c_isspace b) w"

lemma skip_space_word: "no_space w \<Longrightarrow> w \<noteq> [] \<Longrightarrow> skip_space (w @ r) = w @ r"
  by (cases w) (auto simp: no_space_def skip_space_def)

lemma skip_space_append: "list_all c_isspace l \<Longrightarrow> skip_space (l @ r) = skip_space r"
  by (auto simp: skip_space_def list_all_iff intro: dropWhile_append2)

lemma word_of_word:
  assumes "no_space w" "w \<noteq> []" "c_isspace b"
  shows "word_of (w @ b # r) = w" "after_word (w @ b # r) = b # r"
proof -
  have "\<forall>x \<in> set w. \<not> c_isspace x" using assms(1) by (simp add: no_space_def list_all_iff)
  then show "word_of (w @ b # r) = w" "after_word (w @ b # r) = b # r"
    using assms by (simp_all add: word_of_def after_word_def skip_space_word dropWhile_append2 takeWhile_append2)
qed

lemma word_of_no_space: "no_space (word_of l)"
  by (auto simp: no_space_def word_of_def list_all_iff dest: set_takeWhileD)

lemma length_word_of: "length (word_of l) \<le> length l"
  unfolding word_of_def skip_space_def
  by (meson length_dropWhile_le length_takeWhile_le order_trans)

lemma length_after_word: "length (word_of l) + length (after_word l) \<le> length l"
proof -
  have "length (word_of l) + length (after_word l) = length (skip_space l)"
    by (simp add: word_of_def after_word_def flip: length_append)
  also have "\<dots> \<le> length l" by (simp add: skip_space_def length_dropWhile_le)
  finally show ?thesis .
qed

subsection \<open>Numbers\<close>

definition c_isdigit :: "byte \<Rightarrow> bool" where
  "c_isdigit b \<longleftrightarrow> 48 \<le> b \<and> b \<le> 57"

definition digits_value :: "bytes \<Rightarrow> nat" where
  "digits_value ds = foldl (\<lambda>a d. 10 * a + (unat d - 48)) 0 ds"

text \<open>\<^verbatim>\<open>atoi\<close>: \<open>None\<close> when the number has no \<^verbatim>\<open>int\<close> value, for which C defines no behaviour.\<close>

definition c_atoi :: "bytes \<Rightarrow> int option" where
  "c_atoi l =
     (let l = skip_space l;
          neg = (case l of b # _ \<Rightarrow> b = 45 | [] \<Rightarrow> False);
          l = (case l of b # r \<Rightarrow> if b = 45 \<or> b = 43 then r else l | [] \<Rightarrow> []);
          v = int (digits_value (takeWhile c_isdigit l));
          v = (if neg then - v else v)
      in if in_int32 v then Some v else None)"

fun show_nat :: "nat \<Rightarrow> bytes" where
  "show_nat n = (if n < 10 then [48 + of_nat n] else show_nat (n div 10) @ [48 + of_nat (n mod 10)])"

declare show_nat.simps [simp del]

lemma digit_facts:
  assumes "n < 10"
  shows "c_isdigit (48 + of_nat n)" "unat (48 + of_nat n :: byte) = 48 + n" "\<not> c_isspace (48 + of_nat n)"
    "(48 + of_nat n :: byte) \<noteq> 45" "(48 + of_nat n :: byte) \<noteq> 43"
proof -
  have "n \<in> {0, 1, 2, 3, 4, 5, 6, 7, 8, 9}" using assms by auto
  then show "c_isdigit (48 + of_nat n)" "unat (48 + of_nat n :: byte) = 48 + n" "\<not> c_isspace (48 + of_nat n)"
    "(48 + of_nat n :: byte) \<noteq> 45" "(48 + of_nat n :: byte) \<noteq> 43"
    by (auto simp: c_isdigit_def c_isspace_def)
qed

lemma show_nat_digits: "list_all c_isdigit (show_nat n) \<and> show_nat n \<noteq> [] \<and> digits_value (show_nat n) = n"
proof (induction n rule: show_nat.induct)
  case (1 n)
  show ?case
  proof (cases "n < 10")
    case True
    then show ?thesis using digit_facts [OF True] by (simp add: show_nat.simps [of n] digits_value_def)
  next
    case False
    then show ?thesis
      using 1 [OF False] digit_facts [of "n mod 10"]
      by (simp add: show_nat.simps [of n] digits_value_def)
  qed
qed

lemma digit_not_special: "c_isdigit b \<Longrightarrow> \<not> c_isspace b \<and> b \<noteq> 45 \<and> b \<noteq> 43 \<and> b \<noteq> 0 \<and> b \<noteq> 10"
  by (auto simp: c_isdigit_def c_isspace_def word_le_nat_alt)

lemma show_nat_no_space: "no_space (show_nat n)"
  using show_nat_digits [of n] digit_not_special by (auto simp: no_space_def list_all_iff)

lemma atoi_show_nat: "n < 2 ^ 31 \<Longrightarrow> c_atoi (show_nat n) = Some (int n)"
proof -
  assume n: "n < 2 ^ 31"
  obtain d ds where ds: "show_nat n = d # ds" "list_all c_isdigit (d # ds)" "digits_value (d # ds) = n"
    using show_nat_digits [of n] by (cases "show_nat n") auto
  have tw: "takeWhile c_isdigit (d # ds) = d # ds"
    using ds(2) by (simp only: takeWhile_eq_all_conv list_all_iff)
  have "skip_space (d # ds) = d # ds" "d \<noteq> 45" "d \<noteq> 43"
    using ds(2) digit_not_special [of d] by (simp_all add: skip_space_def)
  then show ?thesis
    using n ds(3) unfolding c_atoi_def Let_def ds(1)
    by (simp add: in_int32_def tw del: takeWhile.simps)
qed

subsection \<open>Lines of a file\<close>

text \<open>\<^verbatim>\<open>fgets\<close> with a buffer of \<open>n\<close> bytes: up to \<open>n - 1\<close> bytes, ending after a newline.\<close>

definition fgets :: "nat \<Rightarrow> bytes \<Rightarrow> bytes \<times> bytes" where
  "fgets n c = (let m = min (n - 1) (length (takeWhile (\<lambda>b. b \<noteq> 10) c) + 1) in (take m c, drop m c))"

lemma takeWhile_line: "10 \<notin> set l \<Longrightarrow> takeWhile (\<lambda>b. b \<noteq> 10) (l @ 10 # r) = (l :: bytes)"
  by (induction l) auto

lemma fgets_line:
  "10 \<notin> set l \<Longrightarrow> length l + 1 < n \<Longrightarrow> fgets n (l @ 10 # r) = (l @ [10], r)"
proof -
  assume *: "10 \<notin> set l" "length l + 1 < n"
  then have "min (n - 1) (length l + 1) = length l + 1" by simp
  with * show ?thesis by (simp add: fgets_def takeWhile_line)
qed

lemma fgets_shorter: "c \<noteq> [] \<Longrightarrow> 2 \<le> n \<Longrightarrow> fgets n c = (l, r) \<Longrightarrow> length r < length c \<and> length l < n"
  by (cases c) (auto simp: fgets_def Let_def min_def split: if_splits)

subsection \<open>Command lines\<close>

text \<open>
  \<^verbatim>\<open>getopt\<close> on the arguments after the program's name: the options in order, each with its
  argument, and the operands. \<open>opts c\<close> is whether option \<open>c\<close> takes an argument, \<open>None\<close> when it is
  no option; an unknown option or a missing argument is the pair of \<^verbatim>\<open>'?'\<close> and that character.
\<close>

type_synonym opt_event = "byte \<times> bytes option"

fun getopt_cluster ::
    "(byte \<Rightarrow> bool option) \<Rightarrow> bytes \<Rightarrow> bytes list \<Rightarrow> opt_event list \<times> bytes list" where
  "getopt_cluster opts [] args = ([], args)"
| "getopt_cluster opts (c # cs) args =
     (case opts c of
        None \<Rightarrow> (case getopt_cluster opts cs args of (es, args) \<Rightarrow> ((63, Some [c]) # es, args))
      | Some False \<Rightarrow> (case getopt_cluster opts cs args of (es, args) \<Rightarrow> ((c, None) # es, args))
      | Some True \<Rightarrow>
          if cs \<noteq> [] then ([(c, Some cs)], args)
          else (case args of [] \<Rightarrow> ([(63, Some [c])], []) | a # as \<Rightarrow> ([(c, Some a)], as)))"

lemma getopt_cluster_shrinks:
  "getopt_cluster opts cs args = (es, rest) \<Longrightarrow> length rest \<le> length args"
  by (induction opts cs args arbitrary: es rest rule: getopt_cluster.induct)
    (auto split: option.splits bool.splits if_splits list.splits prod.splits)

function getopt_all :: "(byte \<Rightarrow> bool option) \<Rightarrow> bytes list \<Rightarrow> opt_event list \<times> bytes list" where
  "getopt_all opts [] = ([], [])"
| "getopt_all opts (a # args) =
     (if a = [45, 45] then ([], args)
      else case a of
             b # c # cs \<Rightarrow>
               if b = 45 then
                 (case getopt_cluster opts (c # cs) args of
                    (es, rest) \<Rightarrow> (case getopt_all opts rest of (fs, ops) \<Rightarrow> (es @ fs, ops)))
               else (case getopt_all opts args of (es, ops) \<Rightarrow> (es, a # ops))
           | _ \<Rightarrow> (case getopt_all opts args of (es, ops) \<Rightarrow> (es, a # ops)))"
  by pat_completeness auto
termination
  by (relation "measure (\<lambda>(opts, args). length args)")
    (auto simp del: getopt_cluster.simps dest!: getopt_cluster_shrinks [OF sym])

end
