(* ===== verification/Config.thy ===== *)
theory Config
  imports Strings Rpc_Utils
begin

text \<open>
  \<^verbatim>\<open>src/lcapd/config.c\<close>: the command line of the daemon, the statements of its configuration
  file and the release of a configuration. The configuration being filled is part of the state;
  what is printed on the standard error is left out. Two things come from outside: the files
  that can be opened, and what \<^verbatim>\<open>sscanf\<close> returns when the input ends after the suppressed word.
\<close>

subsection \<open>State and environment\<close>

record cfg_state = world +
  st_cfg :: lcap_cfg

record cfg_env =
  env_file :: "bytes \<Rightarrow> (bytes \<times> nat) option" \<comment> \<open>contents and the errno that ends it, 0 for the end of the file\<close>
  env_sscanf_end :: int

type_synonym 'a cfg_op = "cfg_state \<Rightarrow> ('a, cfg_state) res"

datatype outcome = Returns int | Exits nat \<comment> \<open>the function returned, or called \<^verbatim>\<open>exit\<close>\<close>

definition DEFAULT_CFG_FILE :: bytes where "DEFAULT_CFG_FILE = str ''/etc/lcap.cfg''"
abbreviation (input) DEFAULT_REC_BATCH :: int where "DEFAULT_REC_BATCH \<equiv> 64"
abbreviation (input) DEFAULT_MAX_BUCKETS :: int where "DEFAULT_MAX_BUCKETS \<equiv> 256"

definition cfg_zero :: lcap_cfg where
  "cfg_zero = \<lparr>ccf_mdt = replicate MAX_MDT None, ccf_clreader = None, ccf_mdtcount = 0, ccf_file = None,
     ccf_loggername = None, ccf_oneshot = False, ccf_verbosity = 0, ccf_max_bkt = 0,
     ccf_rec_batch_count = 0, ccf_worker_count = 0\<rparr>"

definition set_cfg :: "(lcap_cfg \<Rightarrow> lcap_cfg) \<Rightarrow> cfg_state \<Rightarrow> cfg_state" where
  "set_cfg f s = s\<lparr>st_cfg := f (st_cfg s)\<rparr>"

subsection \<open>Arguments of a statement\<close>

definition startswith :: "bytes \<Rightarrow> bytes \<Rightarrow> bool" where
  "startswith haystack needle = strncasecmp_eq haystack needle (length needle)"

text \<open>
  The format \<^verbatim>\<open>"%*s %254s"\<close> skips a word and stores the next one. Without a second word nothing
  is stored, and any result but 0 has the uninitialised array duplicated.
\<close>

definition cfg_get_arg :: "libs \<Rightarrow> cfg_env \<Rightarrow> bytes \<Rightarrow> bytes option cfg_op" where
  "cfg_get_arg L E line s =
     (let arg = take 254 (word_of (after_word line));
          rc = (if skip_space line = [] then - 1 else if arg = [] then env_sscanf_end E else 1)
      in if rc = 0 then Ok None s
         else if arg = [] then Bad Uninit_read s
         else case alloc L (length arg + 1) s of (ok, s) \<Rightarrow> Ok (if ok then Some arg else None) s)"

text \<open>A statement that sets a number.\<close>

definition number_line :: "libs \<Rightarrow> cfg_env \<Rightarrow> (int \<Rightarrow> lcap_cfg \<Rightarrow> lcap_cfg) \<Rightarrow> bytes \<Rightarrow> int cfg_op" where
  "number_line L E upd line s =
     bindR (cfg_get_arg L E line s) (\<lambda>count s.
     case count of
       None \<Rightarrow> Ok (- EINVAL) s
     | Some c \<Rightarrow>
         (case c_atoi c of None \<Rightarrow> Bad Signed_overflow s | Some v \<Rightarrow> Ok 0 (set_cfg (upd v) s)))"

definition handle_cfg_batch_records_line :: "libs \<Rightarrow> cfg_env \<Rightarrow> bytes \<Rightarrow> int cfg_op" where
  "handle_cfg_batch_records_line L E = number_line L E (\<lambda>v c. c\<lparr>ccf_rec_batch_count := v\<rparr>)"

definition handle_cfg_max_buckets_line :: "libs \<Rightarrow> cfg_env \<Rightarrow> bytes \<Rightarrow> int cfg_op" where
  "handle_cfg_max_buckets_line L E = number_line L E (\<lambda>v c. c\<lparr>ccf_max_bkt := v\<rparr>)"

definition handle_cfg_logtype_line :: "libs \<Rightarrow> cfg_env \<Rightarrow> bytes \<Rightarrow> int cfg_op" where
  "handle_cfg_logtype_line L E line s =
     (if ccf_loggername (st_cfg s) \<noteq> None then Ok (- EALREADY) s
      else bindR (cfg_get_arg L E line s) (\<lambda>arg s.
           let s = set_cfg (\<lambda>c. c\<lparr>ccf_loggername := arg\<rparr>) s
           in Ok (if arg = None then - EINVAL else 0) s))"

definition handle_cfg_workers_line :: "libs \<Rightarrow> cfg_env \<Rightarrow> bytes \<Rightarrow> int cfg_op" where
  "handle_cfg_workers_line L E line s =
     (if ccf_worker_count (st_cfg s) \<noteq> 0 then Ok (- EALREADY) s
      else number_line L E (\<lambda>v c. c\<lparr>ccf_worker_count := v\<rparr>) line s)"

definition handle_cfg_mdtdevice_line :: "libs \<Rightarrow> cfg_env \<Rightarrow> bytes \<Rightarrow> int cfg_op" where
  "handle_cfg_mdtdevice_line L E line s =
     (if ccf_mdtcount (st_cfg s) \<ge> MAX_MDT then Ok (- EALREADY) s
      else bindR (cfg_get_arg L E line s) (\<lambda>arg s.
           case arg of
             None \<Rightarrow> Ok (- EINVAL) s
           | Some mdtdev \<Rightarrow>
               Ok 0 (set_cfg (\<lambda>c. c\<lparr>ccf_mdt := (ccf_mdt c)[ccf_mdtcount c := Some mdtdev],
                                  ccf_mdtcount := ccf_mdtcount c + 1\<rparr>) s)))"

definition handle_cfg_clreader_line :: "libs \<Rightarrow> cfg_env \<Rightarrow> bytes \<Rightarrow> int cfg_op" where
  "handle_cfg_clreader_line L E line s =
     (if ccf_clreader (st_cfg s) \<noteq> None then Ok (- EALREADY) s
      else bindR (cfg_get_arg L E line s) (\<lambda>arg s.
           case arg of
             None \<Rightarrow> Ok (- EINVAL) s
           | Some clreader \<Rightarrow> Ok 0 (set_cfg (\<lambda>c. c\<lparr>ccf_clreader := Some clreader\<rparr>) s)))"

subsection \<open>The file\<close>

definition directives :: "(bytes \<times> (libs \<Rightarrow> cfg_env \<Rightarrow> bytes \<Rightarrow> int cfg_op)) list" where
  "directives =
     [(str ''batch_records'', handle_cfg_batch_records_line),
      (str ''max_buckets'', handle_cfg_max_buckets_line),
      (str ''logtype'', handle_cfg_logtype_line),
      (str ''workers'', handle_cfg_workers_line),
      (str ''mdtdevice'', handle_cfg_mdtdevice_line),
      (str ''clreader'', handle_cfg_clreader_line)]"

text \<open>
  White space is skipped only to recognise empty lines and comments: the directive is looked for
  at the start of the line itself.
\<close>

definition parse_config_line :: "libs \<Rightarrow> cfg_env \<Rightarrow> bytes \<Rightarrow> int cfg_op" where
  "parse_config_line L E line s =
     (case skip_space line of
        [] \<Rightarrow> Ok 0 s
      | b # _ \<Rightarrow>
          if b = 35 then Ok 0 s
          else case find (\<lambda>(name, handler). startswith line name) directives of
                 None \<Rightarrow> Ok (- EINVAL) s
               | Some (name, handler) \<Rightarrow> handler L E line s)"

abbreviation (input) LINE_SIZE :: nat where "LINE_SIZE \<equiv> 128"

text \<open>
  A NUL byte in the file ends the string the line is read as. At the end of the file the result
  is the negated \<^verbatim>\<open>errno\<close>, which the end of a file does not set.
\<close>

function parse_lines :: "libs \<Rightarrow> cfg_env \<Rightarrow> nat \<Rightarrow> bytes \<Rightarrow> int cfg_op" where
  "parse_lines L E err content s =
     (if content = [] then
        (let s = (if err \<noteq> 0 then s\<lparr>w_errno := err\<rparr> else s) in Ok (- int (w_errno s)) s)
      else case fgets LINE_SIZE content of
             (line, rest) \<Rightarrow>
               bindR (parse_config_line L E (c_str line) s) (\<lambda>rc s.
               if rc \<noteq> 0 then Ok rc s else parse_lines L E err rest s))"
  by pat_completeness auto
termination
  by (relation "measure (\<lambda>(L, E, err, content, s). length content)")
    (auto dest!: fgets_shorter [where n = LINE_SIZE, OF _ _ sym])

declare parse_lines.simps [simp del]

definition lcap_parse_config_file :: "libs \<Rightarrow> cfg_env \<Rightarrow> int cfg_op" where
  "lcap_parse_config_file L E s =
     (let filename = (case ccf_file (st_cfg s) of None \<Rightarrow> DEFAULT_CFG_FILE | Some f \<Rightarrow> f)
      in case env_file E filename of
           None \<Rightarrow> Ok (- ENOENT) s
         | Some (content, err) \<Rightarrow> parse_lines L E err content s)"

subsection \<open>The command line\<close>

definition lcapd_opts :: "byte \<Rightarrow> bool option" where
  "lcapd_opts c = (if c = 99 then Some True else if c = 104 \<or> c = 111 \<or> c = 118 then Some False else None)"

fun parse_args_from :: "libs \<Rightarrow> opt_event list \<Rightarrow> outcome cfg_op" where
  "parse_args_from L [] s = Ok (Returns 0) s"
| "parse_args_from L ((c, arg) # es) s =
     (if c = 99 then
        (case arg of
           None \<Rightarrow> Bad Null_deref s
         | Some a \<Rightarrow>
             (case alloc L (length a + 1) s of
                (ok, s) \<Rightarrow>
                  parse_args_from L es (set_cfg (\<lambda>cf. cf\<lparr>ccf_file := if ok then Some a else None\<rparr>) s)))
      else if c = 111 then parse_args_from L es (set_cfg (\<lambda>cf. cf\<lparr>ccf_oneshot := True\<rparr>) s)
      else if c = 118 then
        (if in_int32 (ccf_verbosity (st_cfg s) + 1)
         then parse_args_from L es (set_cfg (\<lambda>cf. cf\<lparr>ccf_verbosity := ccf_verbosity cf + 1\<rparr>) s)
         else Bad Signed_overflow s)
      else if c = 104 then Ok (Exits 0) s
      else Ok (Returns (- EINVAL)) s)"

definition lcap_parse_args :: "libs \<Rightarrow> bytes list \<Rightarrow> outcome cfg_op" where
  "lcap_parse_args L args s = parse_args_from L (fst (getopt_all lcapd_opts args)) s"

subsection \<open>Initialisation and release\<close>

definition config_set_defaults :: "lcap_cfg \<Rightarrow> lcap_cfg" where
  "config_set_defaults c = c\<lparr>ccf_rec_batch_count := DEFAULT_REC_BATCH, ccf_max_bkt := DEFAULT_MAX_BUCKETS\<rparr>"

definition lcap_cfg_init :: "libs \<Rightarrow> cfg_env \<Rightarrow> bytes list \<Rightarrow> outcome cfg_op" where
  "lcap_cfg_init L E args s =
     bindR (lcap_parse_args L args (s\<lparr>st_cfg := config_set_defaults cfg_zero\<rparr>)) (\<lambda>r s.
     case r of
       Exits n \<Rightarrow> Ok (Exits n) s
     | Returns rc \<Rightarrow>
         if rc \<noteq> 0 then Ok (Returns rc) s
         else bindR (lcap_parse_config_file L E s) (\<lambda>rc s. Ok (Returns rc) s))"

text \<open>The loop that frees the MDT names reads an entry before it tests the index.\<close>

fun release_mdts :: "bytes option list \<Rightarrow> unit cfg_op" where
  "release_mdts [] s = Bad Out_of_bounds s"
| "release_mdts (None # ms) s = Ok () s"
| "release_mdts (Some m # ms) s = release_mdts ms s"

definition lcap_cfg_release :: "int cfg_op" where
  "lcap_cfg_release s =
     bindR (release_mdts (ccf_mdt (st_cfg s)) s) (\<lambda>_ s. Ok 0 (s\<lparr>st_cfg := cfg_zero\<rparr>))"

end
