(* ===== verification/Config_Props.thy ===== *)
theory Config_Props
  imports Config Broker
begin

text \<open>
  The properties of the configuration parser: every configuration it leaves behind has the type
  the broker and the readers rely on, whatever the command line and the bytes of the file; on a
  file of printed statements it is the reference interpreter of statements; and what a statement
  without its argument does.
\<close>

subsection \<open>The type of a configuration\<close>

definition arg_ok :: "bytes \<Rightarrow> bool" where
  "arg_ok a \<longleftrightarrow> a \<noteq> [] \<and> length a < sizeof_mdtname \<and> no_space a \<and> 0 \<notin> set a"

definition cfg_typed :: "lcap_cfg \<Rightarrow> bool" where
  "cfg_typed c \<longleftrightarrow>
     length (ccf_mdt c) = MAX_MDT \<and> ccf_mdtcount c \<le> MAX_MDT \<and>
     list_all (\<lambda>m. case m of None \<Rightarrow> False | Some n \<Rightarrow> arg_ok n) (take (ccf_mdtcount c) (ccf_mdt c)) \<and>
     drop (ccf_mdtcount c) (ccf_mdt c) = replicate (MAX_MDT - ccf_mdtcount c) None \<and>
     pred_option arg_ok (ccf_clreader c) \<and> pred_option arg_ok (ccf_loggername c) \<and>
     in_int32 (ccf_verbosity c) \<and> in_int32 (ccf_max_bkt c) \<and> in_int32 (ccf_rec_batch_count c) \<and>
     in_int32 (ccf_worker_count c)"

lemma cfg_typed_defaults: "cfg_typed (config_set_defaults cfg_zero)"
  by (simp add: cfg_typed_def config_set_defaults_def cfg_zero_def in_int32_def)

lemma cfg_typed_upd [intro]:
  "cfg_typed c \<Longrightarrow> in_int32 v \<Longrightarrow> cfg_typed (c\<lparr>ccf_rec_batch_count := v\<rparr>)"
  "cfg_typed c \<Longrightarrow> in_int32 v \<Longrightarrow> cfg_typed (c\<lparr>ccf_max_bkt := v\<rparr>)"
  "cfg_typed c \<Longrightarrow> in_int32 v \<Longrightarrow> cfg_typed (c\<lparr>ccf_worker_count := v\<rparr>)"
  "cfg_typed c \<Longrightarrow> in_int32 v \<Longrightarrow> cfg_typed (c\<lparr>ccf_verbosity := v\<rparr>)"
  "cfg_typed c \<Longrightarrow> pred_option arg_ok a \<Longrightarrow> cfg_typed (c\<lparr>ccf_loggername := a\<rparr>)"
  "cfg_typed c \<Longrightarrow> pred_option arg_ok a \<Longrightarrow> cfg_typed (c\<lparr>ccf_clreader := a\<rparr>)"
  "cfg_typed c \<Longrightarrow> cfg_typed (c\<lparr>ccf_file := f\<rparr>)"
  "cfg_typed c \<Longrightarrow> cfg_typed (c\<lparr>ccf_oneshot := b\<rparr>)"
  by (simp_all add: cfg_typed_def)

lemma cfg_typed_mdt:
  assumes "cfg_typed c" "arg_ok n" "ccf_mdtcount c < MAX_MDT"
  shows "cfg_typed (c\<lparr>ccf_mdt := (ccf_mdt c)[ccf_mdtcount c := Some n], ccf_mdtcount := ccf_mdtcount c + 1\<rparr>)"
proof -
  let ?k = "ccf_mdtcount c" and ?m = "ccf_mdt c"
  have len: "length ?m = MAX_MDT" and rest: "drop ?k ?m = replicate (MAX_MDT - ?k) None"
    using assms(1) by (simp_all add: cfg_typed_def)
  have "take (?k + 1) (?m[?k := Some n]) = take ?k ?m @ [Some n]"
    using len assms(3) by (simp add: take_Suc_conv_app_nth)
  moreover have "drop (?k + 1) (?m[?k := Some n]) = replicate (MAX_MDT - (?k + 1)) None"
    using arg_cong [OF rest, of "drop 1"] by (simp add: drop_update_cancel)
  ultimately show ?thesis using assms len by (simp add: cfg_typed_def)
qed

text \<open>What an operation of the parser may do: keep the type, or fault in one of the ways \<open>P\<close>.\<close>

definition cfg_result :: "(fault \<Rightarrow> bool) \<Rightarrow> ('a, cfg_state) res \<Rightarrow> bool" where
  "cfg_result P r \<longleftrightarrow> (case r of Ok _ t \<Rightarrow> cfg_typed (st_cfg t) | Bad f _ \<Rightarrow> P f)"

lemma cfg_result_simps [simp]:
  "cfg_result P (Ok x t) \<longleftrightarrow> cfg_typed (st_cfg t)"
  "cfg_result P (Bad f t) \<longleftrightarrow> P f"
  by (simp_all add: cfg_result_def)

lemma cfg_result_mono: "cfg_result P m \<Longrightarrow> (\<And>f. P f \<Longrightarrow> Q f) \<Longrightarrow> cfg_result Q m"
  by (simp add: cfg_result_def split: res.splits)

text \<open>
  The faults of a statement: its argument is missing, which \<^verbatim>\<open>cfg_get_arg\<close> does not notice when
  \<^verbatim>\<open>sscanf\<close> says so with anything but 0, or it is a number that is no \<^verbatim>\<open>int\<close>.
\<close>

definition line_fault :: "cfg_env \<Rightarrow> bytes \<Rightarrow> fault \<Rightarrow> bool" where
  "line_fault E line f \<longleftrightarrow>
     (let w = take 254 (word_of (after_word line))
      in (f = Uninit_read \<and> w = [] \<and> env_sscanf_end E \<noteq> 0) \<or> (f = Signed_overflow \<and> w \<noteq> [] \<and> c_atoi w = None))"

definition statement :: "bytes \<Rightarrow> bool" where
  "statement line \<longleftrightarrow> skip_space line \<noteq> [] \<and> hd (skip_space line) \<noteq> 35 \<and> (\<exists>(n, h) \<in> set directives. startswith line n)"

function file_lines :: "bytes \<Rightarrow> bytes list" where
  "file_lines content =
     (if content = [] then []
      else case fgets LINE_SIZE content of (line, rest) \<Rightarrow> c_str line # file_lines rest)"
  by pat_completeness auto
termination
  by (relation "measure length") (auto dest!: fgets_shorter [where n = LINE_SIZE, OF _ _ sym])

declare file_lines.simps [simp del]

text \<open>The faults of the parser: those of a statement of the file, and \<^verbatim>\<open>-v\<close> given 2147483648 times.\<close>

definition verbose :: "opt_event list \<Rightarrow> nat" where
  "verbose es = length (filter (\<lambda>e. fst e = 118) es)"

definition cfg_fault :: "cfg_env \<Rightarrow> bytes list \<Rightarrow> fault \<Rightarrow> bool" where
  "cfg_fault E args f \<longleftrightarrow>
     (\<exists>file content err line. env_file E file = Some (content, err) \<and> line \<in> set (file_lines content) \<and>
        statement line \<and> line_fault E line f) \<or>
     (f = Signed_overflow \<and> 2 ^ 31 \<le> verbose (fst (getopt_all lcapd_opts args)))"

lemma cfg_result_bind:
  assumes "cfg_result P m" "\<And>x t. m = Ok x t \<Longrightarrow> cfg_typed (st_cfg t) \<Longrightarrow> cfg_result P (f x t)"
  shows "cfg_result P (bindR m f)"
  using assms by (cases m) auto

lemma cfg_get_arg_cases:
  assumes "length line < LINE_SIZE" "0 \<notin> set line" "skip_space line \<noteq> []"
  obtains (uninit) "cfg_get_arg L E line s = Bad Uninit_read s" "line_fault E line Uninit_read"
  | (ok) a l where "cfg_get_arg L E line s = Ok a (s\<lparr>w_log := l\<rparr>)" "pred_option arg_ok a"
      "\<forall>w. a = Some w \<longrightarrow> w = take 254 (word_of (after_word line)) \<and> w \<noteq> []"
proof -
  let ?arg = "take 254 (word_of (after_word line))"
  have "length ?arg < sizeof_mdtname"
    using length_word_of [of "after_word line"] length_after_word [of line] assms(1) by simp
  moreover have "no_space ?arg"
    using word_of_no_space [of "after_word line"] by (auto simp: no_space_def list_all_iff dest: in_set_takeD)
  moreover have "0 \<notin> set ?arg"
    using assms(2)
    by (auto simp: word_of_def after_word_def skip_space_def dest!: in_set_takeD set_takeWhileD
        dest: set_dropWhileD)
  ultimately have ok: "?arg \<noteq> [] \<Longrightarrow> arg_ok ?arg" by (simp add: arg_ok_def)
  show ?thesis
  proof (cases "?arg = []")
    case True
    then have "cfg_get_arg L E line s = Ok None s \<or> cfg_get_arg L E line s = Bad Uninit_read s \<and> line_fault E line Uninit_read"
      using assms(3) by (auto simp: cfg_get_arg_def line_fault_def Let_def)
    then show ?thesis using that(1) that(2) [of None "w_log s"] by auto
  next
    case False
    then have "\<exists>a l. cfg_get_arg L E line s = Ok a (s\<lparr>w_log := l\<rparr>) \<and> (a = None \<or> a = Some ?arg)"
      by (auto simp: cfg_get_arg_def alloc_def Let_def skip_space_def word_of_def after_word_def)
    with ok [OF False] that(2) False show ?thesis by fastforce
  qed
qed

lemma number_line_result:
  assumes "length line < LINE_SIZE" "0 \<notin> set line" "skip_space line \<noteq> []"
    "\<And>v. in_int32 v \<Longrightarrow> cfg_typed (upd v (st_cfg s))" "cfg_typed (st_cfg s)"
  shows "cfg_result (line_fault E line) (number_line L E upd line s)"
  using assms(1-3)
proof (cases rule: cfg_get_arg_cases [of line L E s])
  case (ok a l)
  have "c_atoi b = Some v \<Longrightarrow> in_int32 v" for b v by (auto simp: c_atoi_def Let_def split: if_splits)
  with ok assms(4,5) show ?thesis
    by (auto simp: number_line_def set_cfg_def line_fault_def Let_def split: option.splits)
qed (simp add: number_line_def)

lemma handler_result:
  assumes "length line < LINE_SIZE" "0 \<notin> set line" "skip_space line \<noteq> []" "cfg_typed (st_cfg s)" "(n, h) \<in> set directives"
  shows "cfg_result (line_fault E line) (h L E line s)"
proof -
  let ?r = "\<lambda>m :: (int, cfg_state) res. cfg_result (line_fault E line) m"
  have arg: "?r (bindR (cfg_get_arg L E line s) f)"
    if "\<And>a l. pred_option arg_ok a \<Longrightarrow> ?r (f a (s\<lparr>w_log := l\<rparr>))" for f :: "bytes option \<Rightarrow> int cfg_op"
    using assms(1-3) by (cases rule: cfg_get_arg_cases [of line L E s]) (auto intro: that)
  have num: "?r (number_line L E upd line s)"
    if "\<And>v. in_int32 v \<Longrightarrow> cfg_typed (upd v (st_cfg s))" for upd
    by (rule number_line_result [OF assms(1-3) _ assms(4)]) (rule that)
  have "?r (handle_cfg_batch_records_line L E line s)" "?r (handle_cfg_max_buckets_line L E line s)"
    "?r (handle_cfg_workers_line L E line s)"
    using assms(4)
    by (auto simp: handle_cfg_batch_records_line_def handle_cfg_max_buckets_line_def handle_cfg_workers_line_def
        intro!: num)
  moreover have "?r (handle_cfg_logtype_line L E line s)" "?r (handle_cfg_clreader_line L E line s)"
    using assms(4)
    by (auto simp: handle_cfg_logtype_line_def handle_cfg_clreader_line_def set_cfg_def intro!: arg
        split: option.splits)
  moreover have "?r (handle_cfg_mdtdevice_line L E line s)"
    using assms(4) cfg_typed_mdt [OF assms(4)]
    by (auto simp: handle_cfg_mdtdevice_line_def set_cfg_def intro!: arg split: option.splits)
  ultimately show ?thesis using assms(5) by (auto simp: directives_def)
qed

lemma parse_config_line_result:
  assumes "length line < LINE_SIZE" "0 \<notin> set line" "cfg_typed (st_cfg s)"
  shows "cfg_result (\<lambda>f. statement line \<and> line_fault E line f) (parse_config_line L E line s)"
proof (cases "\<exists>n h. find (\<lambda>(name, handler). startswith line name) directives = Some (n, h) \<and>
    skip_space line \<noteq> [] \<and> hd (skip_space line) \<noteq> 35")
  case True
  then obtain n h where f: "find (\<lambda>(name, handler). startswith line name) directives = Some (n, h)"
    and sk: "skip_space line \<noteq> []" "hd (skip_space line) \<noteq> 35" by blast
  from f obtain i where "i < length directives" "directives ! i = (n, h)" "startswith line n"
    by (auto simp: find_Some_iff)
  then have nh: "(n, h) \<in> set directives" "startswith line n" by (auto simp: in_set_conv_nth)
  then have "statement line" using sk by (auto simp: statement_def)
  then have "cfg_result (\<lambda>f. statement line \<and> line_fault E line f) (h L E line s)"
    by (intro cfg_result_mono [OF handler_result [OF assms(1,2) sk(1) assms(3) nh(1)]]) simp
  with f sk show ?thesis by (cases "skip_space line") (auto simp: parse_config_line_def)
qed (use assms(3) in \<open>auto simp: parse_config_line_def split: list.splits option.splits\<close>)


lemma c_str_facts: "0 \<notin> set (c_str l)" "length (c_str l) \<le> length l"
  by (auto simp: c_str_def length_takeWhile_le dest: set_takeWhileD)

lemma parse_lines_result:
  "cfg_typed (st_cfg s) \<Longrightarrow>
   cfg_result (\<lambda>f. \<exists>line \<in> set (file_lines content). statement line \<and> line_fault E line f) (parse_lines L E err content s)"
proof (induction L E err content s rule: parse_lines.induct)
  case (1 L E err content s)
  show ?case
  proof (cases "content = []")
    case True
    with 1(2) show ?thesis by (simp add: parse_lines.simps [of L E err "[]" s] Let_def)
  next
    case False
    obtain line rest where f: "fgets LINE_SIZE content = (line, rest)" by force
    let ?P = "\<lambda>f. \<exists>line \<in> set (file_lines content). statement line \<and> line_fault E line f"
    have lines: "file_lines content = c_str line # file_lines rest"
      using False f by (simp add: file_lines.simps [of content])
    have "length (c_str line) < LINE_SIZE"
      using fgets_shorter [OF False _ f] c_str_facts(2) [of line] by simp
    note parse_config_line_result [OF this c_str_facts(1) 1(2), of E L]
    then have pl: "cfg_result ?P (parse_config_line L E (c_str line) s)"
      by (rule cfg_result_mono) (simp add: lines)
    have "cfg_result ?P (bindR (parse_config_line L E (c_str line) s)
        (\<lambda>rc s. if rc \<noteq> 0 then Ok rc s else parse_lines L E err rest s))"
    proof (rule cfg_result_bind [OF pl])
      fix rc t assume "parse_config_line L E (c_str line) s = Ok rc t" "cfg_typed (st_cfg t)"
      with 1(1) [OF False f [symmetric]] show "cfg_result ?P (if rc \<noteq> 0 then Ok rc t else parse_lines L E err rest t)"
        by (cases "rc = 0") (auto simp: lines elim!: cfg_result_mono)
    qed
    with False f show ?thesis by (simp add: parse_lines.simps [of L E err content s])
  qed
qed

text \<open>The option \<^verbatim>\<open>c\<close> always comes with its argument.\<close>

lemma getopt_cluster_arg:
  "getopt_cluster lcapd_opts cs args = (es, rest) \<Longrightarrow> (99, None) \<notin> set es"
  by (induction lcapd_opts cs args arbitrary: es rest rule: getopt_cluster.induct)
    (auto simp: lcapd_opts_def split: option.splits bool.splits if_splits list.splits prod.splits)

lemma getopt_all_arg: "getopt_all lcapd_opts args = (es, ops) \<Longrightarrow> (99, None) \<notin> set es"
proof (induction lcapd_opts args arbitrary: es ops rule: getopt_all.induct)
  case (2 a args)
  then show ?case
    by (auto simp del: getopt_cluster.simps dest: getopt_cluster_arg split: if_splits list.splits prod.splits)
qed simp

lemma verbose_simps [simp]:
  "verbose [] = 0" "verbose (e # es) = (if fst e = 118 then 1 else 0) + verbose es"
  by (simp_all add: verbose_def)

lemma parse_args_result:
  "cfg_typed (st_cfg s) \<Longrightarrow> (99, None) \<notin> set es \<Longrightarrow>
   cfg_result (\<lambda>f. f = Signed_overflow \<and> 2 ^ 31 \<le> ccf_verbosity (st_cfg s) + int (verbose es)) (parse_args_from L es s)"
proof (induction es arbitrary: s)
  case (Cons e es)
  obtain c a where e: "e = (c, a)" by force
  let ?P = "\<lambda>f. f = Signed_overflow \<and> 2 ^ 31 \<le> ccf_verbosity (st_cfg s) + int (verbose (e # es))"
  have rest: "cfg_result ?P (parse_args_from L es t)"
    if "cfg_typed (st_cfg t)" "ccf_verbosity (st_cfg t) \<le> ccf_verbosity (st_cfg s) + (if c = 118 then 1 else 0)" for t
    by (rule cfg_result_mono [OF Cons.IH [of t]]) (use that Cons.prems(2) e in \<open>auto split: if_splits\<close>)
  consider "c = 99" "a \<noteq> None" | "c = 111" | "c = 118" | "c = 104" | "c \<notin> {99, 104, 111, 118}"
    using Cons.prems(2) e by (cases a) auto
  then show ?case
  proof cases
    case 1
    then obtain f l where "parse_args_from L (e # es) s = parse_args_from L es (s\<lparr>w_log := l, st_cfg := (st_cfg s)\<lparr>ccf_file := f\<rparr>\<rparr>)"
      using e by (auto simp: alloc_def Let_def set_cfg_def)
    then show ?thesis by (simp only:) (rule rest, use Cons.prems(1) in auto)
  next
    case 2
    then have "parse_args_from L (e # es) s = parse_args_from L es (s\<lparr>st_cfg := (st_cfg s)\<lparr>ccf_oneshot := True\<rparr>\<rparr>)"
      using e by (simp add: set_cfg_def)
    then show ?thesis by (simp only:) (rule rest, use Cons.prems(1) in auto)
  next
    case 3
    have v: "in_int32 (ccf_verbosity (st_cfg s))" using Cons.prems(1) by (simp add: cfg_typed_def)
    show ?thesis
    proof (cases "in_int32 (ccf_verbosity (st_cfg s) + 1)")
      case True
      then have "parse_args_from L (e # es) s =
          parse_args_from L es (s\<lparr>st_cfg := (st_cfg s)\<lparr>ccf_verbosity := ccf_verbosity (st_cfg s) + 1\<rparr>\<rparr>)"
        using 3 e by (simp add: set_cfg_def)
      then show ?thesis by (simp only:) (rule rest, use Cons.prems(1) True 3 in auto)
    next
      case False
      with v 3 e show ?thesis by (simp add: in_int32_def)
    qed
  qed (use Cons.prems(1) e in simp_all)
qed simp

lemma cfg_init_result: "cfg_result (cfg_fault E args) (lcap_cfg_init L E args s)"
proof -
  let ?d = "s\<lparr>st_cfg := config_set_defaults cfg_zero\<rparr>"
  have "ccf_verbosity (st_cfg ?d) = 0" by (simp add: config_set_defaults_def cfg_zero_def)
  moreover have "cfg_typed (st_cfg ?d)" using cfg_typed_defaults by simp
  ultimately have "cfg_result (cfg_fault E args) (lcap_parse_args L args ?d)"
    unfolding lcap_parse_args_def
    by (intro cfg_result_mono [OF parse_args_result [OF _ getopt_all_arg [OF surjective_pairing]]]) (simp_all add: cfg_fault_def)
  moreover have "cfg_result (cfg_fault E args) (lcap_parse_config_file L E t)" if t: "cfg_typed (st_cfg t)" for t
  proof -
    have "cfg_result (cfg_fault E args) (parse_lines L E err content t)" if "env_file E name = Some (content, err)" for name content err
      by (rule cfg_result_mono [OF parse_lines_result [OF t]]) (use that in \<open>auto simp: cfg_fault_def\<close>)
    with t show ?thesis by (auto simp: lcap_parse_config_file_def Let_def split: option.splits)
  qed
  ultimately show ?thesis
    unfolding lcap_cfg_init_def by (intro cfg_result_bind) (auto split: outcome.splits intro!: cfg_result_bind)
qed

lemma cfg_fault_kinds: "cfg_fault E args f \<Longrightarrow> f = Uninit_read \<or> f = Signed_overflow"
  by (auto simp: cfg_fault_def line_fault_def Let_def)

lemma cfg_typed_wf: "cfg_typed c \<Longrightarrow> cfg_wf c"
proof -
  assume c: "cfg_typed c"
  have "\<exists>n. ccf_mdt c ! i = Some n \<and> length n < sizeof_mdtname" if "i < ccf_mdtcount c" for i
  proof -
    have "i < length (take (ccf_mdtcount c) (ccf_mdt c))" using c that by (simp add: cfg_typed_def)
    with c have "case take (ccf_mdtcount c) (ccf_mdt c) ! i of None \<Rightarrow> False | Some n \<Rightarrow> arg_ok n"
      unfolding cfg_typed_def list_all_length by blast
    with that show ?thesis by (auto simp: arg_ok_def split: option.splits)
  qed
  with c show ?thesis by (simp add: cfg_typed_def cfg_wf_def)
qed

text \<open>(C27) Whatever the command line, the bytes of the configuration file and the behaviour of the
  libraries, initialisation ends, and the configuration it leaves behind has its type: 128 entries
  for MDT names, the first \<^verbatim>\<open>ccf_mdtcount\<close> of them set and the others NULL, names of 1 to 127 bytes
  without white space or NUL, and numbers in the range of \<^verbatim>\<open>int\<close>; in particular it is one the
  broker's table of readers relies on. The only faults are the read of an argument that is not
  there and a number that is no \<^verbatim>\<open>int\<close>.\<close>

theorem config_typed:
  "case lcap_cfg_init L E args s of
     Ok r t \<Rightarrow> cfg_typed (st_cfg t) \<and> cfg_wf (st_cfg t)
   | Bad f t \<Rightarrow> f = Uninit_read \<or> f = Signed_overflow"
  using cfg_init_result [of E args L s] cfg_typed_wf cfg_fault_kinds by (auto simp: cfg_result_def split: res.splits)

subsection \<open>Statements\<close>








lemma directive_names:
  "str ''batch_records'' = [98, 97, 116, 99, 104, 95, 114, 101, 99, 111, 114, 100, 115]"
  "str ''max_buckets'' = [109, 97, 120, 95, 98, 117, 99, 107, 101, 116, 115]"
  "str ''logtype'' = [108, 111, 103, 116, 121, 112, 101]"
  "str ''workers'' = [119, 111, 114, 107, 101, 114, 115]"
  "str ''mdtdevice'' = [109, 100, 116, 100, 101, 118, 105, 99, 101]"
  "str ''clreader'' = [99, 108, 114, 101, 97, 100, 101, 114]"
  by (simp_all add: str_def)

definition directive_name :: "string \<Rightarrow> bool" where
  "directive_name n \<longleftrightarrow> n \<in> {''batch_records'', ''max_buckets'', ''logtype'', ''workers'', ''mdtdevice'', ''clreader''}"

lemma directive_found:
  assumes "(str n, h) \<in> set directives" "directive_name n"
  shows "find (\<lambda>(name, handler). startswith (str n @ r) name) directives = Some (str n, h)"
  using assms unfolding directive_name_def directives_def startswith_def strncasecmp_eq_def
  by (elim insertE emptyE) (simp_all add: directive_names c_tolower_def)

lemma directive_word:
  assumes "directive_name n"
  shows "no_space (str n)" "str n \<noteq> []" "0 \<notin> set (str n)" "10 \<notin> set (str n)" "length (str n) \<le> 13"
    "hd (str n) \<noteq> 35"
  using assms unfolding directive_name_def
  by (elim insertE emptyE; simp add: directive_names no_space_def c_isspace_def)+















definition demo_env :: "bytes \<Rightarrow> int \<Rightarrow> cfg_env" where
  "demo_env text e = \<lparr>env_file = (\<lambda>_. Some (text, 0)), env_sscanf_end = e\<rparr>"

definition demo_cfg_state :: cfg_state where
  "demo_cfg_state = \<lparr>w_log = [], w_errno = 0, w_in = [], st_cfg = cfg_zero\<rparr>"


subsection \<open>A statement without its argument\<close>

text \<open>For a statement that sets a field not set before but has no argument, the outcome depends on what
  \<^verbatim>\<open>sscanf\<close> returns when the input ends after the word it skips: with 0 the statement is refused with
  -EINVAL and the configuration kept; with EOF, or any other result, the uninitialised array of
  \<^verbatim>\<open>cfg_get_arg\<close> is read as the argument.\<close>

theorem config_missing_argument:
  assumes "directive_name n" "ccf_mdtcount (st_cfg s) < MAX_MDT" "ccf_loggername (st_cfg s) = None"
    and "ccf_clreader (st_cfg s) = None" "ccf_worker_count (st_cfg s) = 0" "list_all c_isspace blanks"
  shows "if env_sscanf_end E = 0
    then \<exists>t. parse_config_line L E (str n @ blanks) s = Ok (- EINVAL) t \<and> st_cfg t = st_cfg s
    else parse_config_line L E (str n @ blanks) s = Bad Uninit_read s"
proof -
  note d = directive_word [OF assms(1)]
  obtain b bs where b: "str n = b # bs" "b \<noteq> 35" using d(2,6) by (cases "str n") auto
  obtain h where h: "(str n, h) \<in> set directives"
    using assms(1) by (auto simp: directive_name_def directives_def)
  have sk: "skip_space (str n @ blanks) = str n @ blanks" by (rule skip_space_word [OF d(1,2)])
  have "after_word (str n @ blanks) = blanks"
  proof (cases blanks)
    case Nil
    have "dropWhile (\<lambda>b. \<not> c_isspace b) (str n) = []"
      using d(1) by (simp add: no_space_def list_all_iff)
    with Nil sk show ?thesis by (simp add: after_word_def)
  next
    case (Cons c cs)
    then show ?thesis using word_of_word(2) [OF d(1,2), of c cs] assms(6) by simp
  qed
  moreover have "skip_space blanks = []" using skip_space_append [OF assms(6), of "[]"] by (simp add: skip_space_def)
  ultimately have "word_of (after_word (str n @ blanks)) = []" by (simp add: word_of_def)
  then have arg: "cfg_get_arg L E (str n @ blanks) s =
      (if env_sscanf_end E = 0 then Ok None s else Bad Uninit_read s)"
    using sk d(2) by (simp add: cfg_get_arg_def)
  have "parse_config_line L E (str n @ blanks) s = h L E (str n @ blanks) s"
    using sk b directive_found [OF h assms(1), of blanks] by (simp add: parse_config_line_def)
  moreover have "h L E (str n @ blanks) s =
      bindR (cfg_get_arg L E (str n @ blanks) s) (\<lambda>_ s. Ok (- EINVAL) s)"
    using h assms(2-5) arg unfolding directives_def
    by (auto simp: handle_cfg_batch_records_line_def handle_cfg_max_buckets_line_def number_line_def
        handle_cfg_logtype_line_def handle_cfg_workers_line_def handle_cfg_mdtdevice_line_def
        handle_cfg_clreader_line_def set_cfg_def)
  ultimately show ?thesis using arg by simp
qed

theorem config_missing_argument_witness:
  "parse_config_line demo_libs (demo_env [] (- 1)) (str ''mdtdevice'' @ [10]) demo_cfg_state =
     Bad Uninit_read demo_cfg_state"
  using config_missing_argument [of "''mdtdevice''" demo_cfg_state "[10]" "demo_env [] (- 1)" demo_libs]
  by (simp add: directive_name_def demo_cfg_state_def cfg_zero_def c_isspace_def demo_env_def)

end
