(* ===== verification/Log.thy ===== *)
theory Log
  imports Strings
begin

text \<open>
  \<^verbatim>\<open>src/common/lcap_log.c\<close> and \<^verbatim>\<open>src/include/lcap_log.h\<close>: the level that is in force, the two
  logging facilities and the dispatch to the one selected. The lines written to the standard
  error or handed to syslog are the events of the state, latest first. The macros \<^verbatim>\<open>lcap_debug\<close>,
  \<^verbatim>\<open>lcap_verb\<close>, \<^verbatim>\<open>lcap_info\<close> and \<^verbatim>\<open>lcap_error\<close> are \<open>lcap_log\<close> at their level; the text
  \<^verbatim>\<open>vasprintf\<close> makes of its arguments is a parameter, \<open>None\<close> when it fails.
\<close>

subsection \<open>Levels\<close>

datatype lcap_loglevel_t = LCAPLOG_DBG | LCAPLOG_VRB | LCAPLOG_NFO | LCAPLOG_ERR | LCAPLOG_OFF

primrec level_code :: "lcap_loglevel_t \<Rightarrow> nat" where
  "level_code LCAPLOG_DBG = 1"
| "level_code LCAPLOG_VRB = 2"
| "level_code LCAPLOG_NFO = 3"
| "level_code LCAPLOG_ERR = 4"
| "level_code LCAPLOG_OFF = 5"

text \<open>The order of the enumeration.\<close>

instantiation lcap_loglevel_t :: linorder
begin

definition less_eq_lcap_loglevel_t :: "lcap_loglevel_t \<Rightarrow> lcap_loglevel_t \<Rightarrow> bool" where
  "a \<le> b \<longleftrightarrow> level_code a \<le> level_code b"

definition less_lcap_loglevel_t :: "lcap_loglevel_t \<Rightarrow> lcap_loglevel_t \<Rightarrow> bool" where
  "a < b \<longleftrightarrow> level_code a < level_code b"

instance
proof
  fix x y :: lcap_loglevel_t
  assume "x \<le> y" "y \<le> x"
  then show "x = y" by (cases x; cases y) (simp_all add: less_eq_lcap_loglevel_t_def)
qed (auto simp: less_eq_lcap_loglevel_t_def less_lcap_loglevel_t_def)

end

definition loglevel2str :: "lcap_loglevel_t \<Rightarrow> bytes" where
  "loglevel2str l =
     (case l of
        LCAPLOG_DBG \<Rightarrow> str ''DEBUG''
      | LCAPLOG_VRB \<Rightarrow> str ''VERBOSE''
      | LCAPLOG_NFO \<Rightarrow> str ''INFO''
      | LCAPLOG_ERR \<Rightarrow> str ''ERROR''
      | LCAPLOG_OFF \<Rightarrow> str ''???'')"

subsection \<open>State\<close>

record lcap_log_rec =
  clr_time :: timespec
  clr_level :: lcap_loglevel_t
  clr_file :: bytes
  clr_line :: nat
  clr_func :: bytes
  clr_pid :: nat
  clr_tid :: nat
  clr_msg :: bytes

datatype log_facility = StderrLogger | SyslogLogger

datatype log_event =
    To_stderr bytes | Flush_stderr
  | Open_syslog bytes nat nat \<comment> \<open>\<^verbatim>\<open>openlog\<close>: identity, options, facility\<close>
  | To_syslog nat bytes \<comment> \<open>\<^verbatim>\<open>syslog\<close>: priority and text\<close>
  | Close_syslog

text \<open>
  \<^verbatim>\<open>CurrentLogLevel\<close> is an integer because it is 0, which is no level, until it is first set.
  The process, thread and time of day are those of the caller.
\<close>

record log_env =
  CurrentLogLevel :: nat
  CurrentLogger :: "log_facility option"
  lg_out :: "log_event list"
  lg_pid :: nat
  lg_tid :: nat
  lg_time :: timespec

subsection \<open>The standard error\<close>

definition emit :: "log_event \<Rightarrow> log_env \<Rightarrow> log_env" where
  "emit e s = s\<lparr>lg_out := e # lg_out s\<rparr>"

text \<open>The format of both facilities, \<^verbatim>\<open>"lcap[%u/%u] %s %s(): %s\n"\<close>.\<close>

definition log_text :: "lcap_log_rec \<Rightarrow> bytes" where
  "log_text r = str ''lcap['' @ show_nat (clr_pid r mod 2 ^ 32) @ str ''/'' @ show_nat (clr_tid r mod 2 ^ 32) @
     str ''] '' @ loglevel2str (clr_level r) @ str '' '' @ clr_func r @ str ''(): '' @ clr_msg r @ [10]"

definition stderr_open :: "log_env \<Rightarrow> int \<times> log_env" where
  "stderr_open s = (0, s)"

definition stderr_log :: "lcap_log_rec \<Rightarrow> log_env \<Rightarrow> log_env" where
  "stderr_log r s = emit (To_stderr (log_text r)) s"

definition stderr_close :: "log_env \<Rightarrow> int \<times> log_env" where
  "stderr_close s = (0, emit Flush_stderr s)"

subsection \<open>Syslog\<close>

abbreviation (input) LOG_ALERT :: nat where "LOG_ALERT \<equiv> 1"
abbreviation (input) LOG_ERR :: nat where "LOG_ERR \<equiv> 3"
abbreviation (input) LOG_NOTICE :: nat where "LOG_NOTICE \<equiv> 5"
abbreviation (input) LOG_DEBUG :: nat where "LOG_DEBUG \<equiv> 7"
abbreviation (input) LOG_PID :: nat where "LOG_PID \<equiv> 1"
abbreviation (input) LOG_USER :: nat where "LOG_USER \<equiv> 8"

definition lcaplevel2syslog :: "lcap_loglevel_t \<Rightarrow> nat" where
  "lcaplevel2syslog l =
     (case l of
        LCAPLOG_ERR \<Rightarrow> LOG_ERR
      | LCAPLOG_NFO \<Rightarrow> LOG_NOTICE
      | LCAPLOG_VRB \<Rightarrow> LOG_NOTICE
      | LCAPLOG_DBG \<Rightarrow> LOG_DEBUG
      | LCAPLOG_OFF \<Rightarrow> LOG_ALERT)"

definition syslog_open :: "log_env \<Rightarrow> int \<times> log_env" where
  "syslog_open s = (0, emit (Open_syslog (str ''LCAPD'') LOG_PID LOG_USER) s)"

definition syslog_log :: "lcap_log_rec \<Rightarrow> log_env \<Rightarrow> log_env" where
  "syslog_log r s = emit (To_syslog (lcaplevel2syslog (clr_level r)) (log_text r)) s"

definition syslog_close :: "log_env \<Rightarrow> int \<times> log_env" where
  "syslog_close s = (0, emit Close_syslog s)"

subsection \<open>The facilities\<close>

definition lf_name :: "log_facility \<Rightarrow> bytes" where
  "lf_name f = (case f of StderrLogger \<Rightarrow> str ''stderr'' | SyslogLogger \<Rightarrow> str ''syslog'')"

definition lfo_open :: "log_facility \<Rightarrow> log_env \<Rightarrow> int \<times> log_env" where
  "lfo_open f = (case f of StderrLogger \<Rightarrow> stderr_open | SyslogLogger \<Rightarrow> syslog_open)"

definition lfo_log :: "log_facility \<Rightarrow> lcap_log_rec \<Rightarrow> log_env \<Rightarrow> log_env" where
  "lfo_log f = (case f of StderrLogger \<Rightarrow> stderr_log | SyslogLogger \<Rightarrow> syslog_log)"

definition lfo_close :: "log_facility \<Rightarrow> log_env \<Rightarrow> int \<times> log_env" where
  "lfo_close f = (case f of StderrLogger \<Rightarrow> stderr_close | SyslogLogger \<Rightarrow> syslog_close)"

definition AvailableLoggers :: "log_facility list" where
  "AvailableLoggers = [StderrLogger, SyslogLogger]"

subsection \<open>The general interface\<close>

definition lcap_log_open :: "log_env \<Rightarrow> int \<times> log_env" where
  "lcap_log_open s = (case CurrentLogger s of None \<Rightarrow> (- ENODEV, s) | Some f \<Rightarrow> lfo_open f s)"

definition lcap_log_close :: "log_env \<Rightarrow> int \<times> log_env" where
  "lcap_log_close s = (case CurrentLogger s of None \<Rightarrow> (- ENODEV, s) | Some f \<Rightarrow> lfo_close f s)"

definition lcap_log_internal ::
    "lcap_loglevel_t \<Rightarrow> bytes \<Rightarrow> nat \<Rightarrow> bytes \<Rightarrow> bytes option \<Rightarrow> log_env \<Rightarrow> log_env" where
  "lcap_log_internal loglevel file line func msg s =
     (case CurrentLogger s of
        None \<Rightarrow> s
      | Some f \<Rightarrow>
          (case msg of
             None \<Rightarrow> s
           | Some m \<Rightarrow> lfo_log f \<lparr>clr_time = lg_time s, clr_level = loglevel, clr_file = file,
                 clr_line = line, clr_func = func, clr_pid = lg_pid s, clr_tid = lg_tid s, clr_msg = m\<rparr> s))"

definition lcap_log ::
    "lcap_loglevel_t \<Rightarrow> bytes \<Rightarrow> nat \<Rightarrow> bytes \<Rightarrow> bytes option \<Rightarrow> log_env \<Rightarrow> log_env" where
  "lcap_log lvl file line func msg s =
     (if level_code lvl \<ge> CurrentLogLevel s then lcap_log_internal lvl file line func msg s else s)"

definition lcap_set_loglevel :: "int \<Rightarrow> log_env \<Rightarrow> log_env" where
  "lcap_set_loglevel verbosity s =
     (if verbosity = 0 then s\<lparr>CurrentLogLevel := level_code LCAPLOG_ERR\<rparr>
      else if verbosity = 1 then s\<lparr>CurrentLogLevel := level_code LCAPLOG_NFO\<rparr>
      else if verbosity = 2 then s\<lparr>CurrentLogLevel := level_code LCAPLOG_VRB\<rparr>
      else s\<lparr>CurrentLogLevel := level_code LCAPLOG_DBG\<rparr>)"

definition lcap_get_loglevel :: "log_env \<Rightarrow> nat" where
  "lcap_get_loglevel s = CurrentLogLevel s"

fun set_logger_from :: "bytes \<Rightarrow> log_facility list \<Rightarrow> log_env \<Rightarrow> int \<times> log_env" where
  "set_logger_from name [] s = (- EINVAL, s)"
| "set_logger_from name (f # fs) s =
     (if strcasecmp_eq (lf_name f) name then (0, s\<lparr>CurrentLogger := Some f\<rparr>)
      else set_logger_from name fs s)"

definition lcap_set_logger :: "bytes option \<Rightarrow> log_env \<Rightarrow> int \<times> log_env" where
  "lcap_set_logger logger_name s =
     (let name = (case logger_name of None \<Rightarrow> lf_name (hd AvailableLoggers) | Some n \<Rightarrow> n)
      in set_logger_from name AvailableLoggers s)"

subsection \<open>Which messages are written\<close>

record log_call =
  lc_level :: lcap_loglevel_t
  lc_file :: bytes
  lc_line :: nat
  lc_func :: bytes
  lc_msg :: "bytes option"

definition do_log :: "log_call \<Rightarrow> log_env \<Rightarrow> log_env" where
  "do_log c = lcap_log (lc_level c) (lc_file c) (lc_line c) (lc_func c) (lc_msg c)"

text \<open>The reference: errors always, then one more level for each increase of the verbosity.\<close>

definition threshold :: "int \<Rightarrow> lcap_loglevel_t" where
  "threshold v = (if v = 0 then LCAPLOG_ERR else if v = 1 then LCAPLOG_NFO
     else if v = 2 then LCAPLOG_VRB else LCAPLOG_DBG)"

definition written :: "log_facility \<Rightarrow> log_env \<Rightarrow> log_call \<Rightarrow> log_event" where
  "written f s c =
     (let t = log_text \<lparr>clr_time = lg_time s, clr_level = lc_level c, clr_file = lc_file c,
                clr_line = lc_line c, clr_func = lc_func c, clr_pid = lg_pid s, clr_tid = lg_tid s,
                clr_msg = the (lc_msg c)\<rparr>
      in case f of StderrLogger \<Rightarrow> To_stderr t | SyslogLogger \<Rightarrow> To_syslog (lcaplevel2syslog (lc_level c)) t)"

lemma do_log_eq:
  assumes "CurrentLogger s = Some f" "CurrentLogLevel s = level_code (threshold v)"
  shows "do_log c s =
    (if threshold v \<le> lc_level c \<and> lc_msg c \<noteq> None then s\<lparr>lg_out := written f s c # lg_out s\<rparr> else s)"
  using assms
  by (cases f)
    (auto simp: do_log_def lcap_log_def lcap_log_internal_def less_eq_lcap_loglevel_t_def lfo_log_def
      stderr_log_def syslog_log_def written_def emit_def Let_def split: option.splits)

lemma fold_do_log:
  assumes "CurrentLogger s = Some f" "CurrentLogLevel s = level_code (threshold v)"
  shows "fold do_log cs s = s\<lparr>lg_out :=
    rev (map (written f s) (filter (\<lambda>c. threshold v \<le> lc_level c \<and> lc_msg c \<noteq> None) cs)) @ lg_out s\<rparr>"
  using assms
proof (induction cs arbitrary: s)
  case (Cons c cs)
  have "written f (s\<lparr>lg_out := o'\<rparr>) = written f s" for o' by (simp add: written_def fun_eq_iff)
  with Cons do_log_eq [OF Cons.prems, of c] show ?case by (auto simp del: fold_Cons simp: fold_simps)
qed simp

lemma set_logger_names:
  "lcap_set_logger n s =
    (case find (\<lambda>f. strcasecmp_eq (lf_name f) (case n of None \<Rightarrow> str ''stderr'' | Some n \<Rightarrow> n)) AvailableLoggers of
       None \<Rightarrow> (- EINVAL, s) | Some f \<Rightarrow> (0, s\<lparr>CurrentLogger := Some f\<rparr>))"
  by (auto simp: lcap_set_logger_def AvailableLoggers_def lf_name_def Let_def split: option.splits)

text \<open>(C28) After the verbosity and the logger have been set, any sequence of log calls writes exactly the
  lines of those calls whose level reaches the one the verbosity stands for, in the order of the
  calls, to the facility selected (the standard error by default, the name compared without regard
  to case) and, for syslog, with the priority of the level. A name that is no facility's is refused
  and selects none.\<close>

theorem logging_equivalent:
  "case lcap_set_logger n s of
     (rc, t) \<Rightarrow>
       if list_ex (\<lambda>f. strcasecmp_eq (lf_name f) (case n of None \<Rightarrow> str ''stderr'' | Some n \<Rightarrow> n)) AvailableLoggers
       then rc = 0 \<and> (\<exists>f. f \<in> set AvailableLoggers \<and>
         strcasecmp_eq (lf_name f) (case n of None \<Rightarrow> str ''stderr'' | Some n \<Rightarrow> n) \<and>
         lg_out (fold do_log cs (lcap_set_loglevel v t)) =
           rev (map (written f s) (filter (\<lambda>c. threshold v \<le> lc_level c \<and> lc_msg c \<noteq> None) cs)) @ lg_out s)
       else rc = - EINVAL \<and> t = s"
proof (cases "find (\<lambda>f. strcasecmp_eq (lf_name f) (case n of None \<Rightarrow> str ''stderr'' | Some n \<Rightarrow> n)) AvailableLoggers")
  case None
  then have "\<not> list_ex (\<lambda>f. strcasecmp_eq (lf_name f) (case n of None \<Rightarrow> str ''stderr'' | Some n \<Rightarrow> n)) AvailableLoggers"
    by (auto simp: find_None_iff list_ex_iff)
  with None show ?thesis by (simp add: set_logger_names)
next
  case (Some f)
  define t where "t = lcap_set_loglevel v (s\<lparr>CurrentLogger := Some f\<rparr>)"
  have "CurrentLogger t = Some f" "CurrentLogLevel t = level_code (threshold v)" "lg_out t = lg_out s"
    by (simp_all add: t_def lcap_set_loglevel_def threshold_def)
  moreover have "written f t = written f s" by (simp add: fun_eq_iff written_def t_def lcap_set_loglevel_def)
  moreover have "f \<in> set AvailableLoggers"
      "strcasecmp_eq (lf_name f) (case n of None \<Rightarrow> str ''stderr'' | Some n \<Rightarrow> n)"
    using Some by (auto simp: find_Some_iff)
  moreover from this have
      "list_ex (\<lambda>f. strcasecmp_eq (lf_name f) (case n of None \<Rightarrow> str ''stderr'' | Some n \<Rightarrow> n)) AvailableLoggers"
    by (auto simp: list_ex_iff)
  ultimately show ?thesis
    using Some fold_do_log [of t f v cs] by (auto simp: set_logger_names t_def [symmetric])
qed

end
