(* ===== verification/Lcapd.thy ===== *)
theory Lcapd
  imports Log Config Broker
begin

text \<open>
  \<^verbatim>\<open>src/lcapd/lcapd.c\<close>: the daemon's start (configuration, logging, the broker's socket, one thread
  per MDT), its serving loop, its end, and the thread that waits for signals.

  The daemon's state is the broker's context, the globals of the logger and the three signal
  flags. The structure \<^verbatim>\<open>config\<close> of \<^verbatim>\<open>main\<close> is the context's configuration. Messages that are only
  logged or printed are left out. Signals arrive as a list per turn of the waiting loop.
\<close>

subsection \<open>State\<close>

record lcapd_env =
  dm_ctx :: lcap_ctx
  dm_log :: log_env
  TerminateSig :: bool
  ReloadSig :: bool
  DumpStatsSig :: bool

type_synonym 'a ctx_op = "lcap_ctx \<Rightarrow> ('a, lcap_ctx) res"
type_synonym 'a lcapd_op = "lcapd_env \<Rightarrow> ('a, lcapd_env) res"

text \<open>Pauses, in milliseconds.\<close>

abbreviation (input) SLOW_JOINER_PAUSE :: nat where "SLOW_JOINER_PAUSE \<equiv> 200"
abbreviation (input) SIGSLEEP_DELAY :: nat where "SIGSLEEP_DELAY \<equiv> 1000"
abbreviation (input) sizeof_subtask_args :: nat where "sizeof_subtask_args \<equiv> 16"
abbreviation (input) sizeof_subtask_info :: nat where "sizeof_subtask_info \<equiv> 16"

text \<open>An operation on the broker's context, run on the daemon.\<close>

definition on_ctx :: "'a ctx_op \<Rightarrow> 'a lcapd_op" where
  "on_ctx f d =
     (case f (dm_ctx d) of
        Ok x c \<Rightarrow> Ok x (d\<lparr>dm_ctx := c\<rparr>)
      | Bad e c \<Rightarrow> Bad e (d\<lparr>dm_ctx := c\<rparr>))"

subsection \<open>Threads\<close>

definition lcap_subtask :: "libs \<Rightarrow> nat \<Rightarrow> (int + nat) ctx_op" where
  "lcap_subtask L idx ctx =
     (let e = lib_thread_attr L (w_log ctx);
          ctx = ctx\<lparr>w_log := Ev_thread_attr e # w_log ctx\<rparr>
      in if e \<noteq> 0 then Ok (Inl (- int e)) ctx
         else let e = lib_thread_attr L (w_log ctx);
                  ctx = ctx\<lparr>w_log := Ev_thread_attr e # w_log ctx\<rparr>
              in if e \<noteq> 0 then Ok (Inl (- int e)) ctx
                 else case alloc L sizeof_subtask_args ctx of
                        (ok, ctx) \<Rightarrow>
                          if \<not> ok then Ok (Inl (- ENOMEM)) ctx
                          else case lib_thread_create L (w_log ctx) of
                                 (e, thr) \<Rightarrow>
                                   Ok (if e \<noteq> 0 then Inl (- int e) else Inr thr)
                                     (ctx\<lparr>w_log := Ev_thread_create idx e # w_log ctx\<rparr>))"

fun readers_start_from :: "libs \<Rightarrow> nat list \<Rightarrow> int ctx_op" where
  "readers_start_from L [] ctx = Ok 0 ctx"
| "readers_start_from L (i # js) ctx =
     bindR (lcap_subtask L i ctx) (\<lambda>r ctx.
     case r of
       Inl rc \<Rightarrow> Ok rc ctx
     | Inr thr \<Rightarrow>
         (case cc_rdr_info ctx of
            None \<Rightarrow> Bad Null_deref ctx
          | Some infos \<Rightarrow>
              if i < length infos
              then readers_start_from L js
                     (ctx\<lparr>cc_rdr_info := Some (infos[i := \<lparr>si_thread = thr, si_running = True\<rparr>])\<rparr>)
              else Bad Out_of_bounds ctx))"

definition lcap_readers_start :: "libs \<Rightarrow> int ctx_op" where
  "lcap_readers_start L ctx =
     (let count = ccf_mdtcount (cc_config ctx)
      in case alloc L (count * sizeof_subtask_info) ctx of
           (ok, ctx) \<Rightarrow>
             if \<not> ok then Ok (- ENOMEM) (ctx\<lparr>cc_rdr_info := None\<rparr>)
             else readers_start_from L [0..<count]
                    (ctx\<lparr>cc_rdr_info := Some (replicate count \<lparr>si_thread = 0, si_running = False\<rparr>)\<rparr>))"

subsection \<open>The context\<close>

definition lcap_bind_server :: "libs \<Rightarrow> int ctx_op" where
  "lcap_bind_server L ctx =
     (let e = lib_ctx_new L (w_log ctx);
          ctx = ctx\<lparr>w_log := Ev_zmq_ctx (e = 0) # w_log ctx, cc_zctx := (e = 0)\<rparr>
      in if e \<noteq> 0 then Ok (- ENOMEM) ctx
         else let e = lib_socket L (w_log ctx);
                  ctx = ctx\<lparr>w_log := Ev_zmq_socket (e = 0) # w_log ctx, cc_sock := (e = 0)\<rparr>
              in if e \<noteq> 0 then Ok (- int e) ctx
                 else let e = lib_connect L (w_log ctx);
                          ctx = ctx\<lparr>w_log := Ev_zmq_connect e # w_log ctx\<rparr>
                      in Ok (- int e) ctx)"

definition lcap_ctx_init :: "libs \<Rightarrow> lcap_cfg \<Rightarrow> int lcapd_op" where
  "lcap_ctx_init L config d =
     (let d = d\<lparr>dm_ctx := (dm_ctx d)\<lparr>cc_config := config, cc_rdr_info := None, cc_zctx := False,
                 cc_sock := False, cc_rcid := replicate MAX_MDT None\<rparr>,
               dm_log := lcap_set_loglevel (ccf_verbosity config) (dm_log d)\<rparr>
      in case lcap_set_logger (ccf_loggername config) (dm_log d) of
           (rc, lg) \<Rightarrow>
             if rc \<noteq> 0 then Ok rc (d\<lparr>dm_log := lg\<rparr>)
             else bindR (on_ctx (lcap_bind_server L) (d\<lparr>dm_log := snd (lcap_log_open lg)\<rparr>)) (\<lambda>rc d.
                  if rc \<noteq> 0 then Ok rc d
                  else bindR (on_ctx (lcap_readers_start L) d) (\<lambda>rc d.
                       if rc \<noteq> 0 then Ok rc d
                       else Ok 0 (d\<lparr>dm_ctx := (dm_ctx d)\<lparr>w_log := Ev_sleep SLOW_JOINER_PAUSE # w_log (dm_ctx d)\<rparr>\<rparr>))))"

definition lcap_ctx_release :: "int lcapd_op" where
  "lcap_ctx_release d =
     (let c = dm_ctx d;
          c = (if cc_sock c then c\<lparr>w_log := Ev_zmq_close # w_log c\<rparr> else c);
          c = (if cc_zctx c then c\<lparr>w_log := Ev_zmq_term # w_log c\<rparr> else c)
      in Ok 0 (d\<lparr>dm_ctx := c, dm_log := snd (lcap_log_close (dm_log d))\<rparr>))"

subsection \<open>Serving\<close>

text \<open>At most \<open>k\<close> turns of the loop, \<open>No_return\<close> when it would go on; \<open>lib_pollin\<close> is whether
  \<^verbatim>\<open>revents\<close> has ZMQ_POLLIN after the poll.\<close>

fun lcapd_serve :: "nat \<Rightarrow> libs \<Rightarrow> int ctx_op" where
  "lcapd_serve 0 L ctx = Bad No_return ctx"
| "lcapd_serve (Suc k) L ctx =
     (let rc = lib_poll L (w_log ctx) (- 1);
          ctx = ctx\<lparr>w_log := Ev_poll (- 1) rc # w_log ctx\<rparr>
      in if rc < 0 then Ok rc ctx
         else bindR (if lib_pollin L (w_log ctx) then lcap_rpc_recv L LCAP_RECV_NONBLOCK (lcapd_process_request L) ctx
                     else Ok rc ctx) (\<lambda>rc ctx.
              if rc \<ge> 0 then lcapd_serve k L ctx else Ok rc ctx))"

subsection \<open>Signals\<close>

datatype signo = SIGHUP | SIGINT | SIGUSR1 | SIGTERM | Other_signal nat

primrec signal_number :: "signo \<Rightarrow> nat" where
  "signal_number SIGHUP = 1"
| "signal_number SIGINT = 2"
| "signal_number SIGUSR1 = 10"
| "signal_number SIGTERM = 15"
| "signal_number (Other_signal n) = n"

definition lcap_sigterm :: "lcapd_env \<Rightarrow> lcapd_env" where
  "lcap_sigterm d = d\<lparr>TerminateSig := True\<rparr>"

definition lcap_sigreload :: "lcapd_env \<Rightarrow> lcapd_env" where
  "lcap_sigreload d = d\<lparr>ReloadSig := True\<rparr>"

definition lcap_sigdumpstats :: "lcapd_env \<Rightarrow> lcapd_env" where
  "lcap_sigdumpstats d = d\<lparr>DumpStatsSig := True\<rparr>"

definition handlers :: "(signo \<times> (lcapd_env \<Rightarrow> lcapd_env)) list" where
  "handlers = [(SIGTERM, lcap_sigterm), (SIGINT, lcap_sigterm), (SIGHUP, lcap_sigreload),
     (SIGUSR1, lcap_sigdumpstats)]"

text \<open>A signal runs its handler; the others have their default action and are not delivered here.\<close>

definition deliver :: "signo \<Rightarrow> lcapd_env \<Rightarrow> lcapd_env" where
  "deliver sig d = (case map_of handlers sig of None \<Rightarrow> d | Some h \<Rightarrow> h d)"

text \<open>Readers are detached threads, for which \<^verbatim>\<open>pthread_join\<close> is undefined.\<close>

fun stop_readers :: "nat list \<Rightarrow> unit ctx_op" where
  "stop_readers [] ctx = Ok () ctx"
| "stop_readers (i # js) ctx =
     (case cc_rdr_info ctx of
        None \<Rightarrow> Bad Null_deref ctx
      | Some infos \<Rightarrow>
          if i < length infos
          then stop_readers js (ctx\<lparr>cc_rdr_info := Some (infos[i := (infos ! i)\<lparr>si_running := False\<rparr>])\<rparr>)
          else Bad Out_of_bounds ctx)"

fun join_readers :: "nat list \<Rightarrow> unit ctx_op" where
  "join_readers [] ctx = Ok () ctx"
| "join_readers (i # js) ctx = Bad Undefined_call ctx"

definition lcap_readers_terminate :: "int ctx_op" where
  "lcap_readers_terminate ctx =
     (let is = [0..<ccf_mdtcount (cc_config ctx)]
      in bindR (stop_readers is ctx) (\<lambda>_ ctx.
         bindR (join_readers is ctx) (\<lambda>_ ctx. Ok 0 ctx)))"

fun install_handlers :: "libs \<Rightarrow> signo list \<Rightarrow> lcapd_env \<Rightarrow> bool \<times> lcapd_env" where
  "install_handlers L [] d = (True, d)"
| "install_handlers L (sig # sigs) d =
     (let c = dm_ctx d; e = lib_sigaction L (w_log c) (signal_number sig);
          d = d\<lparr>dm_ctx := c\<lparr>w_log := Ev_sigaction (signal_number sig) e # w_log c\<rparr>\<rparr>
      in if e \<noteq> 0 then (False, d) else install_handlers L sigs d)"

definition pause :: "nat \<Rightarrow> lcapd_env \<Rightarrow> lcapd_env" where
  "pause ms d = d\<lparr>dm_ctx := (dm_ctx d)\<lparr>w_log := Ev_sleep ms # w_log (dm_ctx d)\<rparr>\<rparr>"

text \<open>The waiting loop: the signals that arrive before each turn, for as many turns as are given.\<close>

fun sig_loop :: "signo list list \<Rightarrow> outcome lcapd_op" where
  "sig_loop [] d = Bad No_return d"
| "sig_loop (sigs # turns) d =
     (let d = fold deliver sigs d
      in if TerminateSig d then bindR (on_ctx lcap_readers_terminate d) (\<lambda>_ d. Ok (Exits 1) d)
         else let d = (if ReloadSig d then d\<lparr>ReloadSig := False\<rparr>
                       else if DumpStatsSig d then d\<lparr>DumpStatsSig := False\<rparr> else d)
              in sig_loop turns (pause SIGSLEEP_DELAY d))"

definition setup_sighandlers :: "libs \<Rightarrow> signo list list \<Rightarrow> outcome lcapd_op" where
  "setup_sighandlers L turns d =
     (let d = d\<lparr>TerminateSig := False, ReloadSig := False, DumpStatsSig := False\<rparr>
      in case install_handlers L (map fst handlers) d of
           (ok, d) \<Rightarrow> if \<not> ok then Ok (Exits 1) d else sig_loop turns (pause 1000 d))"

text \<open>The thread of the signals has no argument number; it is told apart by one past the readers'.\<close>

definition setup_sigthread :: "libs \<Rightarrow> int lcapd_op" where
  "setup_sigthread L d =
     (let c = dm_ctx d; e = fst (lib_thread_create L (w_log c))
      in Ok (- int e) (d\<lparr>dm_ctx := c\<lparr>w_log := Ev_thread_create MAX_MDT e # w_log c\<rparr>\<rparr>))"

subsection \<open>The program\<close>

text \<open>Operations on a configuration, run on the daemon's.\<close>

definition on_cfg :: "'a cfg_op \<Rightarrow> 'a lcapd_op" where
  "on_cfg f d =
     (let c = dm_ctx d;
          back = (\<lambda>s. d\<lparr>dm_ctx := c\<lparr>w_log := w_log s, w_errno := w_errno s, w_in := w_in s, cc_config := st_cfg s\<rparr>\<rparr>)
      in case f \<lparr>w_log = w_log c, w_errno = w_errno c, w_in = w_in c, st_cfg = cc_config c\<rparr> of
           Ok x s \<Rightarrow> Ok x (back s) | Bad e s \<Rightarrow> Bad e (back s))"

definition lcapd_main :: "nat \<Rightarrow> libs \<Rightarrow> cfg_env \<Rightarrow> bytes list \<Rightarrow> outcome lcapd_op" where
  "lcapd_main k L E args d =
     (if args = [] then Ok (Returns 1) d
      else bindR (on_cfg (lcap_cfg_init L E args) d) (\<lambda>r d.
           case r of
             Exits n \<Rightarrow> Ok (Exits n) d
           | Returns rc \<Rightarrow>
               if rc \<noteq> 0 then Ok (Returns rc) d
               else bindR (setup_sigthread L d) (\<lambda>rc d.
                    if rc \<noteq> 0 then Ok (Returns rc) d
                    else bindR (lcap_ctx_init L (cc_config (dm_ctx d)) d) (\<lambda>rc d.
                         if rc \<noteq> 0 then Ok (Returns rc) d
                         else bindR (on_ctx (lcapd_serve k L) d) (\<lambda>rc d.
                              bindR (lcap_ctx_release (pause 1000 d)) (\<lambda>_ d.
                              bindR (on_cfg lcap_cfg_release d) (\<lambda>_ d. Ok (Returns rc) d)))))))"

end
