(* ===== verification/Lcapd_Props.thy ===== *)
theory Lcapd_Props
  imports Lcapd Config_Props
begin

text \<open>
  The properties of the daemon: what its initialisation establishes, which faults the whole program
  can end in and what causes each, and what signals do.
\<close>

subsection \<open>Starting the readers\<close>

text \<open>The readers started by a sequence of calls, in order.\<close>

definition started_readers :: "history \<Rightarrow> nat list" where
  "started_readers h = rev (concat (map (\<lambda>e. case e of
     Ev_thread_create i rc \<Rightarrow> if rc = 0 \<and> i < MAX_MDT then [i] else [] | _ \<Rightarrow> []) h))"

lemma started_readers_simps [simp]:
  "started_readers [] = []"
  "started_readers (Ev_thread_attr e # h) = started_readers h"
  "started_readers (Ev_alloc n b # h) = started_readers h"
  "started_readers (Ev_sleep n # h) = started_readers h"
  "started_readers (Ev_zmq_ctx b # h) = started_readers h"
  "started_readers (Ev_zmq_socket b # h) = started_readers h"
  "started_readers (Ev_zmq_connect e # h) = started_readers h"
  "started_readers (Ev_thread_create i rc # h) =
     started_readers h @ (if rc = 0 \<and> i < MAX_MDT then [i] else [])"
  by (simp_all add: started_readers_def)

text \<open>Starting a thread changes nothing but the log of calls.\<close>

lemma lcap_subtask_result:
  assumes "i < MAX_MDT"
  shows "\<exists>r l. lcap_subtask L i ctx = Ok r (ctx\<lparr>w_log := l\<rparr>) \<and>
    (case r of Inl rc \<Rightarrow> rc < 0 | Inr _ \<Rightarrow> started_readers l = started_readers (w_log ctx) @ [i])"
  using assms by (auto simp: lcap_subtask_def alloc_def Let_def split: prod.splits)

definition running_all :: "nat list \<Rightarrow> subtask_info list \<Rightarrow> bool" where
  "running_all js infos \<longleftrightarrow> list_all (\<lambda>i. i < length infos \<and> si_running (infos ! i)) js"

lemma readers_start_from_result:
  assumes "list_all (\<lambda>i. i < length infos \<and> i < MAX_MDT) js" "cc_rdr_info ctx = Some infos"
  shows "\<exists>rc l infos'. readers_start_from L js ctx = Ok rc (ctx\<lparr>w_log := l, cc_rdr_info := Some infos'\<rparr>) \<and>
    rc \<le> 0 \<and> length infos' = length infos \<and>
    (rc = 0 \<longrightarrow> started_readers l = started_readers (w_log ctx) @ js \<and> running_all js infos' \<and>
      (\<forall>i. running_all [i] infos \<longrightarrow> running_all [i] infos'))"
  using assms
proof (induction js arbitrary: ctx infos)
  case Nil
  then show ?case
    by (intro exI [of _ 0] exI [of _ "w_log ctx"] exI [of _ infos]) (simp add: running_all_def)
next
  case (Cons i js)
  obtain r l where r: "lcap_subtask L i ctx = Ok r (ctx\<lparr>w_log := l\<rparr>)"
      "case r of Inl rc \<Rightarrow> rc < 0 | Inr _ \<Rightarrow> started_readers l = started_readers (w_log ctx) @ [i]"
    using lcap_subtask_result [of i L ctx] Cons.prems(1) by auto
  show ?case
  proof (cases r)
    case (Inl rc)
    with r Cons.prems(2) show ?thesis
      by (intro exI [of _ rc] exI [of _ l] exI [of _ infos]) simp
  next
    case (Inr thr)
    let ?infos = "infos[i := \<lparr>si_thread = thr, si_running = True\<rparr>]"
    let ?c = "ctx\<lparr>w_log := l, cc_rdr_info := Some ?infos\<rparr>"
    have i: "running_all [i] ?infos" "\<And>j. running_all [j] infos \<Longrightarrow> running_all [j] ?infos"
      using Cons.prems(1) by (auto simp: running_all_def nth_list_update)
    have "list_all (\<lambda>j. j < length ?infos \<and> j < MAX_MDT) js" using Cons.prems(1) by simp
    from Cons.IH [OF this, of ?c] obtain rc l' infos' where
      *: "readers_start_from L js ?c = Ok rc (?c\<lparr>w_log := l', cc_rdr_info := Some infos'\<rparr>)" "rc \<le> 0"
        "length infos' = length ?infos"
        "rc = 0 \<longrightarrow> started_readers l' = started_readers l @ js \<and> running_all js infos' \<and>
          (\<forall>i. running_all [i] ?infos \<longrightarrow> running_all [i] infos')" by auto
    have "readers_start_from L (i # js) ctx = Ok rc (ctx\<lparr>w_log := l', cc_rdr_info := Some infos'\<rparr>)"
      using r(1) Inr Cons.prems * by simp
    moreover have "running_all (i # js) infos' \<longleftrightarrow> running_all [i] infos' \<and> running_all js infos'"
      by (simp add: running_all_def)
    ultimately show ?thesis
      using * i r(2) Inr by (intro exI [of _ rc] exI [of _ l'] exI [of _ infos']) auto
  qed
qed

definition readers_up :: "lcap_ctx \<Rightarrow> bool" where
  "readers_up ctx \<longleftrightarrow> (case cc_rdr_info ctx of None \<Rightarrow> False
     | Some infos \<Rightarrow> length infos = ccf_mdtcount (cc_config ctx) \<and> list_all si_running infos)"

lemma lcap_readers_start_result:
  assumes "ccf_mdtcount (cc_config ctx) \<le> MAX_MDT"
  shows "\<exists>rc l infos. lcap_readers_start L ctx = Ok rc (ctx\<lparr>w_log := l, cc_rdr_info := infos\<rparr>) \<and> rc \<le> 0 \<and>
    (rc = 0 \<longrightarrow> readers_up (ctx\<lparr>cc_rdr_info := infos\<rparr>) \<and>
      started_readers l = started_readers (w_log ctx) @ [0..<ccf_mdtcount (cc_config ctx)])"
proof -
  let ?n = "ccf_mdtcount (cc_config ctx)"
  let ?infos = "replicate ?n \<lparr>si_thread = 0, si_running = False\<rparr>"
  obtain ok where al: "alloc L (?n * sizeof_subtask_info) ctx =
      (ok, ctx\<lparr>w_log := Ev_alloc (?n * sizeof_subtask_info) ok # w_log ctx\<rparr>)"
    by (simp add: alloc_def Let_def)
  show ?thesis
  proof (cases ok)
    case False
    with al show ?thesis by (auto simp: lcap_readers_start_def)
  next
    case True
    let ?c = "ctx\<lparr>w_log := Ev_alloc (?n * sizeof_subtask_info) ok # w_log ctx, cc_rdr_info := Some ?infos\<rparr>"
    have "list_all (\<lambda>i. i < length ?infos \<and> i < MAX_MDT) [0..<?n]" using assms by (auto simp: list_all_iff)
    from readers_start_from_result [OF this, of ?c L] obtain rc l infos where
      *: "readers_start_from L [0..<?n] ?c = Ok rc (?c\<lparr>w_log := l, cc_rdr_info := Some infos\<rparr>)" "rc \<le> 0"
        "length infos = ?n" "rc = 0 \<longrightarrow> started_readers l = started_readers (w_log ?c) @ [0..<?n] \<and> running_all [0..<?n] infos"
      by auto
    have "running_all [0..<?n] infos \<Longrightarrow> list_all si_running infos"
      using *(3) by (auto simp: running_all_def list_all_length)
    with * al True show ?thesis
      by (intro exI [of _ rc] exI [of _ l] exI [of _ "Some infos"]) (auto simp: lcap_readers_start_def readers_up_def)
  qed
qed

subsection \<open>Initialisation\<close>

lemma lcap_bind_server_result:
  "\<exists>rc l z k. lcap_bind_server L ctx = Ok rc (ctx\<lparr>w_log := l, cc_zctx := z, cc_sock := k\<rparr>) \<and> rc \<le> 0 \<and>
    (rc = 0 \<longrightarrow> z \<and> k) \<and> started_readers l = started_readers (w_log ctx)"
proof -
  let ?e1 = "lib_ctx_new L (w_log ctx)"
  let ?l1 = "Ev_zmq_ctx (?e1 = 0) # w_log ctx"
  let ?e2 = "lib_socket L ?l1"
  let ?l2 = "Ev_zmq_socket (?e2 = 0) # ?l1"
  let ?e3 = "lib_connect L ?l2"
  have eq: "lcap_bind_server L ctx =
    (if ?e1 \<noteq> 0 then Ok (- ENOMEM) (ctx\<lparr>w_log := ?l1, cc_zctx := False, cc_sock := cc_sock ctx\<rparr>)
     else if ?e2 \<noteq> 0 then Ok (- int ?e2) (ctx\<lparr>w_log := ?l2, cc_zctx := True, cc_sock := False\<rparr>)
     else Ok (- int ?e3) (ctx\<lparr>w_log := Ev_zmq_connect ?e3 # ?l2, cc_zctx := True, cc_sock := True\<rparr>))"
    by (simp add: lcap_bind_server_def Let_def)
  consider "?e1 \<noteq> 0" | "?e1 = 0" "?e2 \<noteq> 0" | "?e1 = 0" "?e2 = 0" by blast
  then show ?thesis
  proof cases
    case 1
    with eq show ?thesis
      by (intro exI [of _ "- ENOMEM"] exI [of _ ?l1] exI [of _ False] exI [of _ "cc_sock ctx"]) simp
  next
    case 2
    with eq show ?thesis
      by (intro exI [of _ "- int ?e2"] exI [of _ ?l2] exI [of _ True] exI [of _ False]) simp
  next
    case 3
    with eq show ?thesis
      by (intro exI [of _ "- int ?e3"] exI [of _ "Ev_zmq_connect ?e3 # ?l2"] exI [of _ True] exI [of _ True]) simp
  qed
qed

text \<open>What the daemon relies on once it is initialised.\<close>

definition daemon_up :: "lcap_cfg \<Rightarrow> lcapd_env \<Rightarrow> bool" where
  "daemon_up cfg d \<longleftrightarrow> broker_inv (dm_ctx d) \<and> cc_config (dm_ctx d) = cfg \<and> readers_up (dm_ctx d) \<and>
     cc_zctx (dm_ctx d) \<and> cc_sock (dm_ctx d) \<and> cc_rcid (dm_ctx d) = replicate MAX_MDT None \<and>
     CurrentLogLevel (dm_log d) = level_code (threshold (ccf_verbosity cfg)) \<and> CurrentLogger (dm_log d) \<noteq> None"

lemma lcap_log_open_keeps:
  "CurrentLogLevel (snd (lcap_log_open g)) = CurrentLogLevel g"
  "CurrentLogger (snd (lcap_log_open g)) = CurrentLogger g"
  by (auto simp: lcap_log_open_def lfo_open_def stderr_open_def syslog_open_def emit_def
      split: option.splits log_facility.splits)

lemma lcap_set_logger_result:
  assumes "lcap_set_logger n g = (rc, h)"
  shows "rc = - EINVAL \<or> rc = 0 \<and> CurrentLogLevel h = CurrentLogLevel g \<and> CurrentLogger h \<noteq> None"
  using assms by (auto simp: set_logger_names split: option.splits)

lemma set_loglevel_threshold: "CurrentLogLevel (lcap_set_loglevel v g) = level_code (threshold v)"
  by (simp add: lcap_set_loglevel_def threshold_def)

lemma lcap_ctx_init_result:
  assumes "cfg_wf cfg"
  shows "\<exists>rc t. lcap_ctx_init L cfg d = Ok rc t \<and> rc \<le> 0 \<and> cc_config (dm_ctx t) = cfg \<and> w_in (dm_ctx t) = w_in (dm_ctx d) \<and>
    (rc = 0 \<longrightarrow> daemon_up cfg t \<and> started_readers (w_log (dm_ctx t)) =
      started_readers (w_log (dm_ctx d)) @ [0..<ccf_mdtcount cfg])"
proof -
  define c where "c = (dm_ctx d)\<lparr>cc_config := cfg, cc_rdr_info := None, cc_zctx := False, cc_sock := False,
    cc_rcid := replicate MAX_MDT None\<rparr>"
  define g where "g = lcap_set_loglevel (ccf_verbosity cfg) (dm_log d)"
  obtain rc h where lg: "lcap_set_logger (ccf_loggername cfg) g = (rc, h)" by force
  note sl = lcap_set_logger_result [OF lg]
  let ?d = "d\<lparr>dm_ctx := c, dm_log := g\<rparr>"
  show ?thesis
  proof (cases "rc = 0")
    case False
    then have "lcap_ctx_init L cfg d = Ok rc (?d\<lparr>dm_log := h\<rparr>)"
      using lg by (simp add: lcap_ctx_init_def c_def g_def Let_def)
    with sl False show ?thesis by (auto simp: c_def)
  next
    case rc0: True
    define d1 where "d1 = ?d\<lparr>dm_log := snd (lcap_log_open h)\<rparr>"
    obtain rc1 l z k where b: "lcap_bind_server L c = Ok rc1 (c\<lparr>w_log := l, cc_zctx := z, cc_sock := k\<rparr>)" "rc1 \<le> 0"
        "rc1 = 0 \<longrightarrow> z \<and> k" "started_readers l = started_readers (w_log c)"
      using lcap_bind_server_result [of L c] by blast
    define c1 where "c1 = c\<lparr>w_log := l, cc_zctx := z, cc_sock := k\<rparr>"
    have "ccf_mdtcount (cc_config c1) \<le> MAX_MDT" using assms by (simp add: c1_def c_def cfg_wf_def)
    from lcap_readers_start_result [OF this, of L] obtain rc2 l2 infos where
      r: "lcap_readers_start L c1 = Ok rc2 (c1\<lparr>w_log := l2, cc_rdr_info := infos\<rparr>)" "rc2 \<le> 0"
        "rc2 = 0 \<longrightarrow> readers_up (c1\<lparr>cc_rdr_info := infos\<rparr>) \<and>
          started_readers l2 = started_readers (w_log c1) @ [0..<ccf_mdtcount (cc_config c1)]" by blast
    let ?c2 = "c1\<lparr>w_log := l2, cc_rdr_info := infos\<rparr>"
    let ?t = "d1\<lparr>dm_ctx := ?c2\<lparr>w_log := Ev_sleep SLOW_JOINER_PAUSE # l2\<rparr>\<rparr>"
    have init: "lcap_ctx_init L cfg d =
        (if rc1 \<noteq> 0 then Ok rc1 (d1\<lparr>dm_ctx := c1\<rparr>) else if rc2 \<noteq> 0 then Ok rc2 (d1\<lparr>dm_ctx := ?c2\<rparr>) else Ok 0 ?t)"
      using lg rc0 b(1) r(1) by (simp add: lcap_ctx_init_def c_def g_def Let_def on_ctx_def d1_def c1_def)
    define c3 where "c3 = ?c2\<lparr>w_log := Ev_sleep SLOW_JOINER_PAUSE # l2\<rparr>"
    have "broker_inv c3" using assms by (simp add: broker_inv_def c3_def c1_def c_def)
    moreover have "readers_up c3" if "rc2 = 0"
      using r(3) that by (auto simp: readers_up_def c3_def split: option.splits)
    moreover have "cc_config c3 = cfg" "cc_zctx c3 = z" "cc_sock c3 = k" "cc_rcid c3 = replicate MAX_MDT None"
      by (simp_all add: c3_def c1_def c_def)
    moreover have "CurrentLogLevel h = level_code (threshold (ccf_verbosity cfg))" "CurrentLogger h \<noteq> None"
      using sl rc0 set_loglevel_threshold by (simp_all add: g_def)
    ultimately have "daemon_up cfg ?t" if "rc1 = 0" "rc2 = 0"
      using that b(3) by (simp add: daemon_up_def d1_def lcap_log_open_keeps c3_def [symmetric])
    then show ?thesis
      using init b r by (auto simp: c1_def c_def)
  qed
qed

text \<open>(C23) Initialising the daemon with a well-formed configuration returns. When it returns 0, the
  broker's table is in its invariant and empty, its socket is bound, one reader has been started for
  each configured MDT, in their order, and is marked running, a logger is selected and the log level
  is the one of the verbosity. Every error is a negative code.\<close>

theorem daemon_init:
  assumes "cfg_wf cfg"
  shows "\<exists>rc t. lcap_ctx_init L cfg d = Ok rc t \<and> rc \<le> 0 \<and>
    (rc = 0 \<longrightarrow> daemon_up cfg t \<and> started_readers (w_log (dm_ctx t)) =
      started_readers (w_log (dm_ctx d)) @ [0..<ccf_mdtcount cfg])"
  using lcap_ctx_init_result [OF assms, of L d] by blast

definition demo_daemon :: "lcap_cfg \<Rightarrow> lcapd_env" where
  "demo_daemon cfg = \<lparr>dm_ctx = demo_ctx\<lparr>cc_config := cfg\<rparr>, dm_log = \<lparr>CurrentLogLevel = 0, CurrentLogger = None,
     lg_out = [], lg_pid = 1, lg_tid = 1, lg_time = \<lparr>tv_sec = 0, tv_nsec = 0\<rparr>\<rparr>, TerminateSig = False,
     ReloadSig = False, DumpStatsSig = False\<rparr>"

lemma demo_cfg_wf: "cfg_wf demo_cfg"
  using demo_ctx_inv by (simp add: broker_inv_def demo_ctx_def)

lemma demo_init_ok: "\<exists>t. lcap_ctx_init demo_libs demo_cfg (demo_daemon demo_cfg) = Ok 0 t"
proof -
  have "lcap_set_logger (ccf_loggername demo_cfg) g = (0, g\<lparr>CurrentLogger := Some StderrLogger\<rparr>)" for g
    by (simp add: set_logger_names AvailableLoggers_def lf_name_def demo_cfg_def)
  then show ?thesis
    by (simp add: lcap_ctx_init_def lcap_bind_server_def on_ctx_def lcap_readers_start_def Let_def
        demo_daemon_def demo_ctx_def lcap_subtask_def alloc_def)
      (simp add: demo_libs_def demo_cfg_def lcap_subtask_def alloc_def Let_def)
qed

theorem daemon_init_witness:
  "\<exists>t. lcap_ctx_init demo_libs demo_cfg (demo_daemon demo_cfg) = Ok 0 t \<and> daemon_up demo_cfg t \<and>
     started_readers (w_log (dm_ctx t)) = [0]"
proof -
  have "started_readers (w_log (dm_ctx (demo_daemon demo_cfg))) = []" "ccf_mdtcount demo_cfg = 1"
    by (simp_all add: demo_daemon_def demo_ctx_def demo_cfg_def)
  with daemon_init [OF demo_cfg_wf, of demo_libs "demo_daemon demo_cfg"] demo_init_ok show ?thesis by auto
qed

subsection \<open>Serving\<close>

lemma lcapd_serve_result:
  assumes "broker_inv ctx" "cc_config ctx = cfg" "suffix (w_in ctx) es"
  shows "case lcapd_serve k L ctx of
     Ok rc t \<Rightarrow> rc < 0 \<and> broker_inv t \<and> cc_config t = cfg
   | Bad e t \<Rightarrow> e = No_return \<or> broker_bad cfg es e t"
  using assms
proof (induction k arbitrary: ctx)
  case (Suc k)
  let ?rc = "lib_poll L (w_log ctx) (- 1)"
  let ?c = "ctx\<lparr>w_log := Ev_poll (- 1) ?rc # w_log ctx\<rparr>"
  have c: "broker_inv ?c \<and> cc_config ?c = cfg \<and> suffix (w_in ?c) es" using Suc.prems by simp
  note recv = broker.lcap_rpc_recv_served [OF c, of L]
  have rest: "case lcapd_serve k L t of Ok rc t \<Rightarrow> rc < 0 \<and> broker_inv t \<and> cc_config t = cfg
     | Bad e t \<Rightarrow> e = No_return \<or> broker_bad cfg es e t"
    if "broker_inv t \<and> cc_config t = cfg \<and> suffix (w_in t) es" for t
    using Suc.IH [of t] that by simp
  show ?case
  proof (cases "?rc < 0 \<or> \<not> lib_pollin L (w_log ?c)")
    case True
    with rest [OF c] c show ?thesis by (auto simp: Let_def)
  next
    case False
    then have eq: "lcapd_serve (Suc k) L ctx = bindR (lcap_rpc_recv L LCAP_RECV_NONBLOCK (lcapd_process_request L) ?c)
        (\<lambda>rc ctx. if rc \<ge> 0 then lcapd_serve k L ctx else Ok rc ctx)" by (simp add: Let_def)
    show ?thesis
    proof (cases "lcap_rpc_recv L LCAP_RECV_NONBLOCK (lcapd_process_request L) ?c")
      case (Ok n t)
      with recv have "0 \<le> n" "broker_inv t \<and> cc_config t = cfg \<and> suffix (w_in t) es"
        by (simp_all add: broker.served_def)
      with Ok rest [of t] show ?thesis unfolding eq by simp
    next
      case (Bad e t)
      with recv have "e = No_return \<or> broker_bad cfg es e t" by (auto simp: broker.served_def)
      then show ?thesis unfolding eq Bad by simp
    qed
  qed
qed simp

subsection \<open>The whole program\<close>

text \<open>The faults of \<^verbatim>\<open>main\<close>: those of the configuration, those of a message to the broker, the
  release of a full table of MDT names, and a serving loop that goes on.\<close>

definition main_fault :: "cfg_env \<Rightarrow> bytes list \<Rightarrow> in_event list \<Rightarrow> lcap_cfg \<Rightarrow> fault \<Rightarrow> bool" where
  "main_fault E args es cfg f \<longleftrightarrow>
     cfg_fault E args f \<or> f = No_return \<or>
     (\<exists>req c. made_of es req \<and> lr_forward req = Some c \<and> broker_fault cfg c (lr_body req) = Some f) \<or>
     (f = Out_of_bounds \<and> ccf_mdtcount cfg = MAX_MDT)"

definition main_ok :: "cfg_env \<Rightarrow> bytes list \<Rightarrow> in_event list \<Rightarrow> ('a, lcapd_env) res \<Rightarrow> bool" where
  "main_ok E args es r \<longleftrightarrow> (case r of Ok _ _ \<Rightarrow> True | Bad f t \<Rightarrow> main_fault E args es (cc_config (dm_ctx t)) f)"

lemma main_ok_bind:
  assumes "main_ok E args es m" "\<And>x t. m = Ok x t \<Longrightarrow> main_ok E args es (f x t)"
  shows "main_ok E args es (bindR m f)"
  using assms by (cases m) (auto simp: main_ok_def)

lemma main_ok_Ok [simp]: "main_ok E args es (Ok x t)"
  by (simp add: main_ok_def)

lemma release_mdts_full:
  "release_mdts ms s = Bad f t \<Longrightarrow> f = Out_of_bounds \<and> t = s \<and> None \<notin> set ms"
  by (induction ms s rule: release_mdts.induct) auto

lemma release_mdts_Ok: "release_mdts ms s = Ok x t \<Longrightarrow> t = s"
  by (induction ms s rule: release_mdts.induct) auto

lemma main_ok_release:
  assumes "cfg_typed (cc_config (dm_ctx d))"
  shows "main_ok E args es (on_cfg lcap_cfg_release d)"
proof -
  let ?c = "cc_config (dm_ctx d)"
  have "ccf_mdtcount ?c = MAX_MDT" if "None \<notin> set (ccf_mdt ?c)"
  proof (rule ccontr)
    assume "ccf_mdtcount ?c \<noteq> MAX_MDT"
    with assms have "None \<in> set (drop (ccf_mdtcount ?c) (ccf_mdt ?c))" by (auto simp: cfg_typed_def)
    with that show False by (meson in_set_dropD)
  qed
  then show ?thesis
    by (auto simp: main_ok_def on_cfg_def lcap_cfg_release_def Let_def main_fault_def bindR_eq_Bad
        split: res.splits dest!: release_mdts_full)
qed

text \<open>The parser does not touch what the socket will receive.\<close>

lemma w_in_bind:
  "w_in (state_of m) = i \<Longrightarrow> (\<And>x t :: _ world_scheme. w_in t = i \<Longrightarrow> w_in (state_of (f x t)) = i) \<Longrightarrow> w_in (state_of (bindR m f)) = i"
  by (cases m) simp_all

lemma w_in_arg: "w_in (state_of (cfg_get_arg L E line s)) = w_in s"
  by (simp add: cfg_get_arg_def alloc_def Let_def)

lemma w_in_directive: "(n, h) \<in> set directives \<Longrightarrow> w_in (state_of (h L E line s)) = w_in s"
  unfolding directives_def
  by (auto simp: handle_cfg_batch_records_line_def handle_cfg_max_buckets_line_def number_line_def
      handle_cfg_logtype_line_def handle_cfg_workers_line_def handle_cfg_mdtdevice_line_def
      handle_cfg_clreader_line_def set_cfg_def w_in_arg intro!: w_in_bind split: option.splits)

lemma w_in_line: "w_in (state_of (parse_config_line L E line s)) = w_in s"
proof -
  have "w_in (state_of (h L E line s)) = w_in s"
    if f: "find (\<lambda>(name, handler). startswith line name) directives = Some (n, h)" for n h
  proof -
    obtain i where "i < length directives" "directives ! i = (n, h)" using f by (auto simp: find_Some_iff)
    then have "(n, h) \<in> set directives" by (auto simp: in_set_conv_nth)
    then show ?thesis by (rule w_in_directive)
  qed
  then show ?thesis by (auto simp: parse_config_line_def split: list.splits option.splits)
qed

lemma w_in_lines: "w_in (state_of (parse_lines L E err content s)) = w_in s"
proof (induction L E err content s rule: parse_lines.induct)
  case (1 L E err content s)
  show ?case
  proof (cases "content = []")
    case False
    obtain line rest where f: "fgets LINE_SIZE content = (line, rest)" by force
    have "w_in (state_of (bindR (parse_config_line L E (c_str line) s)
        (\<lambda>rc s. if rc \<noteq> 0 then Ok rc s else parse_lines L E err rest s))) = w_in s"
    proof (cases "parse_config_line L E (c_str line) s")
      case (Ok rc t)
      then have "w_in t = w_in s" using w_in_line [of L E "c_str line" s] by simp
      with Ok 1 [OF False f [symmetric] Ok] show ?thesis by (cases "rc = 0") simp_all
    next
      case (Bad e t)
      then show ?thesis using w_in_line [of L E "c_str line" s] by simp
    qed
    with False f show ?thesis by (simp add: parse_lines.simps [of L E err content s])
  qed (simp add: parse_lines.simps [of L E err "[]" s] Let_def)
qed

lemma w_in_args: "w_in (state_of (parse_args_from L es s)) = w_in s"
proof (induction es arbitrary: s)
  case (Cons e es)
  then show ?case by (cases e) (simp add: alloc_def Let_def set_cfg_def split: option.split)
qed simp

lemma w_in_cfg_init: "w_in (state_of (lcap_cfg_init L E args s)) = w_in s"
proof -
  have "w_in (state_of (lcap_parse_config_file L E t)) = w_in t" for t
    by (simp add: lcap_parse_config_file_def Let_def w_in_lines split: option.splits)
  then show ?thesis
    unfolding lcap_cfg_init_def lcap_parse_args_def
    by (intro w_in_bind) (auto simp: w_in_args intro!: w_in_bind split: outcome.splits)
qed

lemma main_ok_cfg_init:
  "main_ok E args es (on_cfg (lcap_cfg_init L E args) d)"
  "on_cfg (lcap_cfg_init L E args) d = Ok r t \<Longrightarrow> cfg_typed (cc_config (dm_ctx t)) \<and> w_in (dm_ctx t) = w_in (dm_ctx d)"
proof -
  let ?s = "\<lparr>w_log = w_log (dm_ctx d), w_errno = w_errno (dm_ctx d), w_in = w_in (dm_ctx d), st_cfg = cc_config (dm_ctx d)\<rparr>"
  note res = cfg_init_result [of E args L ?s] and inp = w_in_cfg_init [of L E args ?s]
  show "main_ok E args es (on_cfg (lcap_cfg_init L E args) d)"
    using res by (auto simp: main_ok_def on_cfg_def main_fault_def cfg_result_def Let_def split: res.splits)
  show "cfg_typed (cc_config (dm_ctx t)) \<and> w_in (dm_ctx t) = w_in (dm_ctx d)"
    if "on_cfg (lcap_cfg_init L E args) d = Ok r t"
    using res inp that by (auto simp: on_cfg_def cfg_result_def Let_def split: res.splits)
qed

lemma main_ok_serve:
  assumes "broker_inv (dm_ctx d)" "w_in (dm_ctx d) = es"
  shows "main_ok E args es (on_ctx (lcapd_serve k L) d)"
    "on_ctx (lcapd_serve k L) d = Ok rc t \<Longrightarrow> cc_config (dm_ctx t) = cc_config (dm_ctx d)"
  using lcapd_serve_result [OF assms(1) refl, of es k L] assms(2)
  by (auto simp: main_ok_def on_ctx_def main_fault_def broker_bad_def split: res.splits)

text \<open>The end of \<^verbatim>\<open>main\<close>, from the serving loop and from the initialisation of the context on.\<close>

abbreviation (input) serve_out :: "nat \<Rightarrow> libs \<Rightarrow> outcome lcapd_op" where
  "serve_out k L t \<equiv> bindR (on_ctx (lcapd_serve k L) t) (\<lambda>rc d.
     bindR (lcap_ctx_release (pause 1000 d)) (\<lambda>_ d. bindR (on_cfg lcap_cfg_release d) (\<lambda>_ d. Ok (Returns rc) d)))"

abbreviation (input) init_serve_out :: "nat \<Rightarrow> libs \<Rightarrow> outcome lcapd_op" where
  "init_serve_out k L t \<equiv> bindR (lcap_ctx_init L (cc_config (dm_ctx t)) t) (\<lambda>rc d.
     if rc \<noteq> 0 then Ok (Returns rc) d else serve_out k L d)"

lemma main_ok_serve_out:
  assumes up: "daemon_up cfg t" and cfg: "cfg_typed cfg" and es: "w_in (dm_ctx t) = es"
  shows "main_ok E args es (serve_out k L t)"
proof (rule main_ok_bind)
  have t: "broker_inv (dm_ctx t)" "cc_config (dm_ctx t) = cfg" using up by (simp_all add: daemon_up_def)
  show "main_ok E args es (on_ctx (lcapd_serve k L) t)" by (rule main_ok_serve [OF t(1) es])
  fix rc u assume "on_ctx (lcapd_serve k L) t = Ok rc u"
  with main_ok_serve(2) [OF t(1) es] t(2) have "cc_config (dm_ctx u) = cfg" by auto
  then have "cfg_typed (cc_config (dm_ctx v))" if "lcap_ctx_release (pause 1000 u) = Ok x v" for x v
    using that cfg by (auto simp: lcap_ctx_release_def pause_def Let_def)
  then show "main_ok E args es (bindR (lcap_ctx_release (pause 1000 u)) (\<lambda>_ d.
      bindR (on_cfg lcap_cfg_release d) (\<lambda>_ d. Ok (Returns rc) d)))"
    by (intro main_ok_bind main_ok_release) (auto simp: lcap_ctx_release_def Let_def)
qed

lemma main_ok_init_serve:
  assumes "cfg_typed (cc_config (dm_ctx t))" "w_in (dm_ctx t) = es"
  shows "main_ok E args es (init_serve_out k L t)"
  using lcap_ctx_init_result [OF cfg_typed_wf [OF assms(1)], of L t] main_ok_serve_out [OF _ assms(1)] assms(2) by auto

lemma main_ok_sigthread:
  assumes "cfg_typed (cc_config (dm_ctx t))" "w_in (dm_ctx t) = es"
  shows "main_ok E args es (bindR (setup_sigthread L t) (\<lambda>rc d. if rc \<noteq> 0 then Ok (Returns rc) d else init_serve_out k L d))"
proof -
  obtain rc u where u: "setup_sigthread L t = Ok rc u" "cc_config (dm_ctx u) = cc_config (dm_ctx t)"
      "w_in (dm_ctx u) = w_in (dm_ctx t)"
    by (simp add: setup_sigthread_def Let_def)
  with main_ok_init_serve [of u] assms show ?thesis by simp
qed

text \<open>(C15) The daemon as a whole: for every command line, every configuration file, every sequence of
  messages and every behaviour of the libraries, \<^verbatim>\<open>main\<close> returns, exits, keeps serving (\<open>No_return\<close>), or
  ends in one of these faults. A statement of the configuration file whose argument is missing
  (\<open>Uninit_read\<close>) or is a number that is no \<^verbatim>\<open>int\<close> (\<open>Signed_overflow\<close>, also for \<^verbatim>\<open>-v\<close> given
  2147483648 times). A message made of frames that came in and that the broker's log messages cannot
  print. When all 128 entries for MDT names are used, the read after the array in \<^verbatim>\<open>lcap_cfg_release\<close>.
  The threads of the readers and of the signals are not part of \<^verbatim>\<open>main\<close>.\<close>

theorem daemon_main_safe:
  "case lcapd_main k L E args d of
     Ok _ _ \<Rightarrow> True
   | Bad f t \<Rightarrow> cfg_fault E args f \<or> f = No_return \<or>
       (\<exists>req c. made_of (w_in (dm_ctx d)) req \<and> lr_forward req = Some c \<and>
          broker_fault (cc_config (dm_ctx t)) c (lr_body req) = Some f) \<or>
       (f = Out_of_bounds \<and> ccf_mdtcount (cc_config (dm_ctx t)) = MAX_MDT)"
proof -
  let ?es = "w_in (dm_ctx d)"
  have "main_ok E args ?es (lcapd_main k L E args d)"
  proof (cases "args = []")
    case False
    show ?thesis
      unfolding lcapd_main_def if_not_P [OF False]
    proof (rule main_ok_bind [OF main_ok_cfg_init(1)])
      fix r t assume "on_cfg (lcap_cfg_init L E args) d = Ok r t"
      then have "cfg_typed (cc_config (dm_ctx t)) \<and> w_in (dm_ctx t) = ?es" by (rule main_ok_cfg_init(2))
      then have t: "cfg_typed (cc_config (dm_ctx t))" "w_in (dm_ctx t) = ?es" by simp_all
      note main_ok_sigthread [OF t]
      then show "main_ok E args ?es (case r of Exits n \<Rightarrow> Ok (Exits n) t
           | Returns rc \<Rightarrow>
               if rc \<noteq> 0 then Ok (Returns rc) t
               else bindR (setup_sigthread L t) (\<lambda>rc d.
                    if rc \<noteq> 0 then Ok (Returns rc) d else init_serve_out k L d))"
        by (cases r) simp_all
    qed
  qed (simp add: lcapd_main_def)
  then show ?thesis by (simp add: main_ok_def main_fault_def split: res.splits)
qed

subsection \<open>Signals\<close>

definition stops :: "signo \<Rightarrow> bool" where
  "stops sig \<longleftrightarrow> sig \<in> {SIGTERM, SIGINT}"

text \<open>Handlers only set flags, each signal its own.\<close>

lemma deliver_flags:
  "deliver sig d = d\<lparr>TerminateSig := TerminateSig d \<or> stops sig, ReloadSig := ReloadSig d \<or> sig = SIGHUP,
     DumpStatsSig := DumpStatsSig d \<or> sig = SIGUSR1\<rparr>"
  by (cases sig) (simp_all add: deliver_def handlers_def lcap_sigreload_def lcap_sigdumpstats_def lcap_sigterm_def stops_def)

lemma fold_deliver_flags:
  "fold deliver sigs d = d\<lparr>TerminateSig := TerminateSig d \<or> (\<exists>sig \<in> set sigs. stops sig),
     ReloadSig := ReloadSig d \<or> SIGHUP \<in> set sigs, DumpStatsSig := DumpStatsSig d \<or> SIGUSR1 \<in> set sigs\<rparr>"
  by (induction sigs arbitrary: d) (auto simp: deliver_flags disj_assoc eq_commute)

text \<open>
  The requests that wait after turns without a stopping signal: a turn takes the signals that
  have come, consumes the reload request when there is one, and otherwise the statistics request.
\<close>

fun pending :: "signo list list \<Rightarrow> bool \<times> bool \<Rightarrow> bool \<times> bool" where
  "pending [] f = f"
| "pending (sigs # turns) (reload, dump) =
     (let reload = (reload \<or> SIGHUP \<in> set sigs); dump = (dump \<or> SIGUSR1 \<in> set sigs)
      in pending turns (if reload then (False, dump) else (False, False)))"

lemma stop_readers_from:
  assumes "cc_rdr_info ctx = Some infos" "list_all (\<lambda>i. i < length infos) js"
  shows "stop_readers js ctx = Ok ()
    (ctx\<lparr>cc_rdr_info := Some (fold (\<lambda>i infos. infos[i := (infos ! i)\<lparr>si_running := False\<rparr>]) js infos)\<rparr>)"
  using assms by (induction js arbitrary: ctx infos) simp_all

lemma stopped_prefix:
  "k \<le> length infos \<Longrightarrow> fold (\<lambda>i infos. infos[i := (infos ! i)\<lparr>si_running := False\<rparr>]) [0..<k] infos =
     map (si_running_update (\<lambda>_. False)) (take k infos) @ drop k infos"
proof (induction k)
  case (Suc k)
  then have "drop k infos = infos ! k # drop (Suc k) infos" by (simp add: Cons_nth_drop_Suc)
  with Suc show ?case by (simp add: take_Suc_conv_app_nth list_update_append nth_append)
qed simp

lemma lcap_readers_terminate_result:
  assumes "cc_rdr_info ctx = Some infos" "length infos = ccf_mdtcount (cc_config ctx)"
  shows "lcap_readers_terminate ctx =
    (let t = ctx\<lparr>cc_rdr_info := Some (map (si_running_update (\<lambda>_. False)) infos)\<rparr>
     in if infos = [] then Ok 0 t else Bad Undefined_call t)"
proof -
  let ?js = "[0..<length infos]"
  have "list_all (\<lambda>i. i < length infos) ?js" by (simp add: list_all_iff)
  from stop_readers_from [OF assms(1) this] stopped_prefix [of "length infos" infos]
  have "stop_readers ?js ctx = Ok () (ctx\<lparr>cc_rdr_info := Some (map (si_running_update (\<lambda>_. False)) infos)\<rparr>)"
    by simp
  moreover have "join_readers ?js t = (if infos = [] then Ok () t else Bad Undefined_call t)" for t
    by (cases "infos = []") (simp_all add: upt_conv_Cons)
  ultimately show ?thesis using assms(2) by (simp add: lcap_readers_terminate_def Let_def)
qed

text \<open>Turns without a stopping signal only sleep and consume requests.\<close>

lemma sig_loop_idle:
  assumes "\<not> TerminateSig d" "\<forall>sig \<in> set (concat pre). \<not> stops sig"
  shows "sig_loop (pre @ rest) d = sig_loop rest
    (d\<lparr>dm_ctx := (dm_ctx d)\<lparr>w_log := replicate (length pre) (Ev_sleep SIGSLEEP_DELAY) @ w_log (dm_ctx d)\<rparr>,
       ReloadSig := fst (pending pre (ReloadSig d, DumpStatsSig d)), DumpStatsSig := snd (pending pre (ReloadSig d, DumpStatsSig d))\<rparr>)"
  using assms
proof (induction pre arbitrary: d)
  case (Cons sigs pre)
  define r u where "r = (ReloadSig d \<or> SIGHUP \<in> set sigs)" and "u = (DumpStatsSig d \<or> SIGUSR1 \<in> set sigs)"
  have "(TerminateSig d \<or> (\<exists>sig \<in> set sigs. stops sig)) = False" using Cons.prems by auto
  then have fd: "fold deliver sigs d = d\<lparr>TerminateSig := False, ReloadSig := r, DumpStatsSig := u\<rparr>"
    unfolding fold_deliver_flags r_def u_def by (simp only:)
  define d' where "d' = pause SIGSLEEP_DELAY (d\<lparr>TerminateSig := False, ReloadSig := False, DumpStatsSig := r \<and> u\<rparr>)"
  have step: "sig_loop ((sigs # pre) @ rest) d = sig_loop (pre @ rest) d'"
  proof -
    have swap: "d\<lparr>TerminateSig := False, DumpStatsSig := x, ReloadSig := y\<rparr> = d\<lparr>TerminateSig := False, ReloadSig := y, DumpStatsSig := x\<rparr>"
      for x y by (cases d) simp
    show ?thesis unfolding append_Cons sig_loop.simps fd d'_def by (cases r; cases u) (simp_all add: Let_def swap)
  qed
  have pend: "pending (sigs # pre) (ReloadSig d, DumpStatsSig d) = pending pre (ReloadSig d', DumpStatsSig d')"
    by (simp add: d'_def pause_def r_def u_def)
  have same: "d\<lparr>TerminateSig := False\<rparr> = d" using Cons.prems(1) by (cases d) simp
  have "\<not> TerminateSig d'" "\<forall>sig \<in> set (concat pre). \<not> stops sig"
    using Cons.prems by (simp_all add: d'_def pause_def)
  from Cons.IH [OF this] show ?case
    unfolding step pend by (cases d) (use Cons.prems(1) in \<open>simp add: d'_def pause_def replicate_app_Cons_same\<close>)
qed simp

text \<open>(C24) The thread of the signals: turns without SIGTERM or SIGINT only sleep and consume requests, the
  reload request first, and the statistics request in a turn that has no reload request; the first
  turn that finds SIGTERM or SIGINT clears the running mark of every
  reader and nothing else, and leaves the requests of that turn. It then exits with status 1 when there is
  no reader; otherwise it joins threads that were created detached, a call POSIX leaves undefined.\<close>

theorem daemon_termination:
  assumes "cc_rdr_info (dm_ctx d) = Some infos" "length infos = ccf_mdtcount (cc_config (dm_ctx d))"
    "\<not> TerminateSig d" "\<forall>sig \<in> set (concat pre). \<not> stops sig" "\<exists>sig \<in> set sigs. stops sig"
  shows "let (reload, dump) = pending pre (ReloadSig d, DumpStatsSig d);
         t = d\<lparr>dm_ctx := (dm_ctx d)
             \<lparr>w_log := replicate (length pre) (Ev_sleep SIGSLEEP_DELAY) @ w_log (dm_ctx d),
              cc_rdr_info := Some (map (si_running_update (\<lambda>_. False)) infos)\<rparr>,
            TerminateSig := True, ReloadSig := reload \<or> SIGHUP \<in> set sigs, DumpStatsSig := dump \<or> SIGUSR1 \<in> set sigs\<rparr>
    in sig_loop (pre @ sigs # post) d = (if infos = [] then Ok (Exits 1) t else Bad Undefined_call t)"
proof -
  let ?p = "pending pre (ReloadSig d, DumpStatsSig d)"
  have stop: "(TerminateSig x \<or> (\<exists>sig \<in> set sigs. stops sig)) = True" for x :: lcapd_env using assms(5) by simp
  show ?thesis
    unfolding sig_loop_idle [OF assms(3,4)] sig_loop.simps fold_deliver_flags stop
    using assms(1,2) by (simp add: on_ctx_def lcap_readers_terminate_result Let_def case_prod_beta)
qed

theorem daemon_termination_witness:
  "let d = (demo_daemon demo_cfg)\<lparr>dm_ctx := demo_ctx\<lparr>cc_rdr_info := Some [\<lparr>si_thread = 5, si_running = True\<rparr>]\<rparr>\<rparr>
   in case sig_loop [[SIGHUP, SIGUSR1], [SIGHUP], [SIGINT], [SIGHUP]] d of
        Ok _ _ \<Rightarrow> False
      | Bad e t \<Rightarrow> e = Undefined_call \<and> cc_rdr_info (dm_ctx t) = Some [\<lparr>si_thread = 5, si_running = False\<rparr>] \<and>
          w_log (dm_ctx t) = [Ev_sleep SIGSLEEP_DELAY, Ev_sleep SIGSLEEP_DELAY] \<and> \<not> ReloadSig t \<and> DumpStatsSig t"
proof -
  define infos :: "subtask_info list" where "infos = [\<lparr>si_thread = 5, si_running = True\<rparr>]"
  define d where "d = (demo_daemon demo_cfg)\<lparr>dm_ctx := demo_ctx\<lparr>cc_rdr_info := Some infos\<rparr>\<rparr>"
  have d: "cc_rdr_info (dm_ctx d) = Some infos" "length infos = ccf_mdtcount (cc_config (dm_ctx d))"
    "\<not> TerminateSig d"
    by (simp_all add: d_def infos_def demo_daemon_def demo_ctx_def demo_cfg_def)
  have log: "w_log (dm_ctx d) = []" "\<not> ReloadSig d" "\<not> DumpStatsSig d"
    by (simp_all add: d_def demo_daemon_def demo_ctx_def)
  have sigs: "\<forall>sig \<in> set (concat [[SIGHUP, SIGUSR1], [SIGHUP]]). \<not> stops sig" "\<exists>sig \<in> set [SIGINT]. stops sig"
    by (simp_all add: stops_def)
  obtain t where "sig_loop [[SIGHUP, SIGUSR1], [SIGHUP], [SIGINT], [SIGHUP]] d = Bad Undefined_call t"
    "cc_rdr_info (dm_ctx t) = Some (map (si_running_update (\<lambda>_. False)) infos)"
    "w_log (dm_ctx t) = [Ev_sleep SIGSLEEP_DELAY, Ev_sleep SIGSLEEP_DELAY]" "\<not> ReloadSig t" "DumpStatsSig t"
    using daemon_termination [OF d sigs, of "[[SIGHUP]]"] log
    by (simp add: Let_def infos_def numeral_2_eq_2 del: sig_loop.simps)
  then show ?thesis
    by (simp add: Let_def d_def infos_def del: sig_loop.simps)
qed

end
