(* ===== verification/Tool.thy ===== *)
theory Tool
  imports Strings Client_Inv
begin

text \<open>
  \<^verbatim>\<open>src/tools/lcap.c\<close>: the command line client that prints the records of an MDT and clears each
  after printing it.

  Its state is the client context and what was printed on the standard output. The accessors of
  changelog records and the format of file identifiers come from Lustre's headers; they are the
  fields of \<open>rec_fields\<close>. \<^verbatim>\<open>gmtime_r\<close> and the conversions of \<^verbatim>\<open>printf\<close> are modelled as far as the
  program uses them. Messages on the standard error are left out, except the one whose format does
  not fit its argument.
\<close>

subsection \<open>Records\<close>

record lustre_fid =
  f_seq :: "64 word"
  f_oid :: "32 word"
  f_ver :: "32 word"

record rec_fields =
  cr_time :: "bytes \<Rightarrow> 64 word"
  cr_type :: "bytes \<Rightarrow> nat"
  cr_flags :: "bytes \<Rightarrow> 16 word"
  cr_tfid :: "bytes \<Rightarrow> lustre_fid"
  cr_pfid :: "bytes \<Rightarrow> lustre_fid"
  cr_sfid :: "bytes \<Rightarrow> lustre_fid"
  cr_spfid :: "bytes \<Rightarrow> lustre_fid"
  changelog_type2str :: "nat \<Rightarrow> bytes"
  changelog_rec_jobid :: "bytes \<Rightarrow> bytes"
  changelog_rec_sname :: "bytes \<Rightarrow> bytes"
  changelog_rec_snamelen :: "bytes \<Rightarrow> nat"
  CLF_FLAGMASK :: "16 word"
  CLF_JOBID :: "16 word"
  CLF_RENAME :: "16 word"
  DFID :: "lustre_fid \<Rightarrow> bytes"

definition fid_is_zero :: "lustre_fid \<Rightarrow> bool" where
  "fid_is_zero fid \<longleftrightarrow> f_seq fid = 0 \<and> f_oid fid = 0"

text \<open>
  The bytes of the record a reference stands for. Reading after the bytes received, in the fixed
  part or in the name, reads memory that was never written.
\<close>

definition rec_read :: "libs \<Rightarrow> lcap_cl_ctx \<Rightarrow> rec_ref \<Rightarrow> fault + bytes" where
  "rec_read L s r =
     (let whole = (\<lambda>b. if length b < sizeof_changelog_rec L \<or> length b < wire_len L b then Inl Uninit_read
                       else Inr (take (wire_len L b) b))
      in case r of
           Direct b \<Rightarrow> whole b
         | In_buf a off \<Rightarrow>
             (case m_bufs s a of None \<Rightarrow> Inl Use_after_free | Some buf \<Rightarrow> whole (drop off buf)))"

subsection \<open>Dates\<close>

definition leap_year :: "nat \<Rightarrow> bool" where
  "leap_year y \<longleftrightarrow> y mod 4 = 0 \<and> (y mod 100 \<noteq> 0 \<or> y mod 400 = 0)"

fun gm_year :: "nat \<Rightarrow> nat \<Rightarrow> nat \<times> nat" where
  "gm_year days y =
     (let n = (if leap_year y then 366 else 365)
      in if days < n then (y, days) else gm_year (days - n) (y + 1))"

declare gm_year.simps [simp del]

primrec gm_month :: "nat list \<Rightarrow> nat \<Rightarrow> nat \<Rightarrow> nat \<times> nat" where
  "gm_month [] days m = (m, days)"
| "gm_month (n # ns) days m = (if days < n then (m, days) else gm_month ns (days - n) (m + 1))"

record tm =
  tm_year :: nat \<comment> \<open>the year itself\<close>
  tm_mon :: nat \<comment> \<open>from 1\<close>
  tm_mday :: nat
  tm_hour :: nat
  tm_min :: nat
  tm_sec :: nat

definition gmtime_r :: "nat \<Rightarrow> tm" where
  "gmtime_r secs =
     (case gm_year (secs div 86400) 1970 of
        (y, d) \<Rightarrow>
          (case gm_month [31, if leap_year y then 29 else 28, 31, 30, 31, 30, 31, 31, 30, 31, 30, 31] d 1 of
             (m, d) \<Rightarrow>
               \<lparr>tm_year = y, tm_mon = m, tm_mday = d + 1, tm_hour = secs mod 86400 div 3600,
                tm_min = secs mod 3600 div 60, tm_sec = secs mod 60\<rparr>))"

subsection \<open>Printing\<close>

definition zero_padded :: "nat \<Rightarrow> nat \<Rightarrow> bytes" where
  "zero_padded w n = (let ds = show_nat n in replicate (w - length ds) 48 @ ds)"

definition left_padded :: "nat \<Rightarrow> bytes \<Rightarrow> bytes" where
  "left_padded w s = s @ replicate (w - length s) 32"

fun show_hex :: "nat \<Rightarrow> bytes" where
  "show_hex n =
     (let d = of_nat (n mod 16); c = (if n mod 16 < 10 then 48 + d else 87 + d)
      in if n < 16 then [c] else show_hex (n div 16) @ [c])"

declare show_hex.simps [simp del]

text \<open>The line of a record, the extensions and the name when it has them.\<close>

definition record_line :: "libs \<Rightarrow> rec_fields \<Rightarrow> bytes \<Rightarrow> bytes" where
  "record_line L T r =
     (let secs = unat (drop_bit 30 (cr_time T r)); ts = gmtime_r secs;
          nsec = unat (cr_time T r AND (2 ^ 30 - 1))
      in show_nat (unat (cr_index L r)) @ str '' '' @
         zero_padded 2 (cr_type T r) @ left_padded 5 (changelog_type2str T (cr_type T r)) @ str '' '' @
         zero_padded 2 (tm_hour ts) @ str '':'' @ zero_padded 2 (tm_min ts) @ str '':'' @
         zero_padded 2 (tm_sec ts) @ str ''.'' @ zero_padded 6 nsec @ str '' '' @
         zero_padded 4 (tm_year ts) @ str ''.'' @ zero_padded 2 (tm_mon ts) @ str ''.'' @
         zero_padded 2 (tm_mday ts) @ str '' 0x'' @ show_hex (unat (cr_flags T r AND CLF_FLAGMASK T)) @
         str '' t='' @ DFID T (cr_tfid T r) @
         (if cr_flags T r AND CLF_JOBID T \<noteq> 0 then str '' j='' @ changelog_rec_jobid T r else []) @
         (if cr_flags T r AND CLF_RENAME T \<noteq> 0 \<and> \<not> fid_is_zero (cr_sfid T r)
          then str '' s='' @ DFID T (cr_sfid T r) @ str '' sp='' @ DFID T (cr_spfid T r) @ str '' '' @
               c_str (take (changelog_rec_snamelen T r) (changelog_rec_sname T r)) else []) @
         (if cr_namelen L r \<noteq> 0
          then str '' p='' @ DFID T (cr_pfid T r) @ str '' '' @
               c_str (take (unat (cr_namelen L r)) (drop (changelog_rec_name L r) r)) else []) @
         [10])"

subsection \<open>The program\<close>

record tool_env =
  tl_ctx :: lcap_cl_ctx
  tl_out :: bytes

type_synonym 'a tool_op = "tool_env \<Rightarrow> ('a, tool_env) res"

definition on_cl :: "'a cl_op \<Rightarrow> 'a tool_op" where
  "on_cl f e =
     (case f (tl_ctx e) of
        Ok x s \<Rightarrow> Ok x (e\<lparr>tl_ctx := s\<rparr>) | Bad b s \<Rightarrow> Bad b (e\<lparr>tl_ctx := s\<rparr>))"

definition reader_id :: bytes where
  "reader_id = str ''cl1''"

text \<open>At most \<open>k\<close> turns of the loop: \<open>Inl\<close> a return from inside it, \<open>Inr\<close> the code that ended it.\<close>

fun tool_loop :: "nat \<Rightarrow> libs \<Rightarrow> rec_fields \<Rightarrow> bytes \<Rightarrow> (int + int) tool_op" where
  "tool_loop 0 L T mdtname e = Bad No_return e"
| "tool_loop (Suc k) L T mdtname e =
     bindR (on_cl (lcap_changelog_recv L) e) (\<lambda>(rc, r) e.
     if rc \<noteq> 0 then Ok (Inr rc) e
     else case r of
            None \<Rightarrow> Bad Uninit_read e
          | Some r \<Rightarrow>
              (case rec_read L (tl_ctx e) r of
                 Inl f \<Rightarrow> Bad f e
               | Inr b \<Rightarrow>
                   bindR (on_cl (lcap_changelog_clear L mdtname reader_id (cr_index L b))
                            (e\<lparr>tl_out := tl_out e @ record_line L T b\<rparr>)) (\<lambda>rc e.
                   if rc < 0 then Ok (Inl 1) e
                   else bindR (on_cl (lcap_changelog_free L (Some r)) e) (\<lambda>(rc, _) e.
                        if rc < 0 then Ok (Inl 1) e else tool_loop k L T mdtname e))))"

definition tool_opts :: "byte \<Rightarrow> bool option" where
  "tool_opts c = (if [c] = str ''d'' then Some False else None)"

text \<open>The switch on the options: an unknown one prints the integer \<^verbatim>\<open>optopt\<close> with \<^verbatim>\<open>%s\<close>.\<close>

fun tool_flags :: "opt_event list \<Rightarrow> nat \<Rightarrow> nat tool_op" where
  "tool_flags [] flags e = Ok flags e"
| "tool_flags ((c, _) # es) flags e =
     (if [c] = str ''d'' then tool_flags es (flags OR LCAP_CL_DIRECT) e else Bad Undefined_call e)"

definition lcap_main :: "nat \<Rightarrow> libs \<Rightarrow> rec_fields \<Rightarrow> bytes list \<Rightarrow> int tool_op" where
  "lcap_main k L T args e =
     (if args = [] then Ok 1 e
      else case getopt_all tool_opts args of
             (es, operands) \<Rightarrow>
               bindR (tool_flags es (LCAP_CL_BLOCK OR LCAP_CL_JOBID) e) (\<lambda>flags e.
               case operands of
                 [] \<Rightarrow> Ok 1 e
               | mdtname # _ \<Rightarrow>
                   bindR (on_cl (lcap_changelog_start L flags (Some mdtname) 0) e) (\<lambda>rc e.
                   if rc < 0 then Ok 1 e
                   else bindR (tool_loop k L T mdtname e) (\<lambda>r e.
                        case r of
                          Inl n \<Rightarrow> Ok n e
                        | Inr rc \<Rightarrow>
                            if rc \<noteq> 0 \<and> rc \<noteq> 1 then Ok 1 e
                            else bindR (on_cl (lcap_changelog_fini L) e) (\<lambda>rc e.
                                 Ok (if rc \<noteq> 0 then 1 else 0) e)))))"

end
