(* ===== verification/Tool_Props.thy ===== *)
theory Tool_Props
  imports Tool Client_Props
begin

text \<open>
  The properties of the command line client: it prints the records its context holds once each and
  in order, whichever library mode it uses, and a whole run in direct mode.
\<close>

subsection \<open>Clearing keeps what is pending\<close>

lemma zmq_msg_recv_result:
  "case zmq_msg_recv L fl s of Ok _ t \<Rightarrow> world.more t = world.more s | Bad f t \<Rightarrow> f = No_return"
  by (simp add: zmq_msg_recv_def split: list.splits in_event.splits)

lemma cl_rep_recv_result:
  "case cl_rep_recv L n acc s of Ok _ t \<Rightarrow> world.more t = world.more s | Bad f t \<Rightarrow> f = No_return"
proof (induction L n acc s rule: cl_rep_recv.induct)
  case (1 L n acc s)
  show ?case
  proof (cases "zmq_msg_recv L 0 s")
    case (Bad f t)
    with zmq_msg_recv_result [where L = L and fl = 0 and s = s] show ?thesis by (simp add: cl_rep_recv.simps [of L n acc s])
  next
    case (Ok r t)
    with zmq_msg_recv_result [where L = L and fl = 0 and s = s] have t: "world.more t = world.more s" by simp
    show ?thesis
    proof (cases r)
      case (Inl e)
      with Ok t show ?thesis by (simp add: cl_rep_recv.simps [of L n acc s])
    next
      case (Inr p)
      obtain frm mo where p: "p = (frm, mo)" by (cases p)
      let ?e = "lib_getsockopt L (w_log t)"
      let ?t = "t\<lparr>w_log := Ev_zmq_getsockopt ?e # w_log t\<rparr>"
      have "case cl_rep_recv L n (acc @ frm) ?t of Ok _ u \<Rightarrow> world.more u = world.more s | Bad f u \<Rightarrow> f = No_return"
        if "\<not> length frm > n - length acc" "?e = 0" mo
        using 1 [OF Ok Inr p [symmetric] that(1) refl refl] that t by (simp split: res.splits)
      with Ok Inr p t show ?thesis by (simp add: cl_rep_recv.simps [of L n acc s] Let_def)
    qed
  qed
qed

lemma px_clear_result:
  assumes "ccc_ptr s \<noteq> None"
  shows "case px_changelog_clear L mdt idn i s of
    Ok _ t \<Rightarrow> world.more t = world.more s | Bad f t \<Rightarrow> f = No_return"
proof -
  obtain pzd where pzd: "ccc_ptr s = Some pzd" using assms by auto
  have ack: "case cl_ack_retcode L u of Ok _ t \<Rightarrow> world.more t = world.more u | Bad f t \<Rightarrow> f = No_return" for u
    using cl_rep_recv_result [where L = L and n = sizeof_ack and acc = "[]" and s = u]
    by (auto simp: cl_ack_retcode_def split: res.splits prod.splits)
  have send: "world.more u = world.more v" if "px_rpc_send L pzd m v = (rc, u)" for m rc u v
    using that by (auto simp: px_rpc_send_def split: if_splits dest: send_frames_more)
  obtain ok v where v: "alloc L (sizeof_clear + length idn + length mdt + 2) s = (ok, v)" "world.more v = world.more s"
    by (simp add: alloc_def Let_def)
  obtain rc u where u: "px_rpc_send L pzd (enc_clear (cl_clear_pack mdt idn i)) v = (rc, u)" by force
  show ?thesis
    using pzd v u send [OF u] ack [of u] by (simp add: px_changelog_clear_def get_pzd_def split: res.splits)
qed

lemma px_inv_world:
  assumes "world.more t = world.more s" "px_inv s"
  shows "px_inv t \<and> px_pending L t = px_pending L s"
proof -
  have t: "ccc_ptr t = ccc_ptr s" "m_bufs t = m_bufs s" "cl_live t = cl_live s" "ccc_ops t = ccc_ops s"
      "m_buf_brk t = m_buf_brk s"
    using assms(1) by (cases s, cases t, simp)+
  then have "rec_at L t = rec_at L s" by (intro ext) (simp add: rec_at_def split: rec_ref.splits)
  with t assms(2) show ?thesis by (simp add: px_inv_def px_pending_def split: option.splits)
qed

subsection \<open>A source whose records are acknowledged\<close>

locale acked_source = record_source +
  fixes acknowledge :: "64 word \<Rightarrow> 'a \<Rightarrow> (int, 'a) res"
  assumes acknowledge_kept:
    "inv s \<Longrightarrow> case acknowledge i s of
       Ok _ t \<Rightarrow> inv t \<and> pending t = pending s | Bad f t \<Rightarrow> f = No_return"
begin

text \<open>One turn of a loop that receives a record, acknowledges it and releases it.\<close>

lemma acked_turn:
  assumes "inv s" "pending s = x # xs"
  shows "\<exists>r t. fetch s = Ok (0, Some r) t \<and> content t r = Some x \<and>
    (\<forall>i. case acknowledge i t of
       Ok _ u \<Rightarrow> \<exists>rc v. release (Some r) u = Ok (rc, None) v \<and> inv v \<and> pending v = xs
     | Bad f u \<Rightarrow> f = No_return)"
proof -
  from fetch_pending [OF assms] obtain r t where
    t: "fetch s = Ok (0, Some r) t" "inv t" "pending t = xs" "content t r = Some x" by blast
  have "case acknowledge i t of
       Ok _ u \<Rightarrow> \<exists>rc v. release (Some r) u = Ok (rc, None) v \<and> inv v \<and> pending v = xs
     | Bad f u \<Rightarrow> f = No_return" for i
  proof (cases "acknowledge i t")
    case (Ok rc u)
    with acknowledge_kept [OF t(2), of i] release_kept [of u "Some r"] t(3) show ?thesis by auto
  next
    case (Bad f u)
    with acknowledge_kept [OF t(2), of i] show ?thesis by simp
  qed
  with t show ?thesis by blast
qed

end

interpretation proxy_acked: acked_source px_inv "px_pending L" "lcap_changelog_recv L" "lcap_changelog_free L"
    "rec_at L" sent_so_far "lcap_changelog_clear L mdt idn" for L mdt idn
proof unfold_locales
  fix s i assume inv: "px_inv s"
  then have "ccc_ptr s \<noteq> None" by (simp add: px_inv_def)
  note clear = px_clear_result [OF this, where L = L and mdt = mdt and idn = idn and i = i]
  have call: "lcap_changelog_clear L mdt idn i s = px_changelog_clear L mdt idn i s"
    by (simp add: lcap_changelog_clear_def with_ops_proxy [OF inv])
  show "case lcap_changelog_clear L mdt idn i s of
       Ok _ t \<Rightarrow> px_inv t \<and> px_pending L t = px_pending L s | Bad f t \<Rightarrow> f = No_return"
  proof (cases "px_changelog_clear L mdt idn i s")
    case (Ok rc t)
    with clear have "world.more t = world.more s" by simp
    from px_inv_world [OF this inv, of L] Ok call show ?thesis by simp
  next
    case (Bad f t)
    with clear call show ?thesis by simp
  qed
qed

interpretation direct_acked: acked_source lu_inv lu_pending "lcap_changelog_recv L" "lcap_changelog_free L"
    "rec_at L" sent_so_far "lcap_changelog_clear L mdt idn" for L mdt idn
proof unfold_locales
  fix s i assume "lu_inv s"
  then show "case lcap_changelog_clear L mdt idn i s of
       Ok _ t \<Rightarrow> lu_inv t \<and> lu_pending t = lu_pending s | Bad f t \<Rightarrow> f = No_return"
    by (simp add: lcap_changelog_clear_def with_ops_def lu_inv_def lu_changelog_clear_def lu_pending_def Let_def)
qed

subsection \<open>The loop prints what is pending\<close>

lemma tool_env_commute [simp]: "e\<lparr>tl_out := b, tl_ctx := s\<rparr> = e\<lparr>tl_ctx := s, tl_out := b\<rparr>"
  by simp

lemma rec_read_whole:
  assumes "rec_layout L" "rec_at L s r = Some x" "wire_rec L x"
  shows "rec_read L s r = Inr x"
proof (cases r)
  case (Direct b)
  with assms show ?thesis by (simp add: rec_at_def rec_read_def wire_rec_def)
next
  case (In_buf a off)
  with assms(2) obtain buf where buf: "m_bufs s a = Some buf"
      and x: "x = take (wire_len L (drop off buf)) (drop off buf)" by (auto simp: rec_at_def)
  have x_len: "sizeof_changelog_rec L \<le> length x" "length x = wire_len L x"
    using assms(3) by (simp_all add: wire_rec_def)
  have "drop off buf = x @ drop (wire_len L (drop off buf)) (drop off buf)"
    unfolding x by (rule append_take_drop_id [symmetric])
  with wire_len_append [OF assms(1) x_len(1)] have "wire_len L (drop off buf) = length x" "length x \<le> length (drop off buf)"
    using x_len(2) by (metis, metis length_append le_add1)
  with In_buf buf x x_len(1) show ?thesis by (simp add: rec_read_def)
qed

text \<open>
  The turns of the client's loop, told by what it calls. A turn receives the next record, prints its
  line, calls \<^verbatim>\<open>lcap_changelog_clear\<close> with the MDT, the reader and the index of that record, and
  releases it: \<open>cleared_turns\<close> says that the records \<open>xs\<close> were dealt with so, none of these calls
  failing, and \<open>stopping_turn\<close> how a turn ends the loop once its record is printed.
\<close>

inductive cleared_turns :: "libs \<Rightarrow> rec_fields \<Rightarrow> bytes \<Rightarrow> bytes list \<Rightarrow> tool_env \<Rightarrow> tool_env \<Rightarrow> bool"
  for L T mdt where
  no_turn: "cleared_turns L T mdt [] e e"
| one_turn: "lcap_changelog_recv L (tl_ctx e) = Ok (0, Some r) s \<Longrightarrow> rec_at L s r = Some x \<Longrightarrow>
    lcap_changelog_clear L mdt reader_id (cr_index L x) s = Ok rc u \<Longrightarrow> 0 \<le> rc \<Longrightarrow>
    lcap_changelog_free L (Some r) u = Ok (rc', None) v \<Longrightarrow> 0 \<le> rc' \<Longrightarrow>
    cleared_turns L T mdt xs \<lparr>tl_ctx = v, tl_out = tl_out e @ record_line L T x\<rparr> t \<Longrightarrow>
    cleared_turns L T mdt (x # xs) e t"

inductive stopping_turn ::
    "libs \<Rightarrow> rec_fields \<Rightarrow> bytes \<Rightarrow> bytes \<Rightarrow> tool_env \<Rightarrow> (int + int, tool_env) res \<Rightarrow> bool"
  for L T mdt x e where
  clear_refused: "lcap_changelog_recv L (tl_ctx e) = Ok (0, Some r) s \<Longrightarrow> rec_at L s r = Some x \<Longrightarrow>
    lcap_changelog_clear L mdt reader_id (cr_index L x) s = Ok rc u \<Longrightarrow> rc < 0 \<Longrightarrow>
    stopping_turn L T mdt x e (Ok (Inl 1) \<lparr>tl_ctx = u, tl_out = tl_out e @ record_line L T x\<rparr>)"
| clear_unanswered: "lcap_changelog_recv L (tl_ctx e) = Ok (0, Some r) s \<Longrightarrow> rec_at L s r = Some x \<Longrightarrow>
    lcap_changelog_clear L mdt reader_id (cr_index L x) s = Bad No_return u \<Longrightarrow>
    stopping_turn L T mdt x e (Bad No_return \<lparr>tl_ctx = u, tl_out = tl_out e @ record_line L T x\<rparr>)"
| free_refused: "lcap_changelog_recv L (tl_ctx e) = Ok (0, Some r) s \<Longrightarrow> rec_at L s r = Some x \<Longrightarrow>
    lcap_changelog_clear L mdt reader_id (cr_index L x) s = Ok rc u \<Longrightarrow> 0 \<le> rc \<Longrightarrow>
    lcap_changelog_free L (Some r) u = Ok (rc', None) v \<Longrightarrow> rc' < 0 \<Longrightarrow>
    stopping_turn L T mdt x e (Ok (Inl 1) \<lparr>tl_ctx = v, tl_out = tl_out e @ record_line L T x\<rparr>)"

lemma cleared_turns_out:
  "cleared_turns L T mdt xs e t \<Longrightarrow> tl_out t = tl_out e @ concat (map (record_line L T) xs)"
  by (induction rule: cleared_turns.induct) simp_all

locale tool_client =
  acked_source inv pending "lcap_changelog_recv L" "lcap_changelog_free L" "rec_at L" sent
    "lcap_changelog_clear L mdt reader_id"
  for inv pending L sent mdt
begin

text \<open>A run of the loop over the records pending: all of them dealt with, or the turn that stops it.\<close>

lemma loop_pending:
  assumes "rec_layout L" "inv (tl_ctx e)" "pending (tl_ctx e) = xs" "\<forall>r \<in> set xs. wire_rec L r"
  shows "\<exists>t. cleared_turns L T mdt xs e t \<and> inv (tl_ctx t) \<and> pending (tl_ctx t) = [] \<and>
      tool_loop (length xs + k) L T mdt e = tool_loop k L T mdt t \<or>
    (\<exists>ys x zs. xs = ys @ x # zs \<and> cleared_turns L T mdt ys e t \<and>
      stopping_turn L T mdt x t (tool_loop (length xs + k) L T mdt e))"
  using assms(2-)
proof (induction xs arbitrary: e)
  case Nil
  then show ?case by (intro exI [of _ e]) (simp add: no_turn)
next
  case (Cons x xs)
  obtain r s where s: "lcap_changelog_recv L (tl_ctx e) = Ok (0, Some r) s" "rec_at L s r = Some x"
    "\<forall>i. case lcap_changelog_clear L mdt reader_id i s of
       Ok _ u \<Rightarrow> \<exists>rc v. lcap_changelog_free L (Some r) u = Ok (rc, None) v \<and> inv v \<and> pending v = xs
     | Bad f u \<Rightarrow> f = No_return"
    using acked_turn [OF Cons.prems(1,2)] by blast
  have rd: "rec_read L s r = Inr x" using rec_read_whole [OF assms(1) s(2)] Cons.prems(3) by simp
  let ?out = "tl_out e @ record_line L T x" and ?run = "tool_loop (length (x # xs) + k) L T mdt e"
  let ?clear = "lcap_changelog_clear L mdt reader_id (cr_index L x) s"
  note after = spec [OF s(3), of "cr_index L x"]
  have first: "\<exists>t. (\<exists>ys z zs. x # xs = ys @ z # zs \<and> cleared_turns L T mdt ys e t \<and> stopping_turn L T mdt z t ?run)"
    if "stopping_turn L T mdt x e ?run"
    by (rule exI [of _ e], rule exI [of _ "[]"]) (use that no_turn in auto)
  show ?case
  proof (cases ?clear)
    case (Bad f u)
    then have f: "f = No_return" using after by simp
    then have "?run = Bad No_return \<lparr>tl_ctx = u, tl_out = ?out\<rparr>"
      using s(1) rd Bad by (cases e) (simp add: on_cl_def)
    with clear_unanswered [OF s(1,2) Bad [unfolded f]] first show ?thesis by auto
  next
    case (Ok rc u)
    obtain rc' v where v: "lcap_changelog_free L (Some r) u = Ok (rc', None) v" "inv v" "pending v = xs"
      using after Ok by auto
    let ?e = "\<lparr>tl_ctx = v, tl_out = ?out\<rparr>"
    have e: "e\<lparr>tl_ctx := w, tl_out := b\<rparr> = \<lparr>tl_ctx = w, tl_out = b\<rparr>" for w b by (cases e) simp
    have step: "?run =
        (if rc < 0 then Ok (Inl 1) \<lparr>tl_ctx = u, tl_out = ?out\<rparr>
         else if rc' < 0 then Ok (Inl 1) ?e else tool_loop (length xs + k) L T mdt ?e)"
      using s(1) rd Ok v(1) by (simp add: on_cl_def e)
    consider "rc < 0" | "0 \<le> rc" "rc' < 0" | "0 \<le> rc" "0 \<le> rc'" by linarith
    then show ?thesis
    proof cases
      case 1
      with clear_refused [OF s(1,2) Ok 1] step first show ?thesis by auto
    next
      case 2
      with free_refused [OF s(1,2) Ok 2(1) v(1) 2(2)] step first show ?thesis by auto
    next
      case 3
      have turn: "cleared_turns L T mdt (x # ys) e t" if "cleared_turns L T mdt ys ?e t" for ys t
        by (rule one_turn [OF s(1,2) Ok 3(1) v(1) 3(2) that])
      have run: "?run = tool_loop (length xs + k) L T mdt ?e" using step 3 by simp
      have "\<forall>r \<in> set xs. wire_rec L r" using Cons.prems(3) by simp
      from Cons.IH [of ?e, OF _ _ this] v obtain t where
        "cleared_turns L T mdt xs ?e t \<and> inv (tl_ctx t) \<and> pending (tl_ctx t) = [] \<and> ?run = tool_loop k L T mdt t \<or>
         (\<exists>ys z zs. xs = ys @ z # zs \<and> cleared_turns L T mdt ys ?e t \<and> stopping_turn L T mdt z t ?run)"
        unfolding run by auto
      then show ?thesis
      proof
        assume "cleared_turns L T mdt xs ?e t \<and> inv (tl_ctx t) \<and> pending (tl_ctx t) = [] \<and> ?run = tool_loop k L T mdt t"
        with turn show ?thesis by blast
      next
        assume "\<exists>ys z zs. xs = ys @ z # zs \<and> cleared_turns L T mdt ys ?e t \<and> stopping_turn L T mdt z t ?run"
        then obtain ys z zs where "xs = ys @ z # zs" "cleared_turns L T mdt ys ?e t" "stopping_turn L T mdt z t ?run"
          by blast
        with turn have "x # xs = (x # ys) @ z # zs" "cleared_turns L T mdt (x # ys) e t" by simp_all
        with \<open>stopping_turn L T mdt z t ?run\<close> show ?thesis by blast
      qed
    qed
  qed
qed

end

interpretation proxy_tool: tool_client px_inv "px_pending L" L sent_so_far mdt for L mdt
  by unfold_locales

interpretation direct_tool: tool_client lu_inv lu_pending L sent_so_far mdt for L mdt
  by unfold_locales

text \<open>(C17) The command line client deals with the records its context holds one after the other, in
  order: it prints the line of a record in the documented format, then calls
  \<^verbatim>\<open>lcap_changelog_clear\<close> for the MDT of its argument, the reader \<^verbatim>\<open>cl1\<close> and the index of that
  record, then releases it, and only then takes the next. So a run of the loop over the pending
  records either comes to the point where none is pending, every one of them printed once and
  its CLEAR and its release accepted, or it stops at some record, the ones before it
  printed and cleared, with this one printed too and nothing after it: \<^verbatim>\<open>lcap_changelog_clear\<close> failed
  or \<^verbatim>\<open>lcap_changelog_free\<close> did, and the client returns 1, or the acknowledgement of the CLEAR
  never came. It holds through the daemon and in direct mode.\<close>

theorem tool_prints_in_order:
  assumes "rec_layout L" "px_inv (tl_ctx e) \<and> P = px_pending L \<or> lu_inv (tl_ctx e) \<and> P = lu_pending"
    "\<forall>r \<in> set (P (tl_ctx e)). wire_rec L r"
  shows "let xs = P (tl_ctx e); run = tool_loop (length xs + k) L T mdt e
    in \<exists>t. cleared_turns L T mdt xs e t \<and> tl_out t = tl_out e @ concat (map (record_line L T) xs) \<and>
        P (tl_ctx t) = [] \<and> run = tool_loop k L T mdt t \<or>
      (\<exists>ys x zs. xs = ys @ x # zs \<and> cleared_turns L T mdt ys e t \<and>
        tl_out t = tl_out e @ concat (map (record_line L T) ys) \<and> stopping_turn L T mdt x t run)"
proof -
  consider "px_inv (tl_ctx e)" "P = px_pending L" | "lu_inv (tl_ctx e)" "P = lu_pending"
    using assms(2) by blast
  then show ?thesis
  proof cases
    case 1
    from proxy_tool.loop_pending [OF assms(1) 1(1) refl, of T mdt k] assms(3) cleared_turns_out show ?thesis
      unfolding 1(2) Let_def by meson
  next
    case 2
    from direct_tool.loop_pending [OF assms(1) 2(1) refl, of T mdt k] assms(3) cleared_turns_out show ?thesis
      unfolding 2(2) Let_def by meson
  qed
qed

definition demo_fields :: rec_fields where
  "demo_fields = (let fid = \<lparr>f_seq = 1, f_oid = 2, f_ver = 0\<rparr> in
     \<lparr>cr_time = (\<lambda>_. push_bit 30 100000000 + 42), cr_type = (\<lambda>_. 1), cr_flags = (\<lambda>_. 0), cr_tfid = (\<lambda>_. fid),
      cr_pfid = (\<lambda>_. fid), cr_sfid = (\<lambda>_. fid), cr_spfid = (\<lambda>_. fid), changelog_type2str = (\<lambda>_. str ''CREAT''),
      changelog_rec_jobid = (\<lambda>_. []), changelog_rec_sname = (\<lambda>_. []), changelog_rec_snamelen = (\<lambda>_. 0),
      CLF_FLAGMASK = 4095, CLF_JOBID = 4096, CLF_RENAME = 8192, DFID = (\<lambda>_. str ''[0x1:0x2:0x0]'')\<rparr>)"

lemma demo_wire_recs: "\<forall>r \<in> set [wire_1, wire_2]. wire_rec demo_libs r"
  using demo_batch_ok by (simp add: batch_ok_def)

lemma demo_direct_pending: "lu_pending demo_direct = [wire_1, wire_2]" "lu_inv demo_direct"
  by (simp_all add: demo_direct_def lu_pending_def lu_inv_def demo_client_ctx_def)

theorem tool_prints_in_order_witness:
  "let run = tool_loop (2 + 1) demo_libs demo_fields [77, 48] \<lparr>tl_ctx = demo_direct, tl_out = []\<rparr>
   in \<exists>t. cleared_turns demo_libs demo_fields [77, 48] [wire_1, wire_2] \<lparr>tl_ctx = demo_direct, tl_out = []\<rparr> t \<and>
        tl_out t = record_line demo_libs demo_fields wire_1 @ record_line demo_libs demo_fields wire_2 \<and>
        lu_pending (tl_ctx t) = [] \<and> run = tool_loop 1 demo_libs demo_fields [77, 48] t \<or>
      (\<exists>ys x zs. [wire_1, wire_2] = ys @ x # zs \<and>
        cleared_turns demo_libs demo_fields [77, 48] ys \<lparr>tl_ctx = demo_direct, tl_out = []\<rparr> t \<and>
        tl_out t = concat (map (record_line demo_libs demo_fields) ys) \<and>
        stopping_turn demo_libs demo_fields [77, 48] x t run)"
proof -
  let ?e = "\<lparr>tl_ctx = demo_direct, tl_out = []\<rparr>"
  have "px_inv (tl_ctx ?e) \<and> lu_pending = px_pending demo_libs \<or> lu_inv (tl_ctx ?e) \<and> lu_pending = lu_pending"
    using demo_direct_pending by simp
  from tool_prints_in_order [OF demo_layout this, of 1 demo_fields "[77, 48]"] show ?thesis
    using demo_wire_recs by (simp only: Let_def demo_direct_pending tool_env.simps length_Cons list.size Suc_1
        numeral_2_eq_2 append.left_neutral One_nat_def add_0 list.map concat.simps append_Nil2)
qed

subsection \<open>A run in direct mode\<close>

text \<open>The records a sequence of calls cleared: device, reader and record number, in order.\<close>

definition cleared :: "history \<Rightarrow> (bytes option \<times> bytes option \<times> int) list" where
  "cleared h = rev (concat (map (\<lambda>e. case e of Ev_ll_clear d i n rc \<Rightarrow> [(d, i, n)] | _ \<Rightarrow> []) h))"

lemma cleared_simps [simp]:
  "cleared (Ev_ll_clear d i n rc # h) = cleared h @ [(d, i, n)]"
  "cleared (Ev_ll_recv x # h) = cleared h" "cleared (Ev_ll_free b # h) = cleared h"
  "cleared (Ev_ll_start f d start rc # h) = cleared h" "cleared (Ev_ll_fini # h) = cleared h"
  "cleared (Ev_alloc sz ok # h) = cleared h"
  by (simp_all add: cleared_def)

definition direct_calls_ok :: "libs \<Rightarrow> bool" where
  "direct_calls_ok L \<longleftrightarrow> (\<forall>h f d n. lib_ll_start L h f d n = 0) \<and> (\<forall>h. lib_ll_fini L h = 0 \<and> 0 \<le> lib_ll_free L h) \<and>
     (\<forall>h d i n. 0 \<le> lib_ll_clear L h d i n)"

definition changelog_ends :: "(int + bytes) list \<Rightarrow> bool" where
  "changelog_ends xs \<longleftrightarrow> (case xs of [] \<Rightarrow> True | x # _ \<Rightarrow> x = Inl 1)"

lemma direct_turn:
  assumes "direct_calls_ok L" "lu_inv (tl_ctx e)" "cl_changelog (tl_ctx e) = Inr r # xs" "wire_rec L r"
  shows "\<exists>s. tool_loop (Suc k) L T mdt e = tool_loop k L T mdt (e\<lparr>tl_ctx := s, tl_out := tl_out e @ record_line L T r\<rparr>) \<and>
    lu_inv s \<and> cl_changelog s = xs \<and> set (w_log (tl_ctx e)) \<subseteq> set (w_log s) \<and>
    cleared (w_log s) = cleared (w_log (tl_ctx e)) @ [(Some mdt, Some reader_id, sint (cr_index L r))]"
proof -
  have "rec_read L s (Direct r) = Inr r" for s using assms(4) by (simp add: rec_read_def wire_rec_def)
  moreover have "\<not> lib_ll_clear L h d i n < 0" "\<not> lib_ll_free L h < 0" for h d i n
    using assms(1) by (simp_all add: direct_calls_ok_def not_less)
  ultimately show ?thesis
    using assms(2,3)
    by (simp add: on_cl_def lcap_changelog_recv_def lcap_changelog_clear_def lcap_changelog_free_def with_ops_def
        lu_inv_def lu_changelog_recv_def lu_changelog_clear_def lu_changelog_free_def Let_def)
      (rule exI, rule conjI, rule refl, auto)
qed

lemma direct_loop:
  assumes "direct_calls_ok L" "lu_inv (tl_ctx e)" "cl_changelog (tl_ctx e) = map Inr rs @ tail" "changelog_ends tail"
    "\<forall>r \<in> set rs. wire_rec L r"
  shows "\<exists>t. tool_loop (length rs + Suc k) L T mdt e = Ok (Inr 1) t \<and> lu_inv (tl_ctx t) \<and>
    tl_out t = tl_out e @ concat (map (record_line L T) rs) \<and> set (w_log (tl_ctx e)) \<subseteq> set (w_log (tl_ctx t)) \<and>
    cleared (w_log (tl_ctx t)) = cleared (w_log (tl_ctx e)) @ map (\<lambda>r. (Some mdt, Some reader_id, sint (cr_index L r))) rs"
  using assms(2,3,5)
proof (induction rs arbitrary: e)
  case Nil
  then show ?case
    using assms(4)
    by (auto simp: changelog_ends_def on_cl_def lcap_changelog_recv_def with_ops_def lu_inv_def lu_changelog_recv_def
        split: list.splits)
next
  case (Cons r rs)
  obtain s where s: "tool_loop (Suc (length rs + Suc k)) L T mdt e =
      tool_loop (length rs + Suc k) L T mdt (e\<lparr>tl_ctx := s, tl_out := tl_out e @ record_line L T r\<rparr>)"
    "lu_inv s" "cl_changelog s = map Inr rs @ tail" "set (w_log (tl_ctx e)) \<subseteq> set (w_log s)"
    "cleared (w_log s) = cleared (w_log (tl_ctx e)) @ [(Some mdt, Some reader_id, sint (cr_index L r))]"
    using direct_turn [OF assms(1) Cons.prems(1), of r "map Inr rs @ tail" "length rs + Suc k" T mdt] Cons.prems(2,3)
    by auto
  from Cons.IH [of "e\<lparr>tl_ctx := s, tl_out := tl_out e @ record_line L T r\<rparr>"] s(2,3) Cons.prems(3)
  obtain t where t: "tool_loop (length rs + Suc k) L T mdt (e\<lparr>tl_ctx := s, tl_out := tl_out e @ record_line L T r\<rparr>) =
      Ok (Inr 1) t" "lu_inv (tl_ctx t)"
    "tl_out t = (tl_out e @ record_line L T r) @ concat (map (record_line L T) rs)" "set (w_log s) \<subseteq> set (w_log (tl_ctx t))"
    "cleared (w_log (tl_ctx t)) = cleared (w_log s) @ map (\<lambda>r. (Some mdt, Some reader_id, sint (cr_index L r))) rs"
    by auto
  have "length (r # rs) + Suc k = Suc (length rs + Suc k)" by simp
  with s t show ?case by (intro exI [of _ t]) (auto simp del: tool_loop.simps)
qed

lemma tool_command_line:
  assumes "case mdt of [] \<Rightarrow> True | c # _ \<Rightarrow> c \<noteq> 45"
  shows "getopt_all tool_opts [str ''-d'', mdt] = ([(100, None)], [mdt])"
  using assms by (auto simp: str_def tool_opts_def split: list.splits)

text \<open>(C40) A whole run of the command line client in direct mode, when it gets memory and Lustre's calls succeed: it opens the changelog with the
  blocking and job identifier flags, prints every record up to the end of the changelog in order,
  clears each of them as reader \<^verbatim>\<open>cl1\<close>, closes the changelog and returns 0.\<close>

theorem tool_direct_run:
  assumes "allocs_ok L" "direct_calls_ok L" "case mdt of [] \<Rightarrow> True | c # _ \<Rightarrow> c \<noteq> 45"
    "cl_changelog (tl_ctx e) = map Inr rs @ tail" "changelog_ends tail" "\<forall>r \<in> set rs. wire_rec L r"
  shows "\<exists>t. lcap_main (length rs + Suc k) L T [str ''-d'', mdt] e = Ok 0 t \<and>
    tl_out t = tl_out e @ concat (map (record_line L T) rs) \<and>
    cleared (w_log (tl_ctx t)) = cleared (w_log (tl_ctx e)) @ map (\<lambda>r. (Some mdt, Some reader_id, sint (cr_index L r))) rs \<and>
    Ev_ll_start (CHANGELOG_FLAG_BLOCK L OR CHANGELOG_FLAG_JOBID L) (Some mdt) 0 0 \<in> set (w_log (tl_ctx t)) \<and>
    hd (w_log (tl_ctx t)) = Ev_ll_fini"
proof -
  let ?start = "Ev_ll_start (CHANGELOG_FLAG_BLOCK L OR CHANGELOG_FLAG_JOBID L) (Some mdt) 0 0"
  define s where "s = (tl_ctx e)\<lparr>w_log := ?start # Ev_alloc sizeof_cl_ctx True # w_log (tl_ctx e), cl_live := True,
    ccc_ptr := None, ccc_ll := True, ccc_ops := Some cl_ops_null\<rparr>"
  have flags: "flags_translate L 14 = CHANGELOG_FLAG_BLOCK L OR CHANGELOG_FLAG_JOBID L"
    by (simp add: flags_translate_def)
  have start: "lcap_changelog_start L 14 (Some mdt) 0 (tl_ctx e) = Ok 0 s"
    using assms(1,2) by (simp add: lcap_changelog_start_def alloc_def allocs_ok_def lu_changelog_start_def flags
        direct_calls_ok_def s_def)
  let ?e = "e\<lparr>tl_ctx := s\<rparr>"
  have "lu_inv (tl_ctx ?e)" "cl_changelog (tl_ctx ?e) = map Inr rs @ tail"
    using assms(4) by (simp_all add: s_def lu_inv_def)
  from direct_loop [OF assms(2) this assms(5,6), of k T mdt] obtain t where
    t: "tool_loop (length rs + Suc k) L T mdt ?e = Ok (Inr 1) t" "lu_inv (tl_ctx t)"
      "tl_out t = tl_out e @ concat (map (record_line L T) rs)" "set (w_log s) \<subseteq> set (w_log (tl_ctx t))"
      "cleared (w_log (tl_ctx t)) = cleared (w_log s) @ map (\<lambda>r. (Some mdt, Some reader_id, sint (cr_index L r))) rs"
    by auto
  define u where "u = (tl_ctx t)\<lparr>w_log := Ev_ll_fini # w_log (tl_ctx t), ccc_ll := False\<rparr>"
  have fini: "lcap_changelog_fini L (tl_ctx t) = Ok 0 u"
    using t(2) assms(2) by (simp add: lcap_changelog_fini_def with_ops_def lu_inv_def lu_changelog_fini_def
        direct_calls_ok_def u_def)
  have "lcap_main (length rs + Suc k) L T [str ''-d'', mdt] e = Ok 0 (t\<lparr>tl_ctx := u\<rparr>)"
    unfolding lcap_main_def tool_command_line [OF assms(3)]
    using start t(1) fini by (simp add: on_cl_def str_def del: tool_loop.simps)
  moreover have "?start \<in> set (w_log (tl_ctx t))" "cleared (w_log s) = cleared (w_log (tl_ctx e))"
    using t(4) by (auto simp: s_def)
  ultimately show ?thesis using t by (intro exI [of _ "t\<lparr>tl_ctx := u\<rparr>"]) (simp add: u_def)
qed

lemma demo_line:
  "record_line demo_libs demo_fields wire_1 = str ''0 01CREAT 09:46:40.000042 1973.03.03 0x0 t=[0x1:0x2:0x0]'' @ [10]"
proof -
  have "gmtime_r 100000000 = \<lparr>tm_year = 1973, tm_mon = 3, tm_mday = 3, tm_hour = 9, tm_min = 46, tm_sec = 40\<rparr>"
    by (simp add: gmtime_r_def gm_year.simps leap_year_def)
  moreover have "cr_time demo_fields wire_1 = 107374182400000042" by (simp add: demo_fields_def Let_def)
  moreover have "drop_bit 30 (107374182400000042 :: 64 word) = 100000000" "107374182400000042 AND (2 ^ 30 - 1 :: 64 word) = 42"
    by code_simp+
  moreover have "cr_index demo_libs wire_1 = 0" "cr_namelen demo_libs wire_1 = 0" by code_simp+
  moreover have "replicate 4 (48 :: byte) = [48, 48, 48, 48]" by (simp add: numeral_eq_Suc)
  ultimately show ?thesis
    by (simp add: record_line_def Let_def demo_fields_def zero_padded_def left_padded_def show_nat.simps show_hex.simps str_def)
qed

theorem tool_direct_run_witness:
  "\<exists>t. lcap_main (2 + Suc 0) demo_libs demo_fields [str ''-d'', [77, 48]]
       \<lparr>tl_ctx = demo_direct\<lparr>cl_changelog := [Inr wire_1, Inr wire_2, Inl 1]\<rparr>, tl_out = []\<rparr> = Ok 0 t \<and>
     take 57 (tl_out t) = str ''0 01CREAT 09:46:40.000042 1973.03.03 0x0 t=[0x1:0x2:0x0]'' @ [10] \<and>
     cleared (w_log (tl_ctx t)) = [(Some [77, 48], Some (str ''cl1''), 0), (Some [77, 48], Some (str ''cl1''), 0)]"
proof -
  let ?e = "\<lparr>tl_ctx = demo_direct\<lparr>cl_changelog := [Inr wire_1, Inr wire_2, Inl 1]\<rparr>, tl_out = []\<rparr>"
  have "direct_calls_ok demo_libs" by (simp add: direct_calls_ok_def demo_libs_def)
  moreover have "case [77, 48 :: byte] of [] \<Rightarrow> True | c # _ \<Rightarrow> c \<noteq> 45" by simp
  moreover have "cl_changelog (tl_ctx ?e) = map Inr [wire_1, wire_2] @ [Inl 1]" "changelog_ends [Inl 1]"
    by (simp_all add: changelog_ends_def)
  ultimately obtain t where t: "lcap_main (2 + Suc 0) demo_libs demo_fields [str ''-d'', [77, 48]] ?e = Ok 0 t"
    "tl_out t = record_line demo_libs demo_fields wire_1 @ record_line demo_libs demo_fields wire_2"
    "cleared (w_log (tl_ctx t)) = cleared (w_log (tl_ctx ?e)) @
       map (\<lambda>r. (Some [77, 48], Some reader_id, sint (cr_index demo_libs r))) [wire_1, wire_2]"
    using tool_direct_run [of demo_libs "[77, 48]" ?e "[wire_1, wire_2]" "[Inl 1]" 0 demo_fields] demo_wire_recs
    by (auto simp: numeral_2_eq_2)
  moreover have "cr_index demo_libs wire_1 = 0" "cr_index demo_libs wire_2 = 0" by code_simp+
  ultimately show ?thesis
    by (intro exI [of _ t]) (simp add: demo_line reader_id_def demo_direct_def demo_client_ctx_def cleared_def str_def)
qed

end
