(* ===== verification/Modules.thy ===== *)
theory Modules
  imports Log
begin

text \<open>
  \<^verbatim>\<open>src/lcapd/modules.c\<close> and \<^verbatim>\<open>src/lcapd/modules.h\<close>: loading a processing module from a shared
  library, unloading it, and the calls of its functions. No Makefile compiles these two files and the
  header they include is not in the repository, so the structures have the fields the code uses.

  The dynamic linker is a parameter: what \<^verbatim>\<open>dlopen\<close>, \<^verbatim>\<open>dlsym\<close> and \<^verbatim>\<open>dlclose\<close> give for each argument. Its
  state is the reference count of each library and the error \<^verbatim>\<open>dlerror\<close> will return once. Functions
  of the module are addresses, and what the code at an address does is a parameter of the call; calling
  NULL or a function of a library that was closed is a fault. The results a function stores through a
  pointer are returned beside its status.
\<close>

subsection \<open>Structures\<close>

record cpm_operations =
  cpo_name :: ptr
  cpo_init :: ptr
  cpo_destroy :: ptr
  cpo_rec_enqueue :: ptr
  cpo_rec_dequeue :: ptr
  cpo_set_ack :: ptr
  cpo_get_ack :: ptr

record lcap_proc_module =
  cpm_modname :: "bytes option" \<comment> \<open>\<^verbatim>\<open>cpm_name\<close>\<close>
  cpm_dlh :: ptr
  cpm_ops :: cpm_operations

definition cpm_zero :: lcap_proc_module where
  "cpm_zero = \<lparr>cpm_modname = None, cpm_dlh = None, cpm_ops = \<lparr>cpo_name = None, cpo_init = None, cpo_destroy = None,
     cpo_rec_enqueue = None, cpo_rec_dequeue = None, cpo_set_ack = None, cpo_get_ack = None\<rparr>\<rparr>"

record mod_ctx = world +
  ccf_module :: "bytes option"
  cc_module :: lcap_proc_module
  cc_loaded :: bool
  dl_refs :: "addr \<Rightarrow> nat"
  dl_pending :: bool
  mc_level :: nat \<comment> \<open>\<^verbatim>\<open>CurrentLogLevel\<close>\<close>

record dl_env =
  dl_open :: "bytes option \<Rightarrow> ptr"
  dl_sym :: "addr \<Rightarrow> bytes \<Rightarrow> ptr \<times> bool" \<comment> \<open>the address, and whether an error was recorded\<close>
  dl_close_fails :: "addr \<Rightarrow> bool"

type_synonym 'a mod_op = "mod_ctx \<Rightarrow> ('a, mod_ctx) res"

subsection \<open>The dynamic linker\<close>

definition dlopen :: "dl_env \<Rightarrow> bytes option \<Rightarrow> mod_ctx \<Rightarrow> ptr \<times> mod_ctx" where
  "dlopen D name s =
     (case dl_open D name of
        None \<Rightarrow> (None, s\<lparr>dl_pending := True\<rparr>)
      | Some h \<Rightarrow> (Some h, s\<lparr>dl_refs := (dl_refs s)(h := dl_refs s h + 1)\<rparr>))"

definition dlsym :: "dl_env \<Rightarrow> addr \<Rightarrow> bytes \<Rightarrow> mod_ctx \<Rightarrow> ptr \<times> mod_ctx" where
  "dlsym D h name s = (case dl_sym D h name of (p, err) \<Rightarrow> (p, s\<lparr>dl_pending := dl_pending s \<or> err\<rparr>))"

definition dlerror :: "mod_ctx \<Rightarrow> bool \<times> mod_ctx" where
  "dlerror s = (dl_pending s, s\<lparr>dl_pending := False\<rparr>)"

definition dlclose :: "dl_env \<Rightarrow> addr \<Rightarrow> mod_ctx \<Rightarrow> mod_ctx" where
  "dlclose D h s = s\<lparr>dl_refs := (dl_refs s)(h := dl_refs s h - 1), dl_pending := dl_pending s \<or> dl_close_fails D h\<rparr>"

subsection \<open>Loading\<close>

definition mod_symbol :: "dl_env \<Rightarrow> addr \<Rightarrow> bytes \<Rightarrow> mod_ctx \<Rightarrow> (int \<times> ptr) \<times> mod_ctx" where
  "mod_symbol D dlhandle symname s =
     (case dlsym D dlhandle symname s of
        (p, s) \<Rightarrow> (case dlerror s of (err, s) \<Rightarrow> (if err then (- EINVAL, None) else (0, p), s)))"

text \<open>The symbols in the order they are looked up, and where each is stored.\<close>

definition mod_symbols :: "(bytes \<times> (ptr \<Rightarrow> cpm_operations \<Rightarrow> cpm_operations)) list" where
  "mod_symbols =
     [(str ''lcap_module_name'', \<lambda>p m. m\<lparr>cpo_name := p\<rparr>),
      (str ''lcap_module_init'', \<lambda>p m. m\<lparr>cpo_init := p\<rparr>),
      (str ''lcap_module_destroy'', \<lambda>p m. m\<lparr>cpo_destroy := p\<rparr>),
      (str ''lcap_module_rec_enqueue'', \<lambda>p m. m\<lparr>cpo_rec_enqueue := p\<rparr>),
      (str ''lcap_module_rec_dequeue'', \<lambda>p m. m\<lparr>cpo_rec_dequeue := p\<rparr>),
      (str ''lcap_module_set_ack'', \<lambda>p m. m\<lparr>cpo_set_ack := p\<rparr>),
      (str ''lcap_module_get_ack'', \<lambda>p m. m\<lparr>cpo_get_ack := p\<rparr>)]"

definition set_ops :: "(cpm_operations \<Rightarrow> cpm_operations) \<Rightarrow> mod_ctx \<Rightarrow> mod_ctx" where
  "set_ops f s = s\<lparr>cc_module := (cc_module s)\<lparr>cpm_ops := f (cpm_ops (cc_module s))\<rparr>\<rparr>"

fun load_symbols ::
    "dl_env \<Rightarrow> addr \<Rightarrow> (bytes \<times> (ptr \<Rightarrow> cpm_operations \<Rightarrow> cpm_operations)) list \<Rightarrow> mod_ctx \<Rightarrow> int \<times> mod_ctx" where
  "load_symbols D h [] s = (0, s)"
| "load_symbols D h ((name, put) # syms) s =
     (case mod_symbol D h name s of
        ((rc, p), s) \<Rightarrow>
          let s = set_ops (put p) s
          in if rc \<noteq> 0 then (rc, s) else load_symbols D h syms s)"

definition module_load :: "libs \<Rightarrow> dl_env \<Rightarrow> addr \<Rightarrow> bytes option \<Rightarrow> int mod_op" where
  "module_load L D dlhandle modname s =
     (case modname of
        None \<Rightarrow> Bad Null_deref s
      | Some n \<Rightarrow>
          (case alloc L (length n + 1) s of
             (ok, s) \<Rightarrow>
               let s = s\<lparr>cc_module := (cc_module s)\<lparr>cpm_modname := if ok then Some n else None, cpm_dlh := Some dlhandle\<rparr>\<rparr>
               in case load_symbols D dlhandle mod_symbols s of
                    (rc, s) \<Rightarrow> Ok rc (if rc \<noteq> 0 then s else s\<lparr>cc_loaded := True\<rparr>)))"

text \<open>The arguments of an error message, here \<^verbatim>\<open>dlerror ()\<close>, are evaluated when errors are logged.\<close>

definition lcap_module_load_external :: "libs \<Rightarrow> dl_env \<Rightarrow> int mod_op" where
  "lcap_module_load_external L D s =
     (let modname = ccf_module s
      in if cc_loaded s then Ok (- EALREADY) s
         else case dlopen D modname s of
                (None, s) \<Rightarrow> Ok (- EINVAL) (if level_code LCAPLOG_ERR \<ge> mc_level s then snd (dlerror s) else s)
              | (Some h, s) \<Rightarrow>
                  bindR (module_load L D h modname s) (\<lambda>rc s.
                  if rc \<noteq> 0 then Ok rc (dlclose D h s) else Ok 0 (s\<lparr>cc_loaded := True\<rparr>)))"

definition lcap_module_unload_external :: "dl_env \<Rightarrow> int mod_op" where
  "lcap_module_unload_external D s =
     (if \<not> cc_loaded s then Ok 0 s
      else case cpm_dlh (cc_module s) of
             None \<Rightarrow> Bad Null_deref s
           | Some h \<Rightarrow> Ok 0 ((dlclose D h s)\<lparr>cc_module := cpm_zero, cc_loaded := False\<rparr>))"

subsection \<open>Calls of the module\<close>

definition cpm_call :: "(cpm_operations \<Rightarrow> ptr) \<Rightarrow> (addr \<Rightarrow> 'r mod_op) \<Rightarrow> 'r mod_op" where
  "cpm_call sel code s =
     (case sel (cpm_ops (cc_module s)) of
        None \<Rightarrow> Bad Null_deref s
      | Some f \<Rightarrow>
          (case cpm_dlh (cc_module s) of
             None \<Rightarrow> Bad Use_after_free s
           | Some h \<Rightarrow> if dl_refs s h = 0 then Bad Use_after_free s else code f s))"

definition cpm_name :: "(addr \<Rightarrow> bytes) \<Rightarrow> bytes mod_op" where
  "cpm_name code = cpm_call cpo_name (\<lambda>f s. Ok (code f) s)"

definition cpm_init :: "(addr \<Rightarrow> (int \<times> 'p) mod_op) \<Rightarrow> (int \<times> 'p) mod_op" where
  "cpm_init code = cpm_call cpo_init code"

definition cpm_destroy :: "(addr \<Rightarrow> 'p \<Rightarrow> int mod_op) \<Rightarrow> 'p \<Rightarrow> int mod_op" where
  "cpm_destroy code mod_private = cpm_call cpo_destroy (\<lambda>f. code f mod_private)"

definition cpm_rec_enqueue :: "(addr \<Rightarrow> 'p \<Rightarrow> 'rec \<Rightarrow> int mod_op) \<Rightarrow> 'p \<Rightarrow> 'rec \<Rightarrow> int mod_op" where
  "cpm_rec_enqueue code mod_private r = cpm_call cpo_rec_enqueue (\<lambda>f. code f mod_private r)"

definition cpm_rec_dequeue :: "(addr \<Rightarrow> 'p \<Rightarrow> (int \<times> 'rec) mod_op) \<Rightarrow> 'p \<Rightarrow> (int \<times> 'rec) mod_op" where
  "cpm_rec_dequeue code mod_private = cpm_call cpo_rec_dequeue (\<lambda>f. code f mod_private)"

definition cpm_set_ack ::
    "(addr \<Rightarrow> 'p \<Rightarrow> 'cid \<Rightarrow> bytes \<Rightarrow> int \<Rightarrow> int mod_op) \<Rightarrow> 'p \<Rightarrow> 'cid \<Rightarrow> bytes \<Rightarrow> int \<Rightarrow> int mod_op" where
  "cpm_set_ack code mod_private idn device recno =
     cpm_call cpo_set_ack (\<lambda>f. code f mod_private idn device recno)"

definition cpm_get_ack :: "(addr \<Rightarrow> 'p \<Rightarrow> bytes \<Rightarrow> (int \<times> int) mod_op) \<Rightarrow> 'p \<Rightarrow> bytes \<Rightarrow> (int \<times> int) mod_op" where
  "cpm_get_ack code mod_private device = cpm_call cpo_get_ack (\<lambda>f. code f mod_private device)"

subsection \<open>What loading does\<close>

text \<open>The library has all the symbols; a symbol that is found has an address.\<close>

definition resolves :: "dl_env \<Rightarrow> addr \<Rightarrow> bool" where
  "resolves D h \<longleftrightarrow> list_all (\<lambda>(name, put). \<not> snd (dl_sym D h name)) mod_symbols"

definition functions_exist :: "dl_env \<Rightarrow> bool" where
  "functions_exist D \<longleftrightarrow> (\<forall>h name. \<not> snd (dl_sym D h name) \<longrightarrow> fst (dl_sym D h name) \<noteq> None)"

definition module_ops :: "dl_env \<Rightarrow> addr \<Rightarrow> cpm_operations" where
  "module_ops D h =
     \<lparr>cpo_name = fst (dl_sym D h (str ''lcap_module_name'')),
      cpo_init = fst (dl_sym D h (str ''lcap_module_init'')),
      cpo_destroy = fst (dl_sym D h (str ''lcap_module_destroy'')),
      cpo_rec_enqueue = fst (dl_sym D h (str ''lcap_module_rec_enqueue'')),
      cpo_rec_dequeue = fst (dl_sym D h (str ''lcap_module_rec_dequeue'')),
      cpo_set_ack = fst (dl_sym D h (str ''lcap_module_set_ack'')),
      cpo_get_ack = fst (dl_sym D h (str ''lcap_module_get_ack''))\<rparr>"

lemma mod_symbol_eq:
  "mod_symbol D h name s =
     ((if dl_pending s \<or> snd (dl_sym D h name) then (- EINVAL, None) else (0, fst (dl_sym D h name))),
      s\<lparr>dl_pending := False\<rparr>)"
  by (cases "dl_sym D h name") (simp add: mod_symbol_def dlsym_def dlerror_def)

lemma set_ops_frame [simp]:
  "dl_refs (set_ops f s) = dl_refs s" "dl_pending (set_ops f s) = dl_pending s" "cc_loaded (set_ops f s) = cc_loaded s"
  "ccf_module (set_ops f s) = ccf_module s" "cpm_dlh (cc_module (set_ops f s)) = cpm_dlh (cc_module s)"
  "cpm_ops (cc_module (set_ops f s)) = f (cpm_ops (cc_module s))" "w_log (set_ops f s) = w_log s"
  "mc_level (set_ops f s) = mc_level s"
  by (simp_all add: set_ops_def)

lemma load_symbols_frame:
  "load_symbols D h syms s = (rc, t) \<Longrightarrow>
     dl_refs t = dl_refs s \<and> cc_loaded t = cc_loaded s \<and> ccf_module t = ccf_module s
     \<and> cpm_dlh (cc_module t) = cpm_dlh (cc_module s) \<and> (rc = 0 \<or> rc = - EINVAL)"
  by (induction D h syms s rule: load_symbols.induct) (auto simp: mod_symbol_eq Let_def split: if_splits)

lemma load_symbols_ok:
  "load_symbols D h syms s = (rc, t) \<Longrightarrow>
     rc = 0 \<longleftrightarrow> (syms = [] \<or> \<not> dl_pending s) \<and> list_all (\<lambda>(name, put). \<not> snd (dl_sym D h name)) syms"
  by (induction D h syms s rule: load_symbols.induct) (auto simp: mod_symbol_eq Let_def split: if_splits)

lemma load_symbols_ops:
  "load_symbols D h syms s = (0, t) \<Longrightarrow>
     cpm_ops (cc_module t) = fold (\<lambda>(name, put). put (fst (dl_sym D h name))) syms (cpm_ops (cc_module s))"
  by (induction D h syms s rule: load_symbols.induct) (auto simp: mod_symbol_eq Let_def split: if_splits)

lemma fold_mod_symbols: "fold (\<lambda>(name, put). put (fst (dl_sym D h name))) mod_symbols m = module_ops D h"
  by (simp add: mod_symbols_def module_ops_def)

lemma mod_symbols_ne [simp]: "mod_symbols \<noteq> []"
  by (simp add: mod_symbols_def)

lemma module_load_eq:
  obtains rc t where "module_load L D h (Some n) s = Ok rc t"
    and "rc = 0 \<or> rc = - EINVAL" "rc = 0 \<longleftrightarrow> \<not> dl_pending s \<and> resolves D h"
    and "dl_refs t = dl_refs s" "cpm_dlh (cc_module t) = Some h" "ccf_module t = ccf_module s"
    and "cc_loaded t \<longleftrightarrow> cc_loaded s \<or> rc = 0"
    and "rc = 0 \<Longrightarrow> cpm_ops (cc_module t) = module_ops D h"
proof -
  define ok where "ok = fst (alloc L (length n + 1) s)"
  define s1 where "s1 = (snd (alloc L (length n + 1) s))\<lparr>cc_module := (cc_module s)\<lparr>cpm_modname := if ok then Some n else None, cpm_dlh := Some h\<rparr>\<rparr>"
  obtain rc t where r: "load_symbols D h mod_symbols s1 = (rc, t)" by fastforce
  have s1: "dl_pending s1 = dl_pending s" "dl_refs s1 = dl_refs s" "cc_loaded s1 = cc_loaded s"
    "ccf_module s1 = ccf_module s" "cpm_dlh (cc_module s1) = Some h"
    by (simp_all add: s1_def alloc_def Let_def)
  have eq: "module_load L D h (Some n) s = Ok rc (if rc \<noteq> 0 then t else t\<lparr>cc_loaded := True\<rparr>)"
    using r by (simp add: module_load_def s1_def ok_def alloc_def Let_def)
  show thesis
    using load_symbols_frame [OF r] load_symbols_ok [OF r] load_symbols_ops [of D h mod_symbols s1 t] r
    by (intro that [OF eq]) (auto simp: s1 resolves_def fold_mod_symbols)
qed

lemma load_external_cases:
  assumes "ccf_module s = Some n" "\<not> cc_loaded s"
  obtains rc t where "lcap_module_load_external L D s = Ok rc t" "ccf_module t = Some n"
    and "rc = 0 \<or> rc = - EINVAL" "cc_loaded t \<longleftrightarrow> rc = 0"
    and "rc = 0 \<longleftrightarrow> (\<exists>h. dl_open D (Some n) = Some h \<and> \<not> dl_pending s \<and> resolves D h)"
    and "rc \<noteq> 0 \<Longrightarrow> dl_refs t = dl_refs s"
    and "\<And>h. rc = 0 \<Longrightarrow> dl_open D (Some n) = Some h \<Longrightarrow>
           dl_refs t = (dl_refs s)(h := dl_refs s h + 1) \<and> cpm_dlh (cc_module t) = Some h
           \<and> cpm_ops (cc_module t) = module_ops D h"
proof (cases "dl_open D (Some n)")
  case None
  define t where "t = (if level_code LCAPLOG_ERR \<ge> mc_level s then s\<lparr>dl_pending := False\<rparr> else s\<lparr>dl_pending := True\<rparr>)"
  have eq: "lcap_module_load_external L D s = Ok (- EINVAL) t"
    using assms None by (simp add: lcap_module_load_external_def dlopen_def dlerror_def t_def)
  show thesis
    using assms None by (intro that [OF eq]) (simp_all add: t_def)
next
  case (Some h)
  define s1 where "s1 = s\<lparr>dl_refs := (dl_refs s)(h := dl_refs s h + 1)\<rparr>"
  obtain rc t where r: "module_load L D h (Some n) s1 = Ok rc t"
    and rc: "rc = 0 \<or> rc = - EINVAL" "rc = 0 \<longleftrightarrow> \<not> dl_pending s1 \<and> resolves D h"
    and t: "dl_refs t = dl_refs s1" "cpm_dlh (cc_module t) = Some h" "ccf_module t = ccf_module s1"
      "cc_loaded t \<longleftrightarrow> cc_loaded s1 \<or> rc = 0" "rc = 0 \<Longrightarrow> cpm_ops (cc_module t) = module_ops D h"
    by (rule module_load_eq [of L D h n s1]) blast
  define u where "u = (if rc \<noteq> 0 then dlclose D h t else t\<lparr>cc_loaded := True\<rparr>)"
  have eq: "lcap_module_load_external L D s = Ok rc u"
    using assms Some r by (simp add: lcap_module_load_external_def dlopen_def s1_def u_def)
  show thesis
    using assms Some rc t by (intro that [OF eq]) (auto simp: u_def s1_def dlclose_def)
qed

subsection \<open>Sequences of loads and unloads\<close>

datatype mod_cmd = Load | Unload

primrec mod_step :: "libs \<Rightarrow> dl_env \<Rightarrow> mod_cmd \<Rightarrow> int mod_op" where
  "mod_step L D Load = lcap_module_load_external L D"
| "mod_step L D Unload = lcap_module_unload_external D"

primrec mod_run :: "libs \<Rightarrow> dl_env \<Rightarrow> mod_cmd list \<Rightarrow> int list mod_op" where
  "mod_run L D [] s = Ok [] s"
| "mod_run L D (c # cs) s = bindR (mod_step L D c s) (\<lambda>rc s. bindR (mod_run L D cs s) (\<lambda>rcs. Ok (rc # rcs)))"

text \<open>The module is there with one reference of its own, or the references are those before it.\<close>

definition mod_inv :: "dl_env \<Rightarrow> bytes \<Rightarrow> (addr \<Rightarrow> nat) \<Rightarrow> mod_ctx \<Rightarrow> bool" where
  "mod_inv D n refs s \<longleftrightarrow>
     ccf_module s = Some n
     \<and> (if cc_loaded s
        then \<exists>h. dl_open D (Some n) = Some h \<and> resolves D h \<and> dl_refs s = refs(h := refs h + 1)
               \<and> cpm_dlh (cc_module s) = Some h \<and> cpm_ops (cc_module s) = module_ops D h
        else dl_refs s = refs)"

lemma mod_step_inv:
  assumes "mod_inv D n refs s"
  obtains rc t where "mod_step L D c s = Ok rc t" "mod_inv D n refs t"
proof (cases c)
  case Load
  show thesis
  proof (cases "cc_loaded s")
    case True
    then show thesis using that [of "- EALREADY" s] assms Load by (simp add: lcap_module_load_external_def)
  next
    case False
    have n: "ccf_module s = Some n" and refs: "dl_refs s = refs"
      using assms False by (simp_all add: mod_inv_def)
    obtain rc t where "lcap_module_load_external L D s = Ok rc t" "ccf_module t = Some n" "cc_loaded t \<longleftrightarrow> rc = 0"
      "rc = 0 \<longleftrightarrow> (\<exists>h. dl_open D (Some n) = Some h \<and> \<not> dl_pending s \<and> resolves D h)"
      "rc \<noteq> 0 \<Longrightarrow> dl_refs t = dl_refs s"
      "\<And>h. rc = 0 \<Longrightarrow> dl_open D (Some n) = Some h \<Longrightarrow>
         dl_refs t = (dl_refs s)(h := dl_refs s h + 1) \<and> cpm_dlh (cc_module t) = Some h
         \<and> cpm_ops (cc_module t) = module_ops D h"
      by (rule load_external_cases [OF n False, of L D]) blast
    then show thesis using that [of rc t] Load refs by (auto simp: mod_inv_def)
  qed
next
  case Unload
  show thesis
    using assms Unload that by (cases "cc_loaded s") (auto simp: lcap_module_unload_external_def mod_inv_def dlclose_def)
qed

lemma mod_run_inv:
  assumes "mod_inv D n refs s"
  obtains rcs t where "mod_run L D cs s = Ok rcs t" "mod_inv D n refs t"
  using assms
proof (induction cs arbitrary: s thesis)
  case Nil
  then show ?case by simp
next
  case (Cons c cs)
  obtain rc t where t: "mod_step L D c s = Ok rc t" "mod_inv D n refs t"
    using mod_step_inv [OF Cons.prems(2)] by blast
  obtain rcs u where "mod_run L D cs t = Ok rcs u" "mod_inv D n refs u"
    using Cons.IH [OF _ t(2)] by blast
  then show ?case using Cons.prems(1) t(1) by simp
qed

definition sym_addr :: "dl_env \<Rightarrow> addr \<Rightarrow> string \<Rightarrow> addr" where
  "sym_addr D h name = the (fst (dl_sym D h (str name)))"

lemma sym_addr_eq:
  assumes "functions_exist D" "\<not> snd (dl_sym D h (str name))"
  shows "fst (dl_sym D h (str name)) = Some (sym_addr D h name)"
  using assms by (auto simp: functions_exist_def sym_addr_def)

lemma cpm_call_eq:
  assumes "mod_inv D n refs s" "cc_loaded s" "dl_open D (Some n) = Some h" "sel (module_ops D h) = Some f"
  shows "cpm_call sel code s = code f s"
  using assms by (auto simp: cpm_call_def mod_inv_def)

text \<open>A library that has every symbol.\<close>

definition demo_dl :: dl_env where
  "demo_dl = \<lparr>dl_open = (\<lambda>_. Some 7), dl_sym = (\<lambda>h name. (Some (h + length name), False)), dl_close_fails = (\<lambda>_. False)\<rparr>"

definition demo_mod :: mod_ctx where
  "demo_mod = \<lparr>w_log = [], w_errno = 0, w_in = [], ccf_module = Some (str ''m.so''), cc_module = cpm_zero, cc_loaded = False,
     dl_refs = (\<lambda>_. 0), dl_pending = False, mc_level = 3\<rparr>"

lemma demo_resolves: "resolves demo_dl 7" "functions_exist demo_dl"
  by (simp_all add: resolves_def functions_exist_def demo_dl_def mod_symbols_def)

text \<open>(C26) Loading a module that is not loaded returns 0 or \<^verbatim>\<open>-EINVAL\<close>. It returns 0 exactly when the
  library opens, all seven symbols resolve and no error was pending before the call; the module is
  then marked as loaded, the library has one more reference and each operation is the address of
  the symbol of its own name. In every other case the module is not loaded and no reference is kept.
\<close>

theorem module_load_exact:
  assumes "ccf_module s = Some n" "\<not> cc_loaded s"
  shows "\<exists>rc t. lcap_module_load_external L D s = Ok rc t \<and> (rc = 0 \<or> rc = - EINVAL) \<and> (cc_loaded t \<longleftrightarrow> rc = 0)
     \<and> (rc = 0 \<longleftrightarrow> (\<exists>h. dl_open D (Some n) = Some h \<and> \<not> dl_pending s \<and> resolves D h))
     \<and> (if rc \<noteq> 0 then dl_refs t = dl_refs s
        else \<exists>h. dl_open D (Some n) = Some h \<and> dl_refs t = (dl_refs s)(h := dl_refs s h + 1)
               \<and> cpm_ops (cc_module t) = module_ops D h)"
  by (rule load_external_cases [OF assms, of L D]) fastforce

theorem module_load_exact_witness:
  "\<exists>t. lcap_module_load_external demo_libs demo_dl demo_mod = Ok 0 t \<and> cc_loaded t \<and> dl_refs t 7 = 1
     \<and> cpo_init (cpm_ops (cc_module t)) = Some 23"
proof -
  have h: "dl_open demo_dl (Some (str ''m.so'')) = Some 7" and pre: "ccf_module demo_mod = Some (str ''m.so'')" "\<not> cc_loaded demo_mod"
    and m: "\<not> dl_pending demo_mod" "dl_refs demo_mod 7 = 0" "cpo_init (module_ops demo_dl 7) = Some 23"
    by (simp_all add: demo_mod_def demo_dl_def module_ops_def str_def)
  show ?thesis using module_load_exact [OF pre, of demo_libs demo_dl] h m demo_resolves(1) by auto
qed

text \<open>(C25) After any sequence of loads and unloads that starts with no module loaded: every call
  returned; when a module is loaded it is the one the configuration names, its library has exactly
  one reference more than before the sequence, and each of the seven calls reaches the function of
  its own name; when none is loaded the references are those before the sequence.
\<close>

theorem module_life:
  assumes "ccf_module s = Some n" "\<not> cc_loaded s" "functions_exist D"
  shows "\<exists>rcs t. mod_run L D cmds s = Ok rcs t
     \<and> (if cc_loaded t
        then \<exists>h. dl_open D (Some n) = Some h \<and> dl_refs t = (dl_refs s)(h := dl_refs s h + 1)
               \<and> cpm_name nm t = Ok (nm (sym_addr D h ''lcap_module_name'')) t
               \<and> cpm_init ini t = ini (sym_addr D h ''lcap_module_init'') t
               \<and> cpm_destroy des priv t = des (sym_addr D h ''lcap_module_destroy'') priv t
               \<and> cpm_rec_enqueue enq priv r t = enq (sym_addr D h ''lcap_module_rec_enqueue'') priv r t
               \<and> cpm_rec_dequeue deq priv t = deq (sym_addr D h ''lcap_module_rec_dequeue'') priv t
               \<and> cpm_set_ack sack priv cid dev recno t = sack (sym_addr D h ''lcap_module_set_ack'') priv cid dev recno t
               \<and> cpm_get_ack gack priv dev t = gack (sym_addr D h ''lcap_module_get_ack'') priv dev t
        else dl_refs t = dl_refs s)"
proof -
  have "mod_inv D n (dl_refs s) s" using assms by (simp add: mod_inv_def)
  then obtain rcs t where run: "mod_run L D cmds s = Ok rcs t" and inv: "mod_inv D n (dl_refs s) t"
    by (rule mod_run_inv)
  show ?thesis
  proof (cases "cc_loaded t")
    case True
    then obtain h where h: "dl_open D (Some n) = Some h" "resolves D h" "dl_refs t = (dl_refs s)(h := dl_refs s h + 1)"
      using inv by (auto simp: mod_inv_def)
    note sy = sym_addr_eq [OF assms(3)] and call = cpm_call_eq [OF inv True h(1)]
    have "resolves D h" by (rule h(2))
    then show ?thesis
      using run True h(1,3)
      by (intro exI [of _ rcs] exI [of _ t])
        (simp add: call sy resolves_def mod_symbols_def module_ops_def cpm_name_def cpm_init_def cpm_destroy_def
           cpm_rec_enqueue_def cpm_rec_dequeue_def cpm_set_ack_def cpm_get_ack_def)
  next
    case False
    then show ?thesis using run inv by (auto simp: mod_inv_def)
  qed
qed

theorem module_life_witness:
  "\<exists>t. mod_run demo_libs demo_dl [Load, Load, Unload, Load] demo_mod = Ok [0, - EALREADY, 0, 0] t
     \<and> cpm_init (\<lambda>f. Ok (int f, ())) t = Ok (23, ()) t"
proof -
  have pre: "ccf_module demo_mod = Some (str ''m.so'')" "\<not> cc_loaded demo_mod" by (simp_all add: demo_mod_def)
  have h: "dl_open demo_dl (Some (str ''m.so'')) = Some 7" "sym_addr demo_dl 7 ''lcap_module_init'' = 23"
    by (simp_all add: demo_dl_def sym_addr_def str_def)
  have run: "case mod_run demo_libs demo_dl [Load, Load, Unload, Load] demo_mod of
      Ok rcs t \<Rightarrow> rcs = [0, - EALREADY, 0, 0] \<and> cc_loaded t | Bad e t \<Rightarrow> False"
    by (simp add: lcap_module_load_external_def lcap_module_unload_external_def module_load_def mod_symbols_def
        mod_symbol_eq dlopen_def dlclose_def demo_mod_def demo_dl_def set_ops_def Let_def alloc_def demo_libs_def str_def)
  show ?thesis
    using module_life [OF pre demo_resolves(2), of demo_libs "[Load, Load, Unload, Load]" "\<lambda>_. []" "\<lambda>f. Ok (int f, ())"
        "\<lambda>_ _. Ok 0" "()" "\<lambda>_ _ _. Ok 0" "()" "\<lambda>_ _. Ok (0, ())" "\<lambda>_ _ _ _ _. Ok 0" "()" "[]" 0 "\<lambda>_ _ _. Ok (0, 0)"] run h
    by auto
qed

end
