(* ===== verification/Spec2Isabelle.thy ===== *)
theory Spec2Isabelle
  imports System_Flight Reader_Thread Config_Props Lcapd_Props Tool_Props Modules
begin

text \<open>
  LCAP (Lustre Changelogs Aggregate and Publish) is a daemon that reads the changelogs of the metadata
  targets (MDTs) of a Lustre file system and serves their records to clients over ZeroMQ. This
  development models the daemon, its client library and its command line client, from the C sources
  under \<^verbatim>\<open>src/src/\<close>, and proves what they do on every branch.

  \<^bold>\<open>The parts and how they interact.\<close> \<^verbatim>\<open>lcapd/lcapd.c\<close> reads the configuration (\<^verbatim>\<open>lcapd/config.c\<close>), opens
  the log (\<^verbatim>\<open>common/lcap_log.c\<close>), binds the broker's ROUTER socket and starts one reader thread per MDT.
  A reader (\<^verbatim>\<open>lcapd/reader.c\<close>) reads records from Lustre into buckets, kept in an intrusive list
  (\<^verbatim>\<open>include/queue.h\<close>), hands whole buckets to its clients, and clears the changelog upstream once the
  first bucket has been acknowledged. The broker (\<^verbatim>\<open>lcapd/broker.c\<close>) forwards requests of clients to
  the reader of the MDT they name and answers back to the clients; both receive messages through
  \<^verbatim>\<open>lcapnet/lcap_net.c\<close> and reply through \<^verbatim>\<open>lcapd/rpc_utils.c\<close>, in the format of
  \<^verbatim>\<open>include/lcap_idl.h\<close>. An application calls the functions of \<^verbatim>\<open>include/lcap_client.h\<close>, which dispatch
  to the proxy (\<^verbatim>\<open>client/px_client.c\<close>) or to Lustre directly (\<^verbatim>\<open>client/lu_client.c\<close>); \<^verbatim>\<open>tools/lcap.c\<close> is such
  an application.

  \<^bold>\<open>How C becomes HOL.\<close> A function is a HOL function from the state of its component to \<open>Ok\<close> a result
  and a state or to \<open>Bad\<close> a fault: use of NULL, freed or uninitialised memory, an index out of bounds,
  a failed assertion, signed overflow, a call outside its contract, or no return. Errors the code
  reports are negative results, as in C. Structures are records, with the field names of the source;
  memory that is shared through pointers is a partial map from addresses, with a counter \<open>m_brk\<close> above
  all of them; wire and record fields are words of their width, counters of type \<^verbatim>\<open>int\<close> are integers
  whose overflow is a fault. External code (libc's allocator, clock and threads, ZeroMQ, the Lustre API
  and its record accessors) is the record \<open>libs\<close>: every field is an arbitrary function of the history of
  external calls, so a theorem over all \<open>libs\<close> covers every behaviour of these libraries, and each call
  is an entry of the log \<open>w_log\<close>, so theorems can speak of what was sent and called. Where a theorem needs
  that memory is granted, messages are taken or \<^verbatim>\<open>zmq_poll\<close> counts only the event asked for, it says so by
  the hypotheses \<open>allocs_ok\<close>, \<open>sends_ok\<close> and \<open>polls_ok\<close>.

  \<^bold>\<open>Log messages.\<close> What a message says is left out, but where forming it reads memory the program has not
  checked, or overflows, it is part of the function: the name without NUL in the broker's message about an
  unknown MDT (\<open>register_from\<close>) and the negated code of a failed reader (\<open>broker_handle_signal\<close>), at every
  log level; the identity the debug message about a forwarded request prints (\<open>log_forward\<close>) and the
  operation code of a body that is too short for one (\<open>log_op\<close>, in the broker and in the reader), when
  debug messages are on (\<open>debug_logged\<close>); the identity of a reader that could not be set
  (\<open>changelog_reader_init\<close>). The predicates \<open>broker_fault\<close>, \<open>request_fault\<close> and \<open>ident_fault\<close> say exactly
  when, and the theorems on safety list them. Every other message prints strings that end in NUL,
  numbers, and the text of an error code; of a library's code INT_MIN, whose negation overflows in the
  argument of \<^verbatim>\<open>strerror\<close>, the model says nothing.

  \<^bold>\<open>The theories.\<close>
  \<^item> \<open>Prelude\<close>: bytes, outcomes, \<open>libs\<close>, the log, little-endian fields. \<open>Strings\<close>: what is used of the C
    library on strings, and \<^verbatim>\<open>getopt\<close>.
  \<^item> \<open>Idl\<close> (\<^verbatim>\<open>lcap_idl.h\<close>): operation codes, packed structures, \<open>enc_\<close> and \<open>dec_\<close> functions, the
    lemmas that read a structure back from its bytes.
  \<^item> \<open>Queue\<close> (\<^verbatim>\<open>queue.h\<close>): the list operations on a heap of nodes, a representation predicate
    \<open>list_rep\<close>, and that each operation implements the one on sequences and writes nothing else.
  \<^item> \<open>Net\<close> (\<^verbatim>\<open>lcap_net.c\<close>): frames to requests, the receive loop; what a callback may rely on and the
    locale \<open>rpc_server\<close>, the contract between the loop and a server, interpreted for the broker (\<open>Broker\<close>,
    \<open>Lcapd_Props\<close>) and for the reader, with its invariant (\<open>Reader_Loop\<close>) and with its traces (\<open>Reader_Thread\<close>).
  \<^item> \<open>Rpc_Utils\<close> (\<^verbatim>\<open>rpc_utils.c\<close>, \<^verbatim>\<open>lcapd_internal.h\<close>): replies, which messages are logged; \<open>emits\<close> reads the messages sent off the log.
  \<^item> \<open>Broker\<close> (\<^verbatim>\<open>broker.c\<close>): the handlers, the invariant of the table of readers, the specification
    \<open>broker_spec\<close> they refine and the requests \<open>broker_fault\<close> on which they fault instead; the receive loop of
    the broker, which blocks after the waiting messages.
  \<^item> \<open>Reader\<close> (\<^verbatim>\<open>reader.c\<close>): state \<open>reader_env\<close>, every operation and handler, the thread. \<open>Reader_Inv\<close> has the
    invariant \<open>rinv\<close>, \<open>Reader_Handlers\<close> what each handler keeps of it, \<open>Reader_Enqueue\<close> reading the changelog,
    \<open>Reader_Loop\<close> start and main loop, \<open>Reader_Props\<close> and \<open>Reader_Life\<close> the properties: delivery,
    acknowledgement, registration, safety of the thread. \<open>Reader_Spec\<close> is the reader without its heap, a
    machine over a queue of buckets and a list of clients, and shows that the handlers implement it;
    \<open>Reader_Spec_Read\<close> does so for reading the changelog.
  \<^item> \<open>Reader_Quiet\<close>: locales for calls that operations do not make, interpreted for sending a message and
    for clearing the changelog. \<open>Reader_Trace\<close>: runs of a reader, as sequences of reads and requests with
    the messages that answer them, and an invariant that ties the trace to the abstract machine; a run may
    also take idle steps, which add polls, receives and allocations to the log and change nothing else of
    the reader. \<open>Reader_Acked\<close>: only a CLEAR clears the changelog, and only records that were
    acknowledged; and that without memory for a message a batch counts as delivered all the same
    (\<open>unsent_batch_cleared\<close>). \<open>Reader_Thread\<close>: the order of delivery and the rule for clearing over all
    traces, and that every execution of the thread's loop is a trace, or one that ends in a
    request in which the thread faults. Both theories on traces assume that memory is granted and messages
    are taken, without which the two rules are false, and records below
    64 KiB (\<open>small_records\<close>), which Lustre's format keeps.
  \<^item> \<open>Client\<close> (\<^verbatim>\<open>px_client.c\<close>, \<^verbatim>\<open>lu_client.c\<close>, \<^verbatim>\<open>client.c\<close>, \<^verbatim>\<open>lcap_client.h\<close>): every operation. \<open>Client_Inv\<close>: the
    invariant \<open>px_inv\<close> and the locale \<open>record_source\<close> that both modes fulfil; \<open>Client_Props\<close>: batches,
    order, the replies that are refused (\<open>refusal_code\<close>) and the one that should be, clearing, registration.
  \<^item> \<open>Log\<close> (\<^verbatim>\<open>lcap_log.c\<close>, \<^verbatim>\<open>lcap_log.h\<close>): levels and loggers; what a sequence of calls writes.
  \<^item> \<open>Config\<close>, \<open>Config_Props\<close> (\<^verbatim>\<open>config.c\<close>): command line and file; every configuration read is well typed,
    the parser agrees with options and a list of statements, the faults of a file (\<open>cfg_fault\<close>).
  \<^item> \<open>Lcapd\<close>, \<open>Lcapd_Props\<close> (\<^verbatim>\<open>lcapd.c\<close>): the daemon's start, serving loop, signal thread and \<^verbatim>\<open>main\<close>.
  \<^item> \<open>Tool\<close>, \<open>Tool_Props\<close> (\<^verbatim>\<open>tools/lcap.c\<close>): the command line client; the locales \<open>acked_source\<close> and
    \<open>tool_client\<close> extend \<open>record_source\<close> by the acknowledgement and are interpreted for both modes;
    \<open>cleared_turns\<close> are the turns of its loop, told by the calls they make.
  \<^item> \<open>Modules\<close> (\<^verbatim>\<open>modules.c\<close>, \<^verbatim>\<open>modules.h\<close>): loading and unloading a processing module over a dynamic linker
    that is a parameter, and the calls of its functions.
  \<^item> \<open>System\<close>: what ZeroMQ does between the sockets, and broker, readers and any number of peers as one
    transition system whose steps deliver a message, let a peer send or a reader read, in any order; the
    invariants of all parts hold in every reachable state, and a fault that ended the daemon is kept
    with the message it comes from (\<open>crash\<close>). \<open>System_Flight\<close>: at most one message is in flight
    for a client; what a peer that is no client can do.
  \<^item> This theory: the way of a batch of records through client, broker and reader.

  \<^bold>\<open>Bounds and fuel.\<close> Walks along a list take \<open>m_brk\<close> steps, more than there are nodes; the receive loop
  takes one turn more than there are waiting frames, and \<open>lcap_rpc_recv_returns\<close> shows that it ends;
  receiving a reply and parsing a file recurse on what is left to read. The loops of the reader, of
  the broker, of the command line client and of the signal thread may run forever: they take a number
  of turns (or the signals of each turn) and end in \<open>No_return\<close> when it is used up; their properties hold
  for every number. A receive on a blocking socket with nothing to read is \<open>No_return\<close> too.

  \<^bold>\<open>Not modelled.\<close> The text of log and error messages inside the components (the logger itself is
  modelled), the rate \<^verbatim>\<open>changelog_reader_print_stats\<close> logs, and \<^verbatim>\<open>usage\<close>, which only prints. The interleaving inside the
  signal and main threads: signals arrive as explicit lists, and the flag a thread reads is part of \<open>libs\<close>. In
  \<open>System\<close> a thread takes one message per step and clients are what they send and receive; the loops that
  call these steps and the client library are in their own theories. \<^verbatim>\<open>lcapd/modules.c\<close> is not compiled by
  any Makefile and includes a header that does not exist: its structures have the fields the code uses.
  \<^verbatim>\<open>include/lcap_config.h\<close> is generated by autoheader.
\<close>

section \<open>From the cache of a reader to the application\<close>

lemma reader_gets_dequeue:
  assumes "reader_inv L s" "client_of s (cid c) = Some a" "client_bucket s a = None"
    and "\<forall>l. next_bucket L (s\<lparr>w_log := l\<rparr>) = Some d" "lrb_size (bkt_at s d) + sizeof_enqueue < 2 ^ 63"
    and "sends_ok L" "allocs_ok L" "c \<noteq> []" "length c + 16 < 2 ^ 63"
  shows "\<exists>t. reader_gets L [[], c, [], enc_dequeue cl_dequeue_pack] s = Ok 0 t \<and> reader_inv L t \<and> stored t = stored s \<and>
    emits s t [[c, [], bucket_msg L (bkt_at s d)]] \<and> client_bucket t a = Some d"
proof -
  let ?b = "enc_dequeue cl_dequeue_pack" and ?fs = "[[], c, [], enc_dequeue cl_dequeue_pack]"
  have b: "length ?b = sizeof_dequeue" "?b \<noteq> []" "body_op ?b = rpc_op_code RPC_OP_DEQUEUE"
    using demo_dequeue_facts by (simp_all add: demo_dequeue_body_def cl_dequeue_pack_def)
  let ?req = "request_of False ?fs"
  have req: "lr_remote ?req = None" "lr_forward ?req = Some (cid c)" "lr_body ?req = ?b" "lr_body_len ?req = sizeof_dequeue"
    using b assms(8) by (simp_all add: request_of_def body_of_def)
  obtain evs where once: "list_all quiet_event evs"
      "reader_gets L ?fs s = changelog_reader_rpc_hdl L ?req (s\<lparr>w_in := [], w_log := evs @ w_log s\<rparr>)"
    using lcap_rpc_recv_once_wire [of L ?fs "s\<lparr>w_in := wire ?fs\<rparr>" "[]" "LCAP_RECV_NONBLOCK OR LCAP_RECV_NO_ENVELOPE"
        "changelog_reader_rpc_hdl L"] assms(7,9) b req
    by (auto simp: reader_gets_def)
  define u where "u = s\<lparr>w_in := [], w_log := evs @ w_log s\<rparr>"
  have u: "world.more u = world.more s" "w_log u = evs @ w_log s" by (simp_all add: u_def)
  have "req_ok 3 ?req" using req b by (simp add: req_ok_def)
  moreover have "client_of u (cid c) = Some a" "client_bucket u a = None" "bkt_at u d = bkt_at s d" "stored u = stored s"
    using assms(2,3) by (simp_all add: u_def client_of_def client_bucket_def bkt_at_def peers_of_def ident_at_def
        stored_def buckets_of_def)
  moreover have "next_bucket L u = Some d"
    using spec [OF assms(4), of "evs @ w_log s"] by (simp add: u_def next_bucket_def expired_def buckets_of_def bkt_at_def cong: if_cong)
  ultimately obtain t where "changelog_reader_rpc_hdl L ?req u = Ok 0 t" "reader_inv L t" "stored t = stored s"
      "emits u t [peer_frames None (cid c) (bucket_msg L (bkt_at s d))]" "client_bucket t a = Some d"
    using dequeue_answer [OF reader_inv_more [OF assms(1) u(1)] _ req(2), of a d] assms(5-7) req b by auto
  with emits_same_log [OF u(2) once(1)] once(2) show ?thesis by (auto simp: peer_frames_def u_def)
qed

text \<open>The records of a bucket as a client gets them: each cut to its length.\<close>

definition bucket_batch :: "libs \<Rightarrow> lcap_rec_bucket \<Rightarrow> bytes list" where
  "bucket_batch L b = map (\<lambda>r. take (rec_len L r) r) (bkt_recs b)"

lemma wire_rec_cut:
  assumes "rec_layout L" "sizeof_changelog_rec L \<le> length r" "rec_len L r \<le> length r"
  shows "wire_rec L (take (rec_len L r) r)"
proof -
  let ?r = "take (rec_len L r) r"
  have len: "rec_len L r = wire_len L r" "sizeof_changelog_rec L \<le> rec_len L r"
  proof -
    have "changelog_rec_size L r = changelog_rec_name L r" "sizeof_changelog_rec L \<le> changelog_rec_name L r"
      using assms(1,2) unfolding rec_layout_def by blast+
    then show "rec_len L r = wire_len L r" "sizeof_changelog_rec L \<le> rec_len L r"
      by (simp_all add: rec_len_def wire_len_def)
  qed
  then have sz: "sizeof_changelog_rec L \<le> length ?r" using assms(3) by simp
  have "wire_len L ?r = rec_len L r"
    using wire_len_append [OF assms(1) sz, of "drop (rec_len L r) r"] unfolding append_take_drop_id len(1) by (rule sym)
  with sz assms(3) show ?thesis by (simp add: wire_rec_def)
qed

lemma bucket_batch_ok:
  assumes "rec_layout L" "bucket_ok L n b" "n < 2 ^ 31" "bkt_recs b \<noteq> []"
    and "\<forall>r \<in> set (bkt_recs b). sizeof_changelog_rec L \<le> length r" "length (bucket_msg L b) \<le> RECV_BUFFER_LENGTH"
  shows "bucket_msg L b = batch_msg (bucket_batch L b)" "batch_ok L (bucket_batch L b)"
proof -
  have "length (bkt_recs b) = nat (lrb_rec_count b)"
    using assms(2) by (simp add: bucket_ok_def bkt_recs_def min_absorb2 nat_mono)
  then have count: "lrb_rec_count b = int (length (bkt_recs b))" "length (bkt_recs b) < 2 ^ 31"
    using assms(2,3) by (auto simp: bucket_ok_def nat_less_iff)
  then show msg: "bucket_msg L b = batch_msg (bucket_batch L b)"
    by (simp add: bucket_msg_def batch_msg_def enqueue_msg_def record_bytes_def bucket_batch_def)
  have "list_all (wire_rec L) (bucket_batch L b)"
    using assms(1,2,5) wire_rec_cut by (auto simp: bucket_batch_def list_all_iff bucket_ok_def)
  with assms(1,4,6) count msg show "batch_ok L (bucket_batch L b)"
    by (simp add: batch_ok_def bucket_batch_def)
qed

lemma broker_spec_dequeue:
  "broker_spec cfg tab (cid c) (cid mdt) (enc_dequeue cl_dequeue_pack) =
     (tab, [[mdt, [], c, [], enc_dequeue cl_dequeue_pack]])"
proof -
  have "length (enc_dequeue cl_dequeue_pack) = sizeof_dequeue" "body_op (enc_dequeue cl_dequeue_pack) = rpc_op_code RPC_OP_DEQUEUE"
    using demo_dequeue_facts by (simp_all add: demo_dequeue_body_def cl_dequeue_pack_def)
  then show ?thesis by (simp add: broker_spec_def peer_frames_def rpc_expected_length_def)
qed

lemma broker_spec_batch:
  "broker_spec cfg tab (cid mdt) (cid c) (batch_msg rs) = (tab, [[c, [], batch_msg rs]])"
  by (simp add: broker_spec_def peer_frames_def batch_msg_facts)

text \<open>Neither message makes the broker fault, at any log level.\<close>

lemma broker_logs_dequeue:
  "length mdt \<le> sizeof_mdtname \<Longrightarrow> broker_fault cfg (cid mdt) (enc_dequeue cl_dequeue_pack) = None"
proof -
  assume "length mdt \<le> sizeof_mdtname"
  then have "\<not> id_overrun (cid mdt)"
    by (simp add: id_overrun_def cid_def to_int32_def signed_take_bit_int_eq_self)
  moreover have "length (enc_dequeue cl_dequeue_pack) = sizeof_dequeue" "body_op (enc_dequeue cl_dequeue_pack) = rpc_op_code RPC_OP_DEQUEUE"
    using demo_dequeue_facts by (simp_all add: demo_dequeue_body_def cl_dequeue_pack_def)
  ultimately show ?thesis by (simp add: broker_fault_def)
qed

lemma broker_logs_batch: "broker_fault cfg (cid mdt) (batch_msg rs) = None"
  by (simp add: broker_fault_def batch_msg_facts)

lemma client_gets_batch:
  assumes "px_inv cl" "px_ready cl" "px_pending L cl = []" "sends_ok L" "allocs_ok L" "sockopts_ok L" "batch_ok L rs"
  shows "\<exists>r t. lcap_changelog_recv L (cl\<lparr>w_in := wire [batch_msg rs]\<rparr>) = Ok (0, Some r) t \<and>
    rec_at L t r = Some (hd rs) \<and> px_inv t \<and> px_pending L t = tl rs \<and>
    emits cl t [px_frames (the (ccc_ptr cl)) (enc_dequeue cl_dequeue_pack)]"
proof -
  let ?s = "cl\<lparr>w_in := wire [batch_msg rs]\<rparr>"
  have s: "px_inv ?s" "px_ready ?s" "px_pending L ?s = []"
    using assms(1-3) px_inv_world [of ?s cl L] by (simp_all add: px_ready_def)
  have r: "replied_in L [batch_msg rs] [] ?s" using assms(4-7) by (simp add: replied_in_def batch_ok_def)
  obtain x xs where rs: "rs = x # xs" using assms(7) by (auto simp: batch_ok_def neq_Nil_conv)
  obtain v where v: "px_dequeue_records L ?s = Ok 0 v" "px_inv v" "px_pending L v = x # xs"
      "emits ?s v [px_frames (the (ccc_ptr cl)) (enc_dequeue cl_dequeue_pack)]"
    using dequeue_batch [OF s(1,2) r _ assms(7)] rs by auto
  have "lcap_changelog_recv L ?s = lcap_changelog_recv L v"
    using px_recv_after [OF s(1,3) v(1,2)] v(3) by simp
  with px_recv_cached [OF v(2,3)] v(4) rs show ?thesis by (fastforce simp: emits_def)
qed

text \<open>(C13) The way of a batch of records through the whole system: a client with nothing cached asks for
  records, the broker forwards the request to the reader of the MDT the client named, the reader
  assigns its next bucket to this client and answers, the broker passes the answer back, and the
  application receives the first record of the bucket byte for byte, with the others cached in their
  order. The reader's cache keeps the records until they are cleared, and each part keeps its
  invariant. The name of the MDT fits the client's array of 128 bytes.\<close>

theorem dequeue_end_to_end:
  assumes Z: "zmq_envelopes Z" and L: "sends_ok L" "allocs_ok L" "sockopts_ok L" "rec_layout L"
    and cl: "px_inv cl" "px_ready cl" "px_pending L cl = []"
      "px_frames (the (ccc_ptr cl)) (enc_dequeue cl_dequeue_pack) = [mdt, dq]"
    and ids: "c \<noteq> []" "mdt \<noteq> []" "length c < 2 ^ 62" "length mdt \<le> sizeof_mdtname" and br: "broker_inv ctx"
    and rd: "reader_inv L s" "client_of s (cid c) = Some a" "client_bucket s a = None"
      "\<forall>l. next_bucket L (s\<lparr>w_log := l\<rparr>) = Some d"
    and bk: "bkt_recs (bkt_at s d) \<noteq> []" "\<forall>r \<in> set (bkt_recs (bkt_at s d)). sizeof_changelog_rec L \<le> length r"
      "length (bucket_msg L (bkt_at s d)) \<le> RECV_BUFFER_LENGTH"
  shows "\<exists>m1 m2 m3 f1 f3 ctx' ctx'' s' cl' r.
    broker_gets L (req_in Z c [mdt, dq]) ctx = Ok 0 ctx' \<and> emits ctx ctx' [m1] \<and> dealer_out Z mdt m1 = Some f1 \<and>
    reader_gets L f1 s = Ok 0 s' \<and> emits s s' [m2] \<and>
    broker_gets L (dealer_in Z mdt m2) ctx' = Ok 0 ctx'' \<and> emits ctx' ctx'' [m3] \<and> req_out Z c m3 = Some f3 \<and>
    lcap_changelog_recv L (cl\<lparr>w_in := wire f3\<rparr>) = Ok (0, Some r) cl' \<and> emits cl cl' [[mdt, dq]] \<and>
    rec_at L cl' r = Some (hd (bucket_batch L (bkt_at s d))) \<and> px_pending L cl' = tl (bucket_batch L (bkt_at s d)) \<and>
    client_bucket s' a = Some d \<and> stored s' = stored s \<and> reader_inv L s' \<and> broker_inv ctx'' \<and> px_inv cl'"
proof -
  let ?b = "bkt_at s d" let ?rs = "bucket_batch L ?b"
  obtain bs ps where r: "rinv L s bs ps" and bs: "buckets_of s = bs" using reader_invE [OF rd(1)] .
  have "d \<in> set bs" by (rule next_bucket_member [OF r]) (use spec [OF rd(4), of "w_log s"] in simp)
  then obtain b where b: "m_bkts s d = Some b" using rinv_bkt [OF r] by blast
  have ok: "bucket_ok L (ccf_rec_batch_count (re_cfg s)) ?b" "ccf_rec_batch_count (re_cfg s) < 2 ^ 31"
    using r b by (simp_all add: rinv_def bkts_ok_def bkt_at_def cfg_ok_def)
  note batch = bucket_batch_ok [OF L(4) ok bk]
  have dq: "dq = enc_dequeue cl_dequeue_pack" using cl(4) by (simp add: px_frames_def)
  have len: "length (enc_dequeue cl_dequeue_pack) = sizeof_dequeue" by simp
  have ne: "enc_dequeue cl_dequeue_pack \<noteq> []" "batch_msg ?rs \<noteq> []"
    using len batch_msg_facts(1) [of ?rs] by (metis list.size(3) zero_neq_numeral, force)
  obtain ctx' where b1: "broker_gets L [c, [], mdt, dq] ctx = Ok 0 ctx'" "broker_inv ctx'"
      "emits ctx ctx' [[mdt, [], c, [], dq]]"
    using broker_gets_spec [OF L(1,2) br, of "[c, [], mdt, dq]" c mdt dq, OF _ _ broker_spec_dequeue [folded dq]]
      broker_logs_dequeue [OF ids(4), of "cc_config ctx"] ids ne dq len by auto
  have sz: "lrb_size ?b + sizeof_enqueue < 2 ^ 63"
  proof -
    have "length (record_bytes L (bkt_recs ?b)) = lrb_size ?b"
      using ok(1) by (simp add: bucket_ok_def length_record_bytes)
    then have "length (bucket_msg L ?b) = sizeof_enqueue + lrb_size ?b"
      by (simp add: bucket_msg_def enqueue_msg_def enc_enqueue_def)
    with bk(3) show ?thesis by simp
  qed
  obtain s' where s': "reader_gets L [[], c, [], dq] s = Ok 0 s'" "reader_inv L s'" "stored s' = stored s"
      "emits s s' [[c, [], batch_msg ?rs]]" "client_bucket s' a = Some d"
    using reader_gets_dequeue [OF rd sz L(1,2) ids(1)] ids(3) batch(1) dq by auto
  obtain ctx'' where b2: "broker_gets L [mdt, c, [], batch_msg ?rs] ctx' = Ok 0 ctx''" "broker_inv ctx''"
      "emits ctx' ctx'' [[c, [], batch_msg ?rs]]"
    using broker_gets_spec [OF L(1,2) b1(2), of "[mdt, c, [], batch_msg ?rs]" mdt c "batch_msg ?rs", OF _ _ broker_spec_batch]
      broker_logs_batch [of "cc_config ctx'" c ?rs] ids ne bk(3) batch(1) by auto
  obtain r' cl' where c': "lcap_changelog_recv L (cl\<lparr>w_in := wire [batch_msg ?rs]\<rparr>) = Ok (0, Some r') cl'"
      "rec_at L cl' r' = Some (hd ?rs)" "px_inv cl'" "px_pending L cl' = tl ?rs" "emits cl cl' [[mdt, dq]]"
    using client_gets_batch [OF cl(1-3) L(1-3) batch(2)] unfolding cl(4) by blast
  have z: "req_in Z c [mdt, dq] = [c, [], mdt, dq]" "dealer_out Z mdt [mdt, [], c, [], dq] = Some [[], c, [], dq]"
      "dealer_in Z mdt [c, [], batch_msg ?rs] = [mdt, c, [], batch_msg ?rs]"
      "req_out Z c [c, [], batch_msg ?rs] = Some [batch_msg ?rs]"
    using Z by (simp_all add: zmq_envelopes_def)
  show ?thesis
    by (intro exI [of _ "[mdt, [], c, [], dq]"] exI [of _ "[c, [], batch_msg ?rs]"] exI [of _ "[c, [], batch_msg ?rs]"]
        exI [of _ "[[], c, [], dq]"] exI [of _ "[batch_msg ?rs]"] exI [of _ ctx'] exI [of _ ctx''] exI [of _ s']
        exI [of _ cl'] exI [of _ r'])
      (simp only: z b1 b2 s' c' simp_thms)
qed

lemma demo_bucket: "bkt_recs (bkt_at demo_reader 0) = [demo_rec]" "bucket_batch demo_libs (bkt_at demo_reader 0) = [demo_rec]"
  "length demo_rec = 64" "length (bucket_msg demo_libs (bkt_at demo_reader 0)) = 76"
proof -
  have r: "rec_len demo_libs demo_rec = 64" and len: "length demo_rec = 64"
    by (simp_all add: rec_len_def demo_libs_def demo_rec_def numeral_eq_Suc)
  show recs: "bkt_recs (bkt_at demo_reader 0) = [demo_rec]" by (simp add: bkt_recs_def bkt_at_def demo_reader_def)
  with r len show "bucket_batch demo_libs (bkt_at demo_reader 0) = [demo_rec]" by (simp add: bucket_batch_def)
  from recs r len show "length (bucket_msg demo_libs (bkt_at demo_reader 0)) = 76"
    by (simp add: bucket_msg_def enqueue_msg_def enc_enqueue_def record_bytes_def)
qed (simp add: demo_rec_def)

theorem dequeue_end_to_end_witness:
  "\<exists>m1 f1 s' f3 r cl'. dealer_out demo_links [77, 48] m1 = Some f1 \<and> reader_gets demo_libs f1 demo_reader = Ok 0 s' \<and>
     client_bucket s' 1 = Some 0 \<and>
     lcap_changelog_recv demo_libs ((demo_client_ctx (Some demo_pzd) [])\<lparr>w_in := wire f3\<rparr>) = Ok (0, Some r) cl' \<and>
     rec_at demo_libs cl' r = Some demo_rec \<and> px_pending demo_libs cl' = []"
proof -
  have Z: "zmq_envelopes demo_links" by (simp add: zmq_envelopes_def demo_links_def)
  have L: "sockopts_ok demo_libs" by (simp add: sockopts_ok_def demo_libs_def)
  have mdt: "px_frames (the (ccc_ptr (demo_client_ctx (Some demo_pzd) []))) (enc_dequeue cl_dequeue_pack) =
      [[77, 48], enc_dequeue cl_dequeue_pack]"
    by (simp add: px_frames_def demo_client_ctx_def demo_pzd_def)
  have nb: "\<forall>l. next_bucket demo_libs (demo_reader\<lparr>w_log := l\<rparr>) = Some 0"
    using demo_next(1) by (simp add: next_bucket_def expired_def buckets_of_def bkt_at_def demo_libs_def cong: if_cong)
  have ids: "[5 :: byte] \<noteq> []" "[77, 48 :: byte] \<noteq> []" "length [5 :: byte] < 2 ^ 62" "length [77, 48 :: byte] \<le> sizeof_mdtname"
    by simp_all
  have bk: "bkt_recs (bkt_at demo_reader 0) \<noteq> []"
      "\<forall>r \<in> set (bkt_recs (bkt_at demo_reader 0)). sizeof_changelog_rec demo_libs \<le> length r"
      "length (bucket_msg demo_libs (bkt_at demo_reader 0)) \<le> RECV_BUFFER_LENGTH"
    by (simp_all add: demo_bucket) (simp add: demo_libs_def)
  show ?thesis
    using dequeue_end_to_end [OF Z demo_libs_ok(2,1) L demo_layout demo_px mdt ids demo_ctx_inv
        reader_invI [OF demo_reader_ok] demo_client nb bk] unfolding demo_bucket list.sel by blast
qed

end
